(* ===== verification/Prelude.thy ===== *)
theory Prelude
  imports Main "HOL-Library.Word"
begin

text \<open>
  Shared vocabulary of the development: the fixed-width integer types of the C sources, the
  reading of a C string pointer as the list of characters that are left before the terminating
  NUL, the character classes of \<open>ctype.h\<close> in the C locale, and the conversions of
  \<open>printf\<close> and \<open>scanf\<close> the sources rely on (fixed-width hexadecimal, decimal).

  A \<open>char *\<close> into a NUL-terminated string is a suffix of that string: \<open>*ptr\<close> is
  \<open>peek s\<close> (NUL at the end), \<open>ptr++\<close> is \<open>tl s\<close>. A C string never holds a NUL, so
  the lists do not either where it matters.
\<close>

unbundle bit_operations_syntax

type_synonym u8 = "8 word"
type_synonym u16 = "16 word"
type_synonym u32 = "32 word"

named_theorems ctype_simps "unfolding the character classes of ctype.h"
named_theorems store_laws "laws of the stores the components keep"
named_theorems fsm_simps "one-step equations of the byte-driven state machines"

subsection \<open>Pointers into C strings\<close>

definition peek :: "string \<Rightarrow> char" where
  "peek s = (case s of [] \<Rightarrow> CHR 0x00 | c # _ \<Rightarrow> c)"

lemma peek_simps [simp]: "peek [] = CHR 0x00" "peek (c # s) = c"
  by (simp_all add: peek_def)

lemma peek_append: "peek (s @ t) = (if s = [] then peek t else peek s)"
  by (cases s) auto

definition starts_with :: "string \<Rightarrow> string \<Rightarrow> bool" where
  "starts_with p s \<longleftrightarrow> take (length p) s = p"

lemma starts_with_Nil [simp]: "starts_with [] s"
  by (simp add: starts_with_def)

lemma starts_with_Cons [simp]:
  "starts_with (a # p) (b # s) \<longleftrightarrow> a = b \<and> starts_with p s"
  "\<not> starts_with (a # p) []"
  by (auto simp: starts_with_def)

subsection \<open>Character classes\<close>

definition code :: "char \<Rightarrow> nat" where
  "code c = of_char c"

definition isdigit :: "char \<Rightarrow> bool" where
  "isdigit c \<longleftrightarrow> 48 \<le> code c \<and> code c \<le> 57"

definition isupper :: "char \<Rightarrow> bool" where
  "isupper c \<longleftrightarrow> 65 \<le> code c \<and> code c \<le> 90"

definition islower :: "char \<Rightarrow> bool" where
  "islower c \<longleftrightarrow> 97 \<le> code c \<and> code c \<le> 122"

definition isalpha :: "char \<Rightarrow> bool" where
  "isalpha c \<longleftrightarrow> isupper c \<or> islower c"

definition isspace :: "char \<Rightarrow> bool" where
  "isspace c \<longleftrightarrow> code c = 32 \<or> 9 \<le> code c \<and> code c \<le> 13"

definition isxdigit :: "char \<Rightarrow> bool" where
  "isxdigit c \<longleftrightarrow> isdigit c \<or> 65 \<le> code c \<and> code c \<le> 70 \<or> 97 \<le> code c \<and> code c \<le> 102"

text \<open>The tail characters of an identifier: \<open>isalpha(c) || isdigit(c) || c == '_'\<close>.\<close>

definition isident :: "char \<Rightarrow> bool" where
  "isident c \<longleftrightarrow> isalpha c \<or> isdigit c \<or> c = CHR ''_''"

lemmas ctype_defs = code_def isdigit_def isupper_def islower_def isalpha_def isspace_def
  isxdigit_def isident_def

declare ctype_defs [ctype_simps]

text \<open>The value of a hexadecimal digit, and the digits \<open>printf\<close> writes for \<open>%X\<close> and \<open>%x\<close>.\<close>

definition hexval :: "char \<Rightarrow> nat" where
  "hexval c = (if isdigit c then code c - 48
               else if code c \<ge> 97 then code c - 87 else code c - 55)"

definition hexdigit :: "nat \<Rightarrow> char" where
  "hexdigit d = ''0123456789ABCDEF'' ! d"

definition hexdigit_lower :: "nat \<Rightarrow> char" where
  "hexdigit_lower d = ''0123456789abcdef'' ! d"

subsection \<open>Hexadecimal and decimal output\<close>

text \<open>
  \<open>hexU n v\<close> is what \<open>%0nX\<close> prints for a \<open>v\<close> that fits in \<open>n\<close> digits (every
  use in the sources does), \<open>hexL\<close> the same for \<open>%0nx\<close>.
\<close>

fun hexU :: "nat \<Rightarrow> nat \<Rightarrow> string" where
  "hexU 0 v = []"
| "hexU (Suc n) v = hexU n (v div 16) @ [hexdigit (v mod 16)]"

fun hexL :: "nat \<Rightarrow> nat \<Rightarrow> string" where
  "hexL 0 v = []"
| "hexL (Suc n) v = hexL n (v div 16) @ [hexdigit_lower (v mod 16)]"

text \<open>The hexadecimal digits that a number needs, and padding to a width.\<close>

fun hexN :: "nat \<Rightarrow> string" where
  "hexN v = (if v < 16 then [hexdigit v] else hexN (v div 16) @ [hexdigit (v mod 16)])"

declare hexN.simps [simp del]

definition pad_left :: "nat \<Rightarrow> char \<Rightarrow> string \<Rightarrow> string" where
  "pad_left w c s = replicate (w - length s) c @ s"

text \<open>\<open>0x%08X\<close>.\<close>

definition hex8 :: "u32 \<Rightarrow> string" where
  "hex8 v = ''0x'' @ hexU 8 (unat v)"

text \<open>\<open>%d\<close> of a non-negative number.\<close>

fun decU :: "nat \<Rightarrow> string" where
  "decU v = (if v < 10 then [hexdigit v] else decU (v div 10) @ [hexdigit (v mod 10)])"

declare decU.simps [simp del]

text \<open>The number a digit string denotes, most significant digit first.\<close>

definition digits_value :: "nat \<Rightarrow> nat \<Rightarrow> string \<Rightarrow> nat" where
  "digits_value radix acc ds = foldl (\<lambda>a c. a * radix + hexval c) acc ds"

lemma digits_value_simps [simp]:
  "digits_value r a [] = a"
  "digits_value r a (c # cs) = digits_value r (a * r + hexval c) cs"
  by (simp_all add: digits_value_def)

lemma digits_value_append [simp]:
  "digits_value r a (xs @ ys) = digits_value r (digits_value r a xs) ys"
  by (simp add: digits_value_def)

lemma hexdigit_props:
  assumes "d < 16"
  shows "hexval (hexdigit d) = d" "isxdigit (hexdigit d)" "isident (hexdigit d)"
    "\<not> isspace (hexdigit d)" "hexdigit d \<noteq> CHR '',''" "hexdigit d \<noteq> CHR '';''"
    "hexdigit d \<noteq> CHR 0x00" "hexdigit d \<noteq> CHR ''x''" "hexdigit d \<noteq> CHR ''b''"
    "\<not> islower (hexdigit d)"
proof -
  have "\<forall>d \<in> set [0..<16]. hexval (hexdigit d) = d \<and> isxdigit (hexdigit d) \<and>
      isident (hexdigit d) \<and> \<not> isspace (hexdigit d) \<and> hexdigit d \<noteq> CHR '','' \<and>
      hexdigit d \<noteq> CHR '';'' \<and> hexdigit d \<noteq> CHR 0x00 \<and> hexdigit d \<noteq> CHR ''x'' \<and>
      hexdigit d \<noteq> CHR ''b'' \<and> \<not> islower (hexdigit d)"
    by code_simp
  with assms show "hexval (hexdigit d) = d" "isxdigit (hexdigit d)" "isident (hexdigit d)"
    "\<not> isspace (hexdigit d)" "hexdigit d \<noteq> CHR '',''" "hexdigit d \<noteq> CHR '';''"
    "hexdigit d \<noteq> CHR 0x00" "hexdigit d \<noteq> CHR ''x''" "hexdigit d \<noteq> CHR ''b''"
    "\<not> islower (hexdigit d)"
    by auto
qed

lemma hexdigit_lower_props:
  assumes "d < 16"
  shows "hexval (hexdigit_lower d) = d" "isxdigit (hexdigit_lower d)"
    "hexdigit_lower d \<noteq> CHR ''$''" "hexdigit_lower d \<noteq> CHR ''#''" "hexdigit_lower d \<noteq> CHR ''}''"
proof -
  have "\<forall>d \<in> set [0..<16]. hexval (hexdigit_lower d) = d \<and> isxdigit (hexdigit_lower d) \<and>
      hexdigit_lower d \<noteq> CHR ''$'' \<and> hexdigit_lower d \<noteq> CHR ''#'' \<and> hexdigit_lower d \<noteq> CHR ''}''"
    by code_simp
  with assms show "hexval (hexdigit_lower d) = d" "isxdigit (hexdigit_lower d)"
    "hexdigit_lower d \<noteq> CHR ''$''" "hexdigit_lower d \<noteq> CHR ''#''" "hexdigit_lower d \<noteq> CHR ''}''"
    by auto
qed

lemma isdigit_hexdigit: "d < 10 \<Longrightarrow> isdigit (hexdigit d)"
proof -
  have "\<forall>d \<in> set [0..<10]. isdigit (hexdigit d)" by code_simp
  then show "d < 10 \<Longrightarrow> isdigit (hexdigit d)" by auto
qed

lemma isxdigit_hexval: "isxdigit c \<Longrightarrow> hexval c < 16"
  by (auto simp: hexval_def isxdigit_def isdigit_def)

lemma isdigit_hexval: "isdigit c \<Longrightarrow> hexval c < 10"
  by (auto simp: hexval_def isdigit_def)

lemma isdigit_isxdigit: "isdigit c \<Longrightarrow> isxdigit c"
  by (simp add: isxdigit_def)

lemma isxdigit_isident: "isxdigit c \<Longrightarrow> isident c"
  by (auto simp: ctype_defs)

lemma isspace_not_ident: "isspace c \<Longrightarrow> \<not> isident c"
  by (auto simp: ctype_defs)

lemma peek_NUL_class [simp]:
  "\<not> isdigit (CHR 0x00)" "\<not> isxdigit (CHR 0x00)" "\<not> isspace (CHR 0x00)"
  "\<not> isident (CHR 0x00)" "\<not> isalpha (CHR 0x00)"
  by (simp_all add: ctype_defs)

lemma length_hexU [simp]: "length (hexU n v) = n"
  by (induction n arbitrary: v) auto

lemma length_hexL [simp]: "length (hexL n v) = n"
  by (induction n arbitrary: v) auto

lemma set_hexU: "c \<in> set (hexU n v) \<Longrightarrow> \<exists>d < 16. c = hexdigit d"
  by (induction n arbitrary: v) (auto intro: exI [of _ "_ mod 16"])

lemma hexU_xdigits: "c \<in> set (hexU n v) \<Longrightarrow> isxdigit c \<and> \<not> isspace c \<and> isident c"
  using set_hexU hexdigit_props by blast

lemma hexU_value: "digits_value 16 a (hexU n v) = a * 16 ^ n + v mod 16 ^ n"
proof (induction n arbitrary: v)
  case (Suc n)
  have "v mod 16 ^ Suc n = 16 * (v div 16 mod 16 ^ n) + v mod 16"
    by (simp add: mod_mult2_eq)
  then show ?case
    using Suc.IH [of "v div 16"] by (simp add: hexdigit_props algebra_simps)
qed simp

lemma set_decU: "c \<in> set (decU v) \<Longrightarrow> \<exists>d < 10. c = hexdigit d"
proof (induction v rule: decU.induct)
  case (1 v)
  show ?case
  proof (cases "v < 10")
    case True
    with "1.prems" show ?thesis by (auto simp: decU.simps [of v])
  next
    case False
    with "1.prems" have "c \<in> set (decU (v div 10)) \<or> c = hexdigit (v mod 10)"
      by (auto simp: decU.simps [of v])
    with "1.IH" False show ?thesis by (auto intro: exI [of _ "v mod 10"])
  qed
qed

lemma decU_digits:
  assumes "c \<in> set (decU v)"
  shows "isdigit c" "isident c" "c \<noteq> CHR '',''" "c \<noteq> CHR '';''"
proof -
  from set_decU [OF assms] obtain d where d: "d < 10" "c = hexdigit d" by blast
  then have "d < 16" by simp
  with d show "isdigit c" "isident c" "c \<noteq> CHR '',''" "c \<noteq> CHR '';''"
    using isdigit_hexdigit [of d] hexdigit_props [of d] by simp_all
qed

lemma decU_nonempty [simp]: "decU v \<noteq> []"
  by (simp add: decU.simps [of v])

lemma decU_value: "digits_value 10 0 (decU v) = v"
proof (induction v rule: decU.induct)
  case (1 v)
  then show ?case
    by (cases "v < 10") (simp_all add: decU.simps [of v] hexdigit_props)
qed

lemma length_decU: "v < 10 ^ n \<Longrightarrow> 0 < n \<Longrightarrow> length (decU v) \<le> n"
proof (induction v arbitrary: n rule: decU.induct)
  case (1 v)
  show ?case
  proof (cases "v < 10")
    case True
    with "1.prems" show ?thesis by (simp add: decU.simps [of v])
  next
    case False
    with "1.prems" obtain m where n: "n = Suc m" "0 < m"
      by (cases n; cases "n - 1") auto
    with "1.prems" have "v div 10 < 10 ^ m"
      by (simp add: less_mult_imp_div_less)
    with "1.IH" False n show ?thesis
      by (simp add: decU.simps [of v])
  qed
qed

subsection \<open>Shifting a digit into a word\<close>

lemma bit_less_power: "j < 2 ^ k \<Longrightarrow> bit (j :: nat) n \<Longrightarrow> n < k"
  by (metis bit_take_bit_iff take_bit_nat_eq_self)

lemma push_or_digit:
  "j < 2 ^ k \<Longrightarrow> push_bit k a OR word_of_nat j = a * 2 ^ k + (word_of_nat j :: 'a::len word)"
proof -
  assume j: "j < 2 ^ k"
  have "push_bit k a AND (word_of_nat j :: 'a word) = 0"
    by (rule bit_word_eqI) (use bit_less_power [OF j] in \<open>auto simp: bit_simps dest: leD\<close>)
  then show ?thesis
    by (simp add: push_bit_eq_mult flip: disjunctive_add_eq_or)
qed

subsection \<open>Scanning a hexadecimal number\<close>

text \<open>The conversion \<open>%x\<close> of \<open>sscanf\<close>: the value and the rest; \<open>None\<close> when nothing matches.\<close>

definition scan_hex :: "string \<Rightarrow> (u32 \<times> string) option" where
  "scan_hex str =
     (let s = dropWhile isspace str; neg = (peek s = CHR ''-'');
          s = (if neg \<or> peek s = CHR ''+'' then tl s else s);
          s = (if peek s = CHR ''0'' \<and> peek (tl s) \<in> {CHR ''x'', CHR ''X''} then drop 2 s else s);
          ds = takeWhile isxdigit s; v = of_nat (digits_value 16 0 ds)
      in if ds = [] then None else Some (if neg then - v else v, drop (length ds) s))"

lemma xdigit_plain: "isxdigit c \<Longrightarrow> c \<notin> {CHR ''-'', CHR ''+'', CHR ''x'', CHR ''X''} \<and> \<not> isspace c"
  by (auto simp: ctype_defs)

lemma scan_hex_digits:
  assumes "ds \<noteq> []" "\<forall>c \<in> set ds. isxdigit c" "\<not> isxdigit (peek rest)" "peek rest \<notin> {CHR ''x'', CHR ''X''}"
  shows "scan_hex (replicate k CHR '' '' @ ds @ rest) = Some (of_nat (digits_value 16 0 ds), rest)"
proof -
  obtain c cs where ds: "ds = c # cs" using assms(1) by (cases ds) auto
  then have c: "c \<noteq> CHR ''-''" "c \<noteq> CHR ''+''" "\<not> isspace c" using assms(2) xdigit_plain [of c] by auto
  have blank: "isspace CHR '' ''" by (simp add: ctype_defs)
  have skip: "dropWhile isspace (replicate k CHR '' '' @ ds @ rest) = ds @ rest" using c(3) blank by (simp add: ds dropWhile_append)
  have "peek (cs @ rest) \<notin> {CHR ''x'', CHR ''X''}" using assms(2,4) ds xdigit_plain by (cases cs) auto
  then have "\<not> (peek (ds @ rest) = CHR ''0'' \<and> peek (tl (ds @ rest)) \<in> {CHR ''x'', CHR ''X''})" by (simp add: ds)
  moreover have "takeWhile isxdigit (ds @ rest) = ds" using assms(2,3) by (cases rest) (auto simp: takeWhile_append)
  moreover have "peek (ds @ rest) = c" by (simp add: ds)
  ultimately show ?thesis unfolding scan_hex_def skip Let_def using assms(1) c by auto
qed

lemma xdigit_not_delim:
  "isxdigit c \<Longrightarrow> c \<noteq> CHR '',''" "isxdigit c \<Longrightarrow> c \<noteq> CHR '';''" "isxdigit c \<Longrightarrow> c \<noteq> CHR 0x00"
  by (auto simp: ctype_defs)

end
