(* ===== verification/Definitions.thy ===== *)
theory Definitions
  imports Prelude
begin

text \<open>
  The definition store of rvd (\<open>rvd/definitions.c\<close>): a hash table of 256 bins, each a linked
  list of records with a context mask, a name and an expansion. Registering a (mask, name) pair
  that is already there overwrites its expansion in place; a new pair goes to the front of its
  bin. Expanding a name for the current context takes the first record of the bin whose name
  matches and whose mask holds the context's bit.

  The contract of the store is the locale \<open>def_store\<close>: every name has a chain of (mask,
  expansion) pairs, most recently created first. The client facts are proved in the locale and
  the hash table is its interpretation. Allocation is taken to succeed (the \<open>-1\<close> returns of
  \<open>copyString\<close> and \<open>malloc\<close> have no counterpart).
\<close>

section \<open>The hash table\<close>

record table_entry =
  te_mask :: u32
  te_def :: string
  te_expansion :: string

text \<open>The static variables \<open>bins\<close> and \<open>currentContext\<close>. A context number is below 32.\<close>

record def_table =
  bins :: "nat \<Rightarrow> table_entry list"
  currentContext :: nat

definition NUM_BINS :: nat where
  "NUM_BINS = 256"

definition initial_defs :: def_table where
  "initial_defs = \<lparr>bins = (\<lambda>_. []), currentContext = 0\<rparr>"

definition hash_char :: "u32 \<Rightarrow> char \<Rightarrow> u32" where
  "hash_char hash c = word_of_nat (code c) + push_bit 6 hash + push_bit 16 hash - hash"

definition getBin :: "string \<Rightarrow> nat" where
  "getBin str = unat (foldl hash_char 0 str) mod NUM_BINS"

text \<open>The \<open>1 << context\<close> of the sources.\<close>

definition context_bit :: "nat \<Rightarrow> u32" where
  "context_bit ctx = push_bit ctx 1"

text \<open>
  The search for a perfect match: the list with the expansion of the first perfect match
  replaced, or \<open>None\<close> when there is none.
\<close>

fun override :: "u32 \<Rightarrow> string \<Rightarrow> string \<Rightarrow> table_entry list \<Rightarrow> table_entry list option" where
  "override msk def expansion [] = None"
| "override msk def expansion (ptr # rest) =
     (if te_mask ptr = msk \<and> def = te_def ptr
      then Some (ptr\<lparr>te_expansion := expansion\<rparr> # rest)
      else map_option ((#) ptr) (override msk def expansion rest))"

definition defs_register :: "u32 \<Rightarrow> string \<Rightarrow> string \<Rightarrow> def_table \<Rightarrow> int \<times> def_table" where
  "defs_register msk def expansion t =
     (let bin = getBin def in
      case override msk def expansion (bins t bin) of
        Some l \<Rightarrow> (1, t\<lparr>bins := (bins t)(bin := l)\<rparr>)
      | None \<Rightarrow> (0, t\<lparr>bins := (bins t)
          (bin := \<lparr>te_mask = msk, te_def = def, te_expansion = expansion\<rparr> # bins t bin)\<rparr>))"

definition defs_registerLocal :: "string \<Rightarrow> string \<Rightarrow> def_table \<Rightarrow> int \<times> def_table" where
  "defs_registerLocal def expansion t =
     defs_register (context_bit (currentContext t)) def expansion t"

fun find_match :: "u32 \<Rightarrow> string \<Rightarrow> table_entry list \<Rightarrow> string option" where
  "find_match ctxbit def [] = None"
| "find_match ctxbit def (ptr # rest) =
     (if te_mask ptr AND ctxbit \<noteq> 0 \<and> def = te_def ptr then Some (te_expansion ptr)
      else find_match ctxbit def rest)"

definition defs_expand :: "string \<Rightarrow> def_table \<Rightarrow> string option" where
  "defs_expand def t = find_match (context_bit (currentContext t)) def (bins t (getBin def))"

text \<open>
  \<open>defs_expand\<close> hands out the pointer to the text in the record, and overriding the record frees
  that text. Which text that is, by the mask of the record; the record of a name and a mask stays
  the same until \<open>defs_free\<close>.
\<close>

definition defs_match :: "string \<Rightarrow> def_table \<Rightarrow> u32 option" where
  "defs_match def t = map_option te_mask
     (find (\<lambda>ptr. te_mask ptr AND context_bit (currentContext t) \<noteq> 0 \<and> def = te_def ptr) (bins t (getBin def)))"

definition defs_setContext :: "nat \<Rightarrow> def_table \<Rightarrow> def_table" where
  "defs_setContext ctx t =
     (snd (defs_register (context_bit ctx) ''_CUR_CONTEXT'' (decU ctx) t))
       \<lparr>currentContext := ctx\<rparr>"

text \<open>\<open>defs_free\<close> empties every bin and leaves the current context alone.\<close>

definition defs_free :: "def_table \<Rightarrow> def_table" where
  "defs_free t = t\<lparr>bins := (\<lambda>bin. if bin < NUM_BINS then [] else bins t bin)\<rparr>"

text \<open>Every record sits in the bin of its name, no pair occurs twice, the context is valid.\<close>

definition entry_key :: "table_entry \<Rightarrow> u32 \<times> string" where
  "entry_key e = (te_mask e, te_def e)"

definition table_wf :: "def_table \<Rightarrow> bool" where
  "table_wf t \<longleftrightarrow> currentContext t < 32 \<and>
     (\<forall>b. (\<forall>e \<in> set (bins t b). getBin (te_def e) = b) \<and> distinct (map entry_key (bins t b)))"

lemma getBin_bound: "getBin s < NUM_BINS"
  by (simp add: getBin_def NUM_BINS_def)

lemma override_keys:
  "override m d x l = Some l' \<Longrightarrow> map entry_key l' = map entry_key l"
  by (induction l arbitrary: l') (auto simp: entry_key_def split: if_splits)

lemma override_None: "override m d x l = None \<longleftrightarrow> (m, d) \<notin> entry_key ` set l"
  by (induction l) (auto simp: entry_key_def)

lemma keys_defs:
  "map entry_key l' = map entry_key l \<Longrightarrow> (\<forall>e \<in> set l'. P (te_def e)) = (\<forall>e \<in> set l. P (te_def e))"
proof -
  assume "map entry_key l' = map entry_key l"
  then have "map te_def l' = map te_def l"
    by (metis (no_types, lifting) comp_apply entry_key_def list.map_comp map_cong snd_conv)
  then show ?thesis by (metis (no_types, lifting) image_iff list.set_map)
qed

lemma defs_register_wf: "table_wf t \<Longrightarrow> table_wf (snd (defs_register m d x t))"
proof -
  assume wf: "table_wf t"
  show ?thesis
  proof (cases "override m d x (bins t (getBin d))")
    case None
    then have "(m, d) \<notin> set (map entry_key (bins t (getBin d)))"
      by (simp add: override_None)
    with wf None show ?thesis
      by (auto simp: defs_register_def table_wf_def entry_key_def Let_def)
  next
    case (Some l)
    from override_keys [OF Some] have keys: "map entry_key l = map entry_key (bins t (getBin d))" .
    with wf Some show ?thesis
      using keys_defs [OF keys, of "\<lambda>n. getBin n = getBin d"]
      by (auto simp: defs_register_def table_wf_def Let_def)
  qed
qed

lemma defs_register_context [simp]:
  "currentContext (snd (defs_register m d x t)) = currentContext t"
  by (simp add: defs_register_def Let_def split: option.split)

section \<open>The contract\<close>

text \<open>A chain: the (mask, expansion) pairs of one name, the one that wins first.\<close>

type_synonym chain = "(u32 \<times> string) list"

fun chain_override :: "u32 \<Rightarrow> string \<Rightarrow> chain \<Rightarrow> chain" where
  "chain_override m x [] = []"
| "chain_override m x ((m', x') # c) =
     (if m' = m then (m, x) # c else (m', x') # chain_override m x c)"

definition chain_register :: "u32 \<Rightarrow> string \<Rightarrow> chain \<Rightarrow> chain" where
  "chain_register m x c = (if m \<in> fst ` set c then chain_override m x c else (m, x) # c)"

fun chain_expand :: "u32 \<Rightarrow> chain \<Rightarrow> string option" where
  "chain_expand b [] = None"
| "chain_expand b ((m, x) # c) = (if m AND b \<noteq> 0 then Some x else chain_expand b c)"

text \<open>
  A mask is unshadowed in a chain when no pair in front of its own pair shares a context with
  it: the case in which registering it takes effect everywhere it applies.
\<close>

fun unshadowed :: "u32 \<Rightarrow> chain \<Rightarrow> bool" where
  "unshadowed m [] = True"
| "unshadowed m ((m', x) # c) = (m' = m \<or> m \<notin> fst ` set c \<or> (m' AND m = 0 \<and> unshadowed m c))"

lemma chain_override_disjoint:
  "m AND b = 0 \<Longrightarrow> chain_expand b (chain_override m x c) = chain_expand b c"
  by (induction c) auto

lemma chain_override_hits:
  "unshadowed m c \<Longrightarrow> m \<in> fst ` set c \<Longrightarrow> m AND b \<noteq> 0 \<Longrightarrow> m AND b = b
    \<Longrightarrow> chain_expand b (chain_override m x c) = Some x"
proof (induction c)
  case (Cons p c)
  obtain m' x' where p: "p = (m', x')" by force
  show ?case
  proof (cases "m' = m")
    case False
    with Cons.prems p have "m \<in> fst ` set c" "m' AND m = 0" "unshadowed m c" by auto
    moreover from Cons.prems(4) have "m' AND b = (m' AND m) AND b"
      by (metis and.assoc)
    ultimately show ?thesis using Cons p False by auto
  qed (use Cons.prems p in auto)
qed simp

lemma chain_shadowed:
  "\<not> unshadowed m c \<Longrightarrow> m \<noteq> 0 \<Longrightarrow> (\<And>k. k AND m \<noteq> 0 \<Longrightarrow> k AND m = m) \<Longrightarrow>
    m \<in> fst ` set c \<and> chain_expand m (chain_override m x c) = chain_expand m c"
  by (induction c) auto

locale def_store =
  fixes reg :: "u32 \<Rightarrow> string \<Rightarrow> string \<Rightarrow> 's \<Rightarrow> 's"
    and expand :: "string \<Rightarrow> 's \<Rightarrow> string option"
    and ctx :: "'s \<Rightarrow> nat"
    and chain :: "'s \<Rightarrow> string \<Rightarrow> chain"
  assumes chain_reg: "chain (reg m d x s) = (chain s)(d := chain_register m x (chain s d))"
    and ctx_reg: "ctx (reg m d x s) = ctx s"
    and expand_chain: "expand d s = chain_expand (context_bit (ctx s)) (chain s d)"
begin

lemma expand_other_name: "d' \<noteq> d \<Longrightarrow> expand d' (reg m d x s) = expand d' s"
  by (simp add: expand_chain chain_reg ctx_reg)

lemma expand_other_context:
  "m AND context_bit (ctx s) = 0 \<Longrightarrow> expand d' (reg m d x s) = expand d' s"
  by (auto simp: expand_chain chain_reg ctx_reg chain_register_def chain_override_disjoint)

lemma expand_unshadowed:
  assumes "unshadowed m (chain s d)" and "m AND context_bit (ctx s) \<noteq> 0"
    and "m AND context_bit (ctx s) = context_bit (ctx s)"
  shows "expand d (reg m d x s) = Some x"
  using assms
  by (auto simp: expand_chain chain_reg ctx_reg chain_register_def chain_override_hits)

lemma expand_shadowed:
  assumes "\<not> unshadowed (context_bit (ctx s)) (chain s d)" and "context_bit (ctx s) \<noteq> 0"
    and "\<And>k. k AND context_bit (ctx s) \<noteq> 0 \<Longrightarrow> k AND context_bit (ctx s) = context_bit (ctx s)"
  shows "expand d (reg (context_bit (ctx s)) d x s) = expand d s"
  using chain_shadowed [OF assms, of x] by (simp add: expand_chain chain_reg ctx_reg chain_register_def)

end

section \<open>The hash table meets the contract\<close>

definition table_chain :: "def_table \<Rightarrow> string \<Rightarrow> chain" where
  "table_chain t d = map (\<lambda>e. (te_mask e, te_expansion e))
     (filter (\<lambda>e. te_def e = d) (bins t (getBin d)))"

definition table_register :: "u32 \<Rightarrow> string \<Rightarrow> string \<Rightarrow> def_table \<Rightarrow> def_table" where
  "table_register m d x t = snd (defs_register m d x t)"

abbreviation chain_of :: "string \<Rightarrow> table_entry list \<Rightarrow> chain" where
  "chain_of d l \<equiv> map (\<lambda>e. (te_mask e, te_expansion e)) (filter (\<lambda>e. te_def e = d) l)"

lemma override_chain:
  "override m d x l = Some l' \<Longrightarrow>
    chain_of d l' = chain_register m x (chain_of d l) \<and>
    (\<forall>d'. d' \<noteq> d \<longrightarrow> chain_of d' l' = chain_of d' l)"
proof (induction l arbitrary: l')
  case (Cons e l)
  show ?case
  proof (cases "te_mask e = m \<and> d = te_def e")
    case False
    with Cons.prems obtain l'' where l'': "override m d x l = Some l''" "l' = e # l''"
      by auto
    then have "(m, d) \<in> entry_key ` set l"
      using override_None [of m d x l] by auto
    then have "m \<in> fst ` set (chain_of d l)"
      by (force simp: entry_key_def image_iff)
    with Cons.IH [OF l''(1)] l''(2) False show ?thesis
      by (auto simp: chain_register_def)
  qed (use Cons.prems in \<open>auto simp: chain_register_def\<close>)
qed simp

lemma find_match_chain: "find_match b d l = chain_expand b (chain_of d l)"
  by (induction l) auto

lemma table_chain_register:
  "table_chain (table_register m d x t) =
    (table_chain t)(d := chain_register m x (table_chain t d))"
proof
  fix d'
  show "table_chain (table_register m d x t) d' =
    ((table_chain t)(d := chain_register m x (table_chain t d))) d'"
  proof (cases "override m d x (bins t (getBin d))")
    case None
    then have "m \<notin> fst ` set (table_chain t d)"
      unfolding override_None by (force simp: entry_key_def table_chain_def)
    then show ?thesis using None
      by (auto simp: table_register_def defs_register_def table_chain_def chain_register_def Let_def)
  next
    case (Some l)
    from override_chain [OF Some] Some show ?thesis
      by (auto simp: table_register_def defs_register_def table_chain_def Let_def)
  qed
qed

lemma defs_expand_chain:
  "defs_expand d t = chain_expand (context_bit (currentContext t)) (table_chain t d)"
  by (simp add: defs_expand_def table_chain_def find_match_chain)

interpretation dtab: def_store table_register defs_expand currentContext table_chain
  by unfold_locales
    (simp_all add: table_chain_register defs_expand_chain, simp add: table_register_def)

lemmas [store_laws] = dtab.expand_other_name dtab.expand_other_context dtab.expand_unshadowed

section \<open>Properties of the store\<close>

lemma table_wf_register [intro]: "table_wf t \<Longrightarrow> table_wf (table_register m d x t)"
  by (simp add: table_register_def defs_register_wf)

text \<open>
  C17. Every operation of the store keeps its invariant: each record in the bin of its name, no
  (mask, name) pair twice, a valid current context.
\<close>

theorem defs_operations_wf:
  assumes "table_wf t" and "ctx < 32"
  shows "table_wf (snd (defs_register m d x t)) \<and> table_wf (snd (defs_registerLocal d x t)) \<and>
    table_wf (defs_setContext ctx t) \<and> table_wf (defs_free t) \<and> table_wf initial_defs"
proof (intro conjI)
  show "table_wf (snd (defs_register m d x t))"
    using assms(1) by (rule defs_register_wf)
  show "table_wf (snd (defs_registerLocal d x t))"
    using assms(1) by (simp add: defs_registerLocal_def defs_register_wf)
  show "table_wf (defs_setContext ctx t)"
    using defs_register_wf [OF assms(1)] assms(2) by (simp add: defs_setContext_def table_wf_def)
  show "table_wf (defs_free t)" "table_wf initial_defs"
    using assms(1) by (simp_all add: table_wf_def defs_free_def initial_defs_def)
qed

theorem defs_operations_wf_witness:
  "table_wf (defs_setContext 3 initial_defs) \<and>
   table_wf (snd (defs_registerLocal ''A'' ''1'' (defs_setContext 3 initial_defs)))"
proof -
  have init: "table_wf initial_defs" by (simp add: table_wf_def initial_defs_def)
  have "table_wf (defs_setContext 3 initial_defs)"
    using defs_operations_wf [OF init, of 3] by simp
  with defs_operations_wf [OF this, of 3] show ?thesis by simp
qed

text \<open>
  C16. The hash table implements the chain view: registering changes the chain of that name
  only, overwriting the pair of that mask or putting a new one in front, returns 1 exactly when
  it overwrote one, and expanding reads the chain of the name under the current context.
\<close>

theorem defs_register_refines_chain:
  "table_chain (snd (defs_register m d x t)) =
     (table_chain t)(d := chain_register m x (table_chain t d)) \<and>
   fst (defs_register m d x t) = (if m \<in> fst ` set (table_chain t d) then 1 else 0) \<and>
   defs_expand d' t = chain_expand (context_bit (currentContext t)) (table_chain t d')"
proof (intro conjI)
  show "table_chain (snd (defs_register m d x t)) =
      (table_chain t)(d := chain_register m x (table_chain t d))"
    using table_chain_register by (simp add: table_register_def)
  have "(m, d) \<in> entry_key ` set (bins t (getBin d)) \<longleftrightarrow> m \<in> fst ` set (table_chain t d)"
    by (force simp: entry_key_def table_chain_def)
  then show "fst (defs_register m d x t) = (if m \<in> fst ` set (table_chain t d) then 1 else 0)"
    using override_None [of m d x "bins t (getBin d)"]
    by (auto simp: defs_register_def Let_def split: option.split)
  show "defs_expand d' t = chain_expand (context_bit (currentContext t)) (table_chain t d')"
    by (rule defs_expand_chain)
qed

lemma context_bit_nonzero: "c < 32 \<Longrightarrow> context_bit c \<noteq> 0"
  by (auto simp: context_bit_def bit_eq_iff bit_simps)

lemma context_bit_hit: "c < 32 \<Longrightarrow> k AND context_bit c \<noteq> 0 \<Longrightarrow> k AND context_bit c = context_bit c"
proof -
  assume c: "c < 32" and "k AND context_bit c \<noteq> 0"
  have b: "bit (context_bit c) n \<longleftrightarrow> n = c" for n
    using c by (auto simp: context_bit_def bit_push_bit_iff bit_1_iff bit_exp_iff)
  from \<open>k AND context_bit c \<noteq> 0\<close> obtain n where "bit (k AND context_bit c) n" by (auto simp: bit_eq_iff)
  then have "bit k c" by (auto simp: bit_and_iff b)
  then show "k AND context_bit c = context_bit c" by (intro bit_word_eqI) (auto simp: bit_and_iff b)
qed

lemma context_bit_disjoint: "c < 32 \<Longrightarrow> c' \<noteq> c \<Longrightarrow> context_bit c AND context_bit c' = 0"
  by (auto simp: context_bit_def bit_eq_iff bit_simps)

text \<open>
  C18. A definition registered for the current context is what its name expands to from then on,
  as long as no older record of that context is shadowed by a newer one with a wider mask; when
  one is, the name keeps the expansion it had, and the new text is never seen. Other names keep
  their expansion, and so does every name in any other context.
\<close>

theorem defs_registerLocal_visible:
  assumes "table_wf t"
  shows "defs_expand d (snd (defs_registerLocal d x t)) =
      (if unshadowed (context_bit (currentContext t)) (table_chain t d) then Some x else defs_expand d t) \<and>
    (d' \<noteq> d \<longrightarrow> defs_expand d' (snd (defs_registerLocal d x t)) = defs_expand d' t) \<and>
    (c \<noteq> currentContext t \<longrightarrow> defs_expand d' ((snd (defs_registerLocal d x t))\<lparr>currentContext := c\<rparr>)
       = defs_expand d' (t\<lparr>currentContext := c\<rparr>))"
proof -
  let ?m = "context_bit (currentContext t)"
  from assms(1) have c: "currentContext t < 32" by (simp add: table_wf_def)
  have reg: "snd (defs_registerLocal d x t) = table_register ?m d x t"
    by (simp add: defs_registerLocal_def table_register_def)
  have ctx: "(table_register ?m d x t)\<lparr>currentContext := c\<rparr> =
      table_register ?m d x (t\<lparr>currentContext := c\<rparr>)"
    by (simp add: table_register_def defs_register_def Let_def split: option.split)
  show ?thesis
    using dtab.expand_unshadowed [of "context_bit (currentContext t)" t d x] dtab.expand_shadowed [of t d x]
      context_bit_nonzero [OF c] context_bit_hit [OF c] context_bit_disjoint [OF c, of c]
    by (simp add: reg ctx store_laws)
qed

theorem defs_registerLocal_visible_witness:
  "defs_expand ''A'' (snd (defs_registerLocal ''A'' ''1'' initial_defs)) = Some ''1'' \<and>
   defs_expand ''B'' (snd (defs_registerLocal ''A'' ''1'' initial_defs)) = None \<and>
   defs_expand ''A'' ((snd (defs_registerLocal ''A'' ''1'' initial_defs))\<lparr>currentContext := 2\<rparr>) = None"
proof -
  have wf: "table_wf initial_defs"
    and un: "unshadowed (context_bit (currentContext initial_defs)) (table_chain initial_defs ''A'')"
    by (simp_all add: table_wf_def initial_defs_def table_chain_def)
  have none: "defs_expand d (initial_defs\<lparr>currentContext := c\<rparr>) = None" "defs_expand d initial_defs = None"
    for d c by (simp_all add: defs_expand_def initial_defs_def)
  show ?thesis
    using defs_registerLocal_visible [OF wf, of "''A''" "''1''" "''B''"]
      defs_registerLocal_visible [OF wf, of "''A''" "''1''" "''A''" 2]
    by (simp add: none un) (simp add: initial_defs_def)
qed

text \<open>
  The shadowed case: a definition of context 0 followed by one of all contexts, as in a definition
  file, and then a new value set in context 0, which is not seen.
\<close>

lemma shadowed_definition_stays:
  "let t = table_register 0xFFFFFFFF ''X'' ''2'' (table_register 1 ''X'' ''1'' initial_defs)
   in defs_expand ''X'' t = Some ''2'' \<and> defs_expand ''X'' (snd (defs_registerLocal ''X'' ''3'' t)) = Some ''2''"
proof -
  define t where "t = table_register 0xFFFFFFFF ''X'' ''2'' (table_register 1 ''X'' ''1'' initial_defs)"
  have c: "table_chain t ''X'' = [(0xFFFFFFFF, ''2''), (1, ''1'')]"
    unfolding t_def by (simp add: table_chain_register chain_register_def) (simp add: table_chain_def initial_defs_def)
  have b: "currentContext t = 0" by (simp add: t_def table_register_def initial_defs_def)
  have "table_wf t" unfolding t_def by (intro table_wf_register) (simp add: table_wf_def initial_defs_def)
  from defs_expand_chain [of "''X''" t] c b have x: "defs_expand ''X'' t = Some ''2''" by (simp add: context_bit_def)
  have "snd (defs_registerLocal ''X'' ''3'' t) = table_register 1 ''X'' ''3'' t"
    by (simp add: defs_registerLocal_def table_register_def b context_bit_def)
  moreover have "table_chain (table_register 1 ''X'' ''3'' t) ''X'' = [(0xFFFFFFFF, ''2''), (1, ''3'')]"
    by (simp add: table_chain_register c chain_register_def)
  ultimately have "defs_expand ''X'' (snd (defs_registerLocal ''X'' ''3'' t)) = Some ''2''"
    using defs_expand_chain [of "''X''" "table_register 1 ''X'' ''3'' t"] b by (simp add: context_bit_def table_register_def)
  with x show ?thesis by (simp add: Let_def t_def)
qed

end
