(* ===== verification/Rvsrv_Client.thy ===== *)
theory Rvsrv_Client
  imports Definitions
begin

text \<open>
  The client side of the debug link (\<open>rvd/rvsrvInterface.c\<close>): a command is one line of text
  up to a semicolon, the reply is read byte by byte into a buffer of 8448 characters, split at
  commas, and checked token by token.

  The socket and the server behind it are a parameter \<open>net\<close>: given the command text and the
  state of the world it returns the bytes the reads deliver afterwards, or \<open>None\<close> when
  connecting, writing or reading fails; a stream without a semicolon is a connection that was
  closed too early. Error messages on stderr are not part of the model. A data byte whose
  characters \<open>sscanf\<close> does not accept is indeterminate (\<open>None\<close>): the code prints a message
  and goes on with whatever \<open>malloc\<close> returned.
\<close>

type_synonym 'w net = "string \<Rightarrow> 'w \<Rightarrow> string option \<times> 'w"

section \<open>Requests\<close>

definition hex_bytes :: "u8 list \<Rightarrow> string" where
  "hex_bytes bs = concat (map (\<lambda>b. hexU 2 (unat b)) bs)"

definition read_command :: "u32 \<Rightarrow> nat \<Rightarrow> string" where
  "read_command address sz =
     ''Read,'' @ hexU 8 (unat address) @ '','' @ decU sz @ '';''"

definition write_command :: "u32 \<Rightarrow> nat \<Rightarrow> string \<Rightarrow> string" where
  "write_command address sz data =
     ''Write,'' @ hexU 8 (unat address) @ '','' @ decU sz @ '','' @ data @ '';''"

section \<open>Receiving and checking a reply\<close>

definition MAX_PACKET_LEN :: nat where
  "MAX_PACKET_LEN = 8448"

text \<open>The characters kept of a reply; the others are dropped.\<close>

definition packet_char :: "char \<Rightarrow> bool" where
  "packet_char d \<longleftrightarrow> d = CHR '','' \<or> isalpha d \<or> isdigit d"

text \<open>The read loop of \<open>transfer\<close>: \<open>remain\<close> free places, the reply so far, the bytes to come.\<close>

fun receive_reply :: "nat \<Rightarrow> string \<Rightarrow> string \<Rightarrow> string option" where
  "receive_reply remain buf [] = None"
| "receive_reply remain buf (d # ds) =
     (if remain = 0 then (if d = CHR '';'' then None else receive_reply remain buf ds)
      else if d = CHR '';'' then Some buf
      else if packet_char d then receive_reply (remain - 1) (buf @ [d]) ds
      else receive_reply remain buf ds)"

text \<open>\<open>strtok\<close> with one delimiter: the next token and what is left after its delimiter.\<close>

definition strtok :: "char \<Rightarrow> string \<Rightarrow> (string \<times> string) option" where
  "strtok delim s =
     (let s' = dropWhile (\<lambda>c. c = delim) s in
      if s' = [] then None
      else Some (takeWhile (\<lambda>c. c \<noteq> delim) s', tl (dropWhile (\<lambda>c. c \<noteq> delim) s')))"

definition command_name :: "string \<Rightarrow> string" where
  "command_name cmd = take 255 (takeWhile (\<lambda>c. c \<noteq> CHR '','' \<and> c \<noteq> CHR '';'') cmd)"

text \<open>
  The checks on the first two tokens; the result is the text of the parameters (the last
  \<open>strtok(0, ";")\<close> returns it whole, since a reply holds no semicolon).
\<close>

definition check_reply :: "string \<Rightarrow> string \<Rightarrow> string option" where
  "check_reply name reply =
     (case strtok CHR '','' reply of None \<Rightarrow> None
      | Some (status, r1) \<Rightarrow>
          if status \<noteq> ''OK'' \<and> status \<noteq> ''Error'' then None
          else (case strtok CHR '','' r1 of None \<Rightarrow> None
            | Some (cmd, r2) \<Rightarrow>
                if cmd \<noteq> name then None
                else if status = ''Error'' then None
                else Some r2))"

definition transfer :: "'w net \<Rightarrow> string \<Rightarrow> 'w \<Rightarrow> string option \<times> 'w" where
  "transfer net cmd w =
     (case net cmd w of
        (None, w') \<Rightarrow> (None, w')
      | (Some stream, w') \<Rightarrow>
          (case receive_reply MAX_PACKET_LEN [] stream of
             None \<Rightarrow> (None, w')
           | Some reply \<Rightarrow> (check_reply (command_name cmd) reply, w')))"

definition rvsrv_stopServer :: "'w net \<Rightarrow> 'w \<Rightarrow> int \<times> 'w" where
  "rvsrv_stopServer net w =
     (case transfer net ''Stop;'' w of (None, w') \<Rightarrow> (-1, w') | (Some _, w') \<Rightarrow> (0, w'))"

section \<open>Read and write replies\<close>

text \<open>
  \<open>sscanf(ptr, "%2hhX", bufPtr)\<close>: one or two hexadecimal digits. A pair that starts with
  another character, or the bare prefix \<open>0x\<close>, stores nothing the code could rely on.
\<close>

definition scan_byte :: "char \<Rightarrow> char \<Rightarrow> u8 option" where
  "scan_byte a b =
     (if \<not> isxdigit a then None
      else if isxdigit b then Some (word_of_nat (16 * hexval a + hexval b))
      else if a = CHR ''0'' \<and> (b = CHR ''x'' \<or> b = CHR ''X'') then None
      else Some (word_of_nat (hexval a)))"

fun scan_bytes :: "string \<Rightarrow> u8 option list" where
  "scan_bytes (a # b # s) = scan_byte a b # scan_bytes s"
| "scan_bytes _ = []"

text \<open>
  The common part of \<open>executeReadWrite\<close>: the fault flag and the data (empty for a write
  without a fault), \<open>None\<close> for the \<open>-1\<close> returns.
\<close>

definition parse_result :: "bool \<Rightarrow> string \<Rightarrow> (bool \<times> u8 option list) option" where
  "parse_result isWrite params =
     (case strtok CHR '','' params of None \<Rightarrow> None
      | Some (t1, r1) \<Rightarrow>
          if t1 \<noteq> ''OK'' \<and> t1 \<noteq> ''Fault'' then None
          else (let fault = (t1 = ''Fault'') in
            case strtok CHR '','' r1 of None \<Rightarrow> None
            | Some (_, r2) \<Rightarrow>
              (case strtok CHR '','' r2 of None \<Rightarrow> None
               | Some (_, r3) \<Rightarrow>
                 (let t4 = strtok CHR '','' r3 in
                  if \<not> isWrite \<or> fault
                  then (case t4 of None \<Rightarrow> None
                        | Some (data, r4) \<Rightarrow>
                            if odd (length data) then None
                            else if strtok CHR '','' r4 \<noteq> None then None
                            else Some (fault, scan_bytes data))
                  else if t4 \<noteq> None then None
                  else Some (fault, [])))))"

definition executeReadWrite ::
  "'w net \<Rightarrow> bool \<Rightarrow> string \<Rightarrow> 'w \<Rightarrow> (bool \<times> u8 option list) option \<times> 'w" where
  "executeReadWrite net isWrite cmd w =
     (case transfer net cmd w of
        (None, w') \<Rightarrow> (None, w')
      | (Some params, w') \<Rightarrow> (parse_result isWrite params, w'))"

section \<open>The four accesses\<close>

text \<open>
  \<open>BusOk\<close> is the return value 1, \<open>BusFault\<close> 0 with the fault code, \<open>BusFatal\<close> is \<open>-1\<close>;
  \<open>BusIndeterminate\<close> is a result that depends on bytes that were never stored.
\<close>

datatype 'a bus_result = BusOk 'a | BusFault u32 | BusFatal | BusIndeterminate

text \<open>Assembling bytes most significant first: \<open>value <<= 8; value |= byte\<close>.\<close>

definition be_step :: "u32 option \<Rightarrow> u8 option \<Rightarrow> u32 option" where
  "be_step acc b = (case (acc, b) of (Some v, Some x) \<Rightarrow> Some (push_bit 8 v OR ucast x) | _ \<Rightarrow> None)"

definition be_value :: "u8 option list \<Rightarrow> u32 option" where
  "be_value bs = foldl be_step (Some 0) bs"

definition bus_value :: "(u32 \<Rightarrow> 'a bus_result) \<Rightarrow> u8 option list \<Rightarrow> 'a bus_result" where
  "bus_value k bs = (case be_value bs of None \<Rightarrow> BusIndeterminate | Some v \<Rightarrow> k v)"

definition rvsrv_readSingle :: "'w net \<Rightarrow> u32 \<Rightarrow> nat \<Rightarrow> 'w \<Rightarrow> u32 bus_result \<times> 'w" where
  "rvsrv_readSingle net address sz w =
     (if sz \<noteq> 1 \<and> sz \<noteq> 2 \<and> sz \<noteq> 4 then (BusFatal, w)
      else case executeReadWrite net False (read_command address sz) w of
        (None, w') \<Rightarrow> (BusFatal, w')
      | (Some (fault, buf), w') \<Rightarrow>
          if length buf \<noteq> (if fault then 4 else sz) then (BusFatal, w')
          else (bus_value (if fault then BusFault else BusOk) buf, w'))"

definition rvsrv_readBulk :: "'w net \<Rightarrow> u32 \<Rightarrow> nat \<Rightarrow> 'w \<Rightarrow> u8 option list bus_result \<times> 'w" where
  "rvsrv_readBulk net address sz w =
     (if sz > 4096 then (BusFatal, w)
      else case executeReadWrite net False (read_command address sz) w of
        (None, w') \<Rightarrow> (BusFatal, w')
      | (Some (fault, buf), w') \<Rightarrow>
          if length buf \<noteq> (if fault then 4 else sz) then (BusFatal, w')
          else if fault then (bus_value BusFault buf, w')
          else (BusOk buf, w'))"

text \<open>The end of both write functions.\<close>

definition finish_write ::
  "(bool \<times> u8 option list) option \<times> 'w \<Rightarrow> unit bus_result \<times> 'w" where
  "finish_write res =
     (case res of
        (None, w') \<Rightarrow> (BusFatal, w')
      | (Some (fault, buf), w') \<Rightarrow>
          if length buf \<noteq> (if fault then 4 else 0) then (BusFatal, w')
          else if fault then (bus_value BusFault buf, w')
          else (BusOk (), w'))"

definition rvsrv_writeSingle :: "'w net \<Rightarrow> u32 \<Rightarrow> u32 \<Rightarrow> nat \<Rightarrow> 'w \<Rightarrow> unit bus_result \<times> 'w" where
  "rvsrv_writeSingle net address value sz w =
     (if sz = 1 then
        finish_write (executeReadWrite net True
          (write_command address sz (hexU 2 (unat (value AND 0xFF)))) w)
      else if sz = 2 then
        finish_write (executeReadWrite net True
          (write_command address sz (hexU 4 (unat (value AND 0xFFFF)))) w)
      else if sz = 4 then
        finish_write (executeReadWrite net True
          (write_command address sz (hexU 8 (unat value))) w)
      else (BusFatal, w))"

text \<open>The size is the length of the buffer handed over.\<close>

definition rvsrv_writeBulk :: "'w net \<Rightarrow> u32 \<Rightarrow> u8 list \<Rightarrow> 'w \<Rightarrow> unit bus_result \<times> 'w" where
  "rvsrv_writeBulk net address buffer w =
     (if length buffer > 4096 then (BusFatal, w)
      else finish_write (executeReadWrite net True
        (write_command address (length buffer) (hex_bytes buffer)) w))"

end
