(* ===== verification/Memory_Link.thy ===== *)
theory Memory_Link
  imports Rvsrv_Client
begin

text \<open>
  What rvd relies on from the far end of the link, as the locale \<open>memory_link\<close>: read and write
  requests inside an extent are answered with the reply lines of the protocol and act on a byte
  memory. Inside the locale the accesses of \<open>rvsrvInterface.c\<close> are shown to read and write that
  memory, big endian. The server of this repository is the interpretation (theory
  \<open>Rvsrv_Server\<close>).
\<close>

section \<open>Tokens, digits and bytes\<close>

lemma strtok_token:
  "tok \<noteq> [] \<Longrightarrow> d \<notin> set tok \<Longrightarrow> strtok d (tok @ d # rest) = Some (tok, rest)"
proof -
  assume tok: "tok \<noteq> []" "d \<notin> set tok"
  then have "dropWhile (\<lambda>c. c = d) (tok @ d # rest) = tok @ d # rest"
    by (cases tok) auto
  moreover from tok(2) have "takeWhile (\<lambda>c. c \<noteq> d) (tok @ d # rest) = tok"
    by (induction tok) auto
  moreover from tok(2) have "dropWhile (\<lambda>c. c \<noteq> d) (tok @ d # rest) = d # rest"
    by (induction tok) auto
  ultimately show ?thesis using tok(1) by (simp add: strtok_def)
qed

lemma strtok_last: "tok \<noteq> [] \<Longrightarrow> d \<notin> set tok \<Longrightarrow> strtok d tok = Some (tok, [])"
proof -
  assume tok: "tok \<noteq> []" "d \<notin> set tok"
  then have "dropWhile (\<lambda>c. c = d) tok = tok" by (cases tok) auto
  moreover from tok(2) have "takeWhile (\<lambda>c. c \<noteq> d) tok = tok"
    by (auto simp: takeWhile_eq_all_conv)
  moreover from tok(2) have "tl (dropWhile (\<lambda>c. c \<noteq> d) tok) = []"
    by (metis (mono_tags, lifting) dropWhile_eq_Nil_conv list.sel(2))
  ultimately show ?thesis using tok(1) by (simp add: strtok_def)
qed

lemma strtok_Nil [simp]: "strtok d [] = None"
  by (simp add: strtok_def)

lemma receive_reply_filter:
  assumes "CHR '';'' \<notin> set s" and "length (filter packet_char s) < n"
  shows "receive_reply n buf (s @ CHR '';'' # t) = Some (buf @ filter packet_char s)"
  using assms
proof (induction s arbitrary: n buf)
  case (Cons d s)
  then show ?case by (cases "packet_char d") auto
qed auto

lemma scan_byte_hexU: "scan_byte (hexdigit (unat b div 16 mod 16)) (hexdigit (unat b mod 16)) = Some (b :: u8)"
proof -
  have "unat b < 256" using unsigned_less [of b, where 'a = nat] by simp
  then have "16 * (unat b div 16 mod 16) + unat b mod 16 = unat b" by simp
  then show ?thesis by (simp add: scan_byte_def hexdigit_props)
qed

lemma hexU_2: "hexU 2 v = [hexdigit (v div 16 mod 16), hexdigit (v mod 16)]"
  by (simp add: numeral_2_eq_2)

lemma hex_bytes_simps [simp]:
  "hex_bytes [] = []" "hex_bytes (b # bs) = hexU 2 (unat b) @ hex_bytes bs"
  "hex_bytes (xs @ ys) = hex_bytes xs @ hex_bytes ys"
  by (simp_all add: hex_bytes_def)

lemma scan_bytes_hex_bytes: "scan_bytes (hex_bytes bs) = map Some bs"
  by (induction bs) (simp_all add: hexU_2 scan_byte_hexU)

lemma length_hex_bytes [simp]: "length (hex_bytes bs) = 2 * length bs"
  by (induction bs) auto

lemma hex_bytes_digits: "c \<in> set (hex_bytes bs) \<Longrightarrow> \<exists>d < 16. c = hexdigit d"
  by (induction bs) (auto dest: set_hexU)

lemma hexdigit_packet_char: "d < 16 \<Longrightarrow> packet_char (hexdigit d)"
  using hexdigit_props(2) [of d] by (auto simp: packet_char_def ctype_defs)

lemma hexU_packet:
  "\<forall>c \<in> set (hexU n v). packet_char c \<and> c \<noteq> CHR '','' \<and> c \<noteq> CHR '';''"
  using set_hexU hexdigit_packet_char hexdigit_props by metis

lemma decU_packet:
  "\<forall>c \<in> set (decU v). packet_char c \<and> c \<noteq> CHR '','' \<and> c \<noteq> CHR '';''"
  using decU_digits by (auto simp: packet_char_def)

lemma hex_bytes_packet:
  "\<forall>c \<in> set (hex_bytes bs). packet_char c \<and> c \<noteq> CHR '','' \<and> c \<noteq> CHR '';''"
  using hex_bytes_digits hexdigit_packet_char hexdigit_props by metis

text \<open>The bytes of a value, most significant first, and their reassembly.\<close>

fun word_bytes :: "nat \<Rightarrow> u32 \<Rightarrow> u8 list" where
  "word_bytes 0 v = []"
| "word_bytes (Suc n) v = word_bytes n (drop_bit 8 v) @ [ucast v]"

definition be_word :: "u8 list \<Rightarrow> u32" where
  "be_word bs = foldl (\<lambda>a b. push_bit 8 a OR ucast b) 0 bs"

lemma length_word_bytes [simp]: "length (word_bytes n v) = n"
  by (induction n arbitrary: v) auto

lemma be_value_map: "be_value (map Some bs) = Some (be_word bs)"
proof -
  have "foldl be_step (Some a) (map Some bs) = Some (foldl (\<lambda>a b. push_bit 8 a OR ucast b) a bs)" for a
    by (induction bs arbitrary: a) (auto simp: be_step_def)
  then show ?thesis by (simp add: be_value_def be_word_def)
qed

lemma be_word_bytes: "be_word (word_bytes n v) = take_bit (8 * n) v"
proof (induction n arbitrary: v)
  case (Suc n)
  have "push_bit 8 (take_bit (8 * n) (drop_bit 8 v)) OR ucast (ucast v :: u8) = take_bit (8 * Suc n) v"
    by (rule bit_word_eqI) (auto simp: bit_simps)
  with Suc.IH [of "drop_bit 8 v"] show ?case by (simp add: be_word_def)
qed (simp add: be_word_def)

lemma be_word_word_bytes: "be_word (word_bytes 4 v) = v"
  using be_word_bytes [of 4 v] by (simp add: take_bit_word_eq_self)

lemma word_bytes_be_word: "length d = 4 \<Longrightarrow> word_bytes 4 (be_word d) = d"
proof -
  assume "length d = 4"
  then obtain a b c e where d: "d = [a, b, c, e]" by (auto simp: numeral_eq_Suc length_Suc_conv)
  have "ucast (be_word d) = e" "ucast (drop_bit 8 (be_word d)) = c" "ucast (drop_bit 8 (drop_bit 8 (be_word d))) = b"
    "ucast (drop_bit 8 (drop_bit 8 (drop_bit 8 (be_word d)))) = a"
    by (rule bit_word_eqI; auto simp: d be_word_def bit_simps dest: bit_imp_le_length)+
  then show ?thesis by (simp add: d eval_nat_numeral)
qed

lemma hexU_word_bytes: "hexU (2 * n) (unat v) = hex_bytes (word_bytes n v)"
proof (induction n arbitrary: v)
  case (Suc n)
  have "unat (ucast v :: u8) = unat v mod 256" by (simp add: unsigned_ucast_eq take_bit_eq_mod)
  moreover have "unat v div 16 div 16 = unat (drop_bit 8 v)"
    by (simp add: drop_bit_eq_div unat_div flip: div_mult2_eq)
  moreover have "unat v mod 256 div 16 mod 16 = unat v div 16 mod 16" "unat v mod 256 mod 16 = unat v mod 16"
    using mod_mult2_eq [of "unat v" 16 16] by (simp_all add: mod_mod_cancel)
  ultimately show ?case using Suc.IH [of "drop_bit 8 v"] by (simp add: hexU_2)
qed simp

lemma word_bytes_mask:
  "word_bytes 1 (v AND 0xFF) = word_bytes 1 v" "word_bytes 2 (v AND 0xFFFF) = word_bytes 2 v"
proof -
  have m: "(0xFF :: u32) = mask 8" "(0xFFFF :: u32) = mask 16"
    by (simp_all add: mask_eq_exp_minus_1)
  have "ucast (take_bit 8 v) = (ucast v :: u8)"
    and "ucast (take_bit 16 v) = (ucast v :: u8)"
    and "ucast (drop_bit 8 (take_bit 16 v)) = (ucast (drop_bit 8 v) :: u8)"
    by (auto intro!: bit_word_eqI simp: bit_simps)
  then show "word_bytes 1 (v AND 0xFF) = word_bytes 1 v"
    "word_bytes 2 (v AND 0xFFFF) = word_bytes 2 v"
    unfolding m by (simp_all add: numeral_2_eq_2 flip: take_bit_eq_mask)
qed

section \<open>The contract of the far end\<close>

definition read_reply :: "u32 \<Rightarrow> u8 list \<Rightarrow> string" where
  "read_reply a bs = ''OK, Read, OK, '' @ hexU 8 (unat a) @ '', '' @ decU (length bs) @ '', '' @
     hex_bytes bs @ '';\<newline>''"

definition write_reply :: "u32 \<Rightarrow> nat \<Rightarrow> string" where
  "write_reply a n = ''OK, Write, OK, '' @ hexU 8 (unat a) @ '', '' @ decU n @ '';\<newline>''"

definition store_bytes :: "(nat \<Rightarrow> u8) \<Rightarrow> nat \<Rightarrow> u8 list \<Rightarrow> nat \<Rightarrow> u8" where
  "store_bytes m a bs = (\<lambda>i. if a \<le> i \<and> i < a + length bs then bs ! (i - a) else m i)"

definition load_bytes :: "(nat \<Rightarrow> u8) \<Rightarrow> nat \<Rightarrow> nat \<Rightarrow> u8 list" where
  "load_bytes m a n = map m [a..<a + n]"

lemma length_load_bytes [simp]: "length (load_bytes m a n) = n"
  by (simp add: load_bytes_def)

lemma load_store_same: "load_bytes (store_bytes m a bs) a (length bs) = bs"
  by (rule nth_equalityI) (auto simp: load_bytes_def store_bytes_def)

lemma load_store_disjoint:
  "a + n \<le> b \<or> b + length bs \<le> a \<Longrightarrow> load_bytes (store_bytes m b bs) a n = load_bytes m a n"
  by (auto simp: load_bytes_def store_bytes_def)

locale memory_link =
  fixes net :: "'w net"
    and cells :: "'w \<Rightarrow> nat \<Rightarrow> u8"
    and extent :: "'w \<Rightarrow> nat"
    and ready :: "'w \<Rightarrow> bool"
  assumes net_read: "\<lbrakk>ready w; 0 < n; n \<le> 4096; unat a + n \<le> extent w\<rbrakk> \<Longrightarrow>
      \<exists>w'. net (read_command a n) w = (Some (read_reply a (load_bytes (cells w) (unat a) n)), w') \<and>
        ready w' \<and> extent w' = extent w \<and> cells w' = cells w"
    and net_write: "\<lbrakk>ready w; 0 < length bs; length bs \<le> 4096; unat a + length bs \<le> extent w\<rbrakk> \<Longrightarrow>
      \<exists>w'. net (write_command a (length bs) (hex_bytes bs)) w = (Some (write_reply a (length bs)), w') \<and>
        ready w' \<and> extent w' = extent w \<and> cells w' = store_bytes (cells w) (unat a) bs"
begin

end

section \<open>How the client reads those replies\<close>

lemma packet_char_simps [simp]:
  "packet_char (CHR '','')" "\<not> packet_char (CHR '' '')" "\<not> packet_char (CHR '';'')"
  "packet_char (CHR ''O'')" "packet_char (CHR ''K'')" "packet_char (CHR ''R'')"
  "packet_char (CHR ''W'')" "packet_char (CHR ''r'')" "packet_char (CHR ''i'')"
  "packet_char (CHR ''t'')" "packet_char (CHR ''e'')" "packet_char (CHR ''a'')" "packet_char (CHR ''d'')"
  by (simp_all add: packet_char_def ctype_defs)

lemma filter_packet [simp]:
  "filter packet_char (hexU n v) = hexU n v"
  "filter packet_char (decU m) = decU m"
  "filter packet_char (hex_bytes bs) = hex_bytes bs"
  using hexU_packet decU_packet hex_bytes_packet by (simp_all add: filter_id_conv)

lemma no_delimiters [simp]:
  "CHR '','' \<notin> set (hexU n v)" "CHR '';'' \<notin> set (hexU n v)"
  "CHR '','' \<notin> set (decU v)" "CHR '';'' \<notin> set (decU v)"
  "CHR '','' \<notin> set (hex_bytes bs)" "CHR '';'' \<notin> set (hex_bytes bs)"
  by (meson hexU_packet decU_packet hex_bytes_packet)+

lemma command_name_simps [simp]:
  "command_name (read_command a n) = ''Read''"
  "command_name (write_command a n d) = ''Write''"
  by (simp_all add: command_name_def read_command_def write_command_def)

lemma receive_read_reply:
  assumes "length bs \<le> 4096"
  shows "receive_reply MAX_PACKET_LEN [] (read_reply a bs) =
    Some (''OK,Read,OK,'' @ hexU 8 (unat a) @ '','' @ decU (length bs) @ '','' @ hex_bytes bs)"
proof -
  let ?s = "''OK, Read, OK, '' @ hexU 8 (unat a) @ '', '' @ decU (length bs) @ '', '' @ hex_bytes bs"
  have no_semi: "CHR '';'' \<notin> set ?s"
    by simp
  have "length (decU (length bs)) \<le> 4"
    using assms length_decU [of "length bs" 4] by simp
  with assms have "length (filter packet_char ?s) < MAX_PACKET_LEN"
    by (simp add: MAX_PACKET_LEN_def)
  from receive_reply_filter [OF no_semi this, of "[]" "''\<newline>''"] show ?thesis
    by (simp add: read_reply_def)
qed

lemma receive_write_reply:
  assumes "n \<le> 4096"
  shows "receive_reply MAX_PACKET_LEN [] (write_reply a n) =
    Some (''OK,Write,OK,'' @ hexU 8 (unat a) @ '','' @ decU n)"
proof -
  let ?s = "''OK, Write, OK, '' @ hexU 8 (unat a) @ '', '' @ decU n"
  have no_semi: "CHR '';'' \<notin> set ?s"
    by simp
  have "length (decU n) \<le> 4"
    using assms length_decU [of n 4] by simp
  then have "length (filter packet_char ?s) < MAX_PACKET_LEN"
    by (simp add: MAX_PACKET_LEN_def)
  from receive_reply_filter [OF no_semi this, of "[]" "''\<newline>''"] show ?thesis
    by (simp add: write_reply_def)
qed

lemma check_reply_OK:
  assumes "name \<noteq> []" and "CHR '','' \<notin> set name"
  shows "check_reply name (''OK,'' @ name @ CHR '','' # rest) = Some rest"
proof -
  have "strtok CHR '','' (''OK'' @ CHR '','' # name @ CHR '','' # rest) = Some (''OK'', name @ CHR '','' # rest)"
    by (rule strtok_token) auto
  with strtok_token [OF assms] show ?thesis by (simp add: check_reply_def)
qed

text \<open>The tokens of a parameter list \<open>OK,address,count[,data]\<close>.\<close>

lemma hexU_8_nonempty [simp]: "hexU 8 v \<noteq> []"
  using length_hexU [of 8 v] by (metis list.size(3) zero_neq_numeral)

lemma params_tokens:
  "strtok CHR '','' (''OK,'' @ r) = Some (''OK'', r)"
  "strtok CHR '','' (hexU 8 v @ CHR '','' # r) = Some (hexU 8 v, r)"
  "strtok CHR '','' (decU n @ CHR '','' # r) = Some (decU n, r)"
  "strtok CHR '','' (decU n) = Some (decU n, [])"
  "bs \<noteq> [] \<Longrightarrow> strtok CHR '','' (hex_bytes bs) = Some (hex_bytes bs, [])"
proof -
  show "strtok CHR '','' (''OK,'' @ r) = Some (''OK'', r)"
    using strtok_token [of "''OK''" "CHR '',''" r] by simp
  show "strtok CHR '','' (hexU 8 v @ CHR '','' # r) = Some (hexU 8 v, r)"
    "strtok CHR '','' (decU n @ CHR '','' # r) = Some (decU n, r)"
    by (rule strtok_token; simp)+
  show "strtok CHR '','' (decU n) = Some (decU n, [])"
    by (rule strtok_last; simp)
  assume "bs \<noteq> []"
  then have "hex_bytes bs \<noteq> []" using length_hex_bytes [of bs] by force
  then show "strtok CHR '','' (hex_bytes bs) = Some (hex_bytes bs, [])"
    by (rule strtok_last) simp
qed

lemma execute_read:
  assumes "net (read_command a (length bs)) w = (Some (read_reply a bs), w')"
    and "bs \<noteq> []" and "length bs \<le> 4096"
  shows "executeReadWrite net False (read_command a (length bs)) w =
    (Some (False, map Some bs), w')"
proof -
  have "transfer net (read_command a (length bs)) w =
      (Some (''OK,'' @ hexU 8 (unat a) @ '','' @ decU (length bs) @ '','' @ hex_bytes bs), w')"
    using receive_read_reply [OF assms(3)]
      check_reply_OK [of "''Read''" "''OK,'' @ hexU 8 (unat a) @ '','' @ decU (length bs) @ '','' @ hex_bytes bs"]
    by (simp add: transfer_def assms(1))
  then show ?thesis
    using assms(2) params_tokens(1) [of "hexU 8 (unat a) @ '','' @ decU (length bs) @ '','' @ hex_bytes bs"]
    by (simp add: executeReadWrite_def parse_result_def params_tokens scan_bytes_hex_bytes)
qed

lemma execute_write:
  assumes "net cmd w = (Some (write_reply a n), w')" and "command_name cmd = ''Write''" and "n \<le> 4096"
  shows "executeReadWrite net True cmd w = (Some (False, []), w')"
proof -
  have "transfer net cmd w = (Some (''OK,'' @ hexU 8 (unat a) @ '','' @ decU n), w')"
    using receive_write_reply [OF assms(3)] assms(2)
      check_reply_OK [of "''Write''" "''OK,'' @ hexU 8 (unat a) @ '','' @ decU n"]
    by (simp add: transfer_def assms(1))
  then show ?thesis
    using params_tokens(1) [of "hexU 8 (unat a) @ '','' @ decU n"]
    by (simp add: executeReadWrite_def parse_result_def params_tokens)
qed

section \<open>The accesses of the client, over the contract\<close>

lemma single_data:
  "hexU 2 (unat (v AND 0xFF)) = hex_bytes (word_bytes 1 v)"
  "hexU 4 (unat (v AND 0xFFFF)) = hex_bytes (word_bytes 2 v)"
  "hexU 8 (unat v) = hex_bytes (word_bytes 4 v)"
  using hexU_word_bytes [of 1 "v AND 0xFF"] hexU_word_bytes [of 2 "v AND 0xFFFF"]
    hexU_word_bytes [of 4 v] word_bytes_mask [of v] by simp_all

text \<open>An access of a width the interface knows, inside the extent.\<close>

definition valid_access :: "u32 \<Rightarrow> nat \<Rightarrow> nat \<Rightarrow> bool" where
  "valid_access a n len \<longleftrightarrow> (n = 1 \<or> n = 2 \<or> n = 4) \<and> unat a + n \<le> len"

context memory_link
begin

lemma readBulk_ok:
  assumes "ready w" "0 < n" "n \<le> 4096" "unat a + n \<le> extent w"
  shows "\<exists>w'. rvsrv_readBulk net a n w =
      (BusOk (map Some (load_bytes (cells w) (unat a) n)), w') \<and>
    ready w' \<and> extent w' = extent w \<and> cells w' = cells w"
proof -
  let ?bs = "load_bytes (cells w) (unat a) n"
  from net_read [OF assms] obtain w' where w': "net (read_command a n) w = (Some (read_reply a ?bs), w')"
    "ready w'" "extent w' = extent w" "cells w' = cells w" by blast
  have "?bs \<noteq> []" using assms(2) length_load_bytes [of "cells w" "unat a" n] by force
  with execute_read [of net a ?bs w w'] w'(1) assms(3)
  have "executeReadWrite net False (read_command a n) w = (Some (False, map Some ?bs), w')" by simp
  with w' assms(3) show ?thesis by (simp add: rvsrv_readBulk_def)
qed

lemma readSingle_ok:
  assumes "ready w" "valid_access a n (extent w)"
  shows "\<exists>w'. rvsrv_readSingle net a n w = (BusOk (be_word (load_bytes (cells w) (unat a) n)), w') \<and>
    ready w' \<and> extent w' = extent w \<and> cells w' = cells w"
proof -
  let ?bs = "load_bytes (cells w) (unat a) n"
  from assms have n: "0 < n" "n \<le> 4096" "unat a + n \<le> extent w" "n = 1 \<or> n = 2 \<or> n = 4"
    by (auto simp: valid_access_def)
  from net_read [OF assms(1) n(1-3)] obtain w' where
    w': "net (read_command a n) w = (Some (read_reply a ?bs), w')"
    "ready w'" "extent w' = extent w" "cells w' = cells w" by blast
  have "?bs \<noteq> []" using n(1) length_load_bytes [of "cells w" "unat a" n] by force
  with execute_read [of net a ?bs w w'] w'(1) n(2)
  have "executeReadWrite net False (read_command a n) w = (Some (False, map Some ?bs), w')" by simp
  with w' n(4) show ?thesis by (simp add: rvsrv_readSingle_def bus_value_def be_value_map)
qed

lemma write_ok:
  assumes "ready w" "0 < length bs" "length bs \<le> 4096" "unat a + length bs \<le> extent w"
  shows "\<exists>w'. finish_write (executeReadWrite net True
      (write_command a (length bs) (hex_bytes bs)) w) = (BusOk (), w') \<and>
    ready w' \<and> extent w' = extent w \<and> cells w' = store_bytes (cells w) (unat a) bs"
proof -
  from net_write [OF assms] obtain w' where
    w': "net (write_command a (length bs) (hex_bytes bs)) w = (Some (write_reply a (length bs)), w')"
    "ready w'" "extent w' = extent w" "cells w' = store_bytes (cells w) (unat a) bs" by blast
  from execute_write [of net "write_command a (length bs) (hex_bytes bs)" w a "length bs" w'] assms(3) w'
  show ?thesis by (simp add: finish_write_def)
qed

lemma writeSingle_ok:
  assumes "ready w" "valid_access a n (extent w)"
  shows "\<exists>w'. rvsrv_writeSingle net a v n w = (BusOk (), w') \<and>
    ready w' \<and> extent w' = extent w \<and> cells w' = store_bytes (cells w) (unat a) (word_bytes n v)"
  using assms write_ok [of w "word_bytes 1 v" a] write_ok [of w "word_bytes 2 v" a]
    write_ok [of w "word_bytes 4 v" a]
  by (auto simp: rvsrv_writeSingle_def valid_access_def single_data simp del: word_bytes.simps hex_bytes_simps)

lemma writeBulk_ok:
  assumes "ready w" "0 < length bs" "length bs \<le> 4096" "unat a + length bs \<le> extent w"
  shows "\<exists>w'. rvsrv_writeBulk net a bs w = (BusOk (), w') \<and>
    ready w' \<and> extent w' = extent w \<and> cells w' = store_bytes (cells w) (unat a) bs"
  using write_ok [OF assms] assms(3) by (simp add: rvsrv_writeBulk_def)

lemma write_then_read:
  assumes "ready w" "valid_access a n (extent w)"
  shows "\<exists>w' w''. rvsrv_writeSingle net a v n w = (BusOk (), w') \<and>
    rvsrv_readSingle net a n w' = (BusOk (take_bit (8 * n) v), w'') \<and>
    ready w'' \<and> cells w'' = store_bytes (cells w) (unat a) (word_bytes n v)"
proof -
  from writeSingle_ok [OF assms] obtain w' where w': "rvsrv_writeSingle net a v n w = (BusOk (), w')"
    "ready w'" "extent w' = extent w" "cells w' = store_bytes (cells w) (unat a) (word_bytes n v)"
    by blast
  have "load_bytes (cells w') (unat a) n = word_bytes n v"
    using load_store_same [of "cells w" "unat a" "word_bytes n v"] w'(4) by simp
  with readSingle_ok [OF w'(2)] assms(2) w' show ?thesis
    by (metis be_word_bytes)
qed

end

end
