(* ===== verification/Rvsrv_Server.thy ===== *)
theory Rvsrv_Server
  imports Memory_Link
begin

text \<open>
  The server side of the debug link: the request parser (\<open>rvsrv/parseReadWrite.c\<close>), the command
  loop (\<open>handleCommand\<close>, \<open>handleDebugServer\<close> in \<open>rvsrv/main.c\<close>) and the memory-mapped
  back end (\<open>rvsrv/mmio/mmio.c\<close>).

  Undefined behaviour of the C code is the value \<open>None\<close> (or the constructor \<open>PR_Undefined\<close>).
  The TCP layer delivers bytes per client and takes bytes per client; sending is taken to
  succeed. The \<open>mmap\<close>ped file is a byte memory.
\<close>

section \<open>Parsing a request\<close>

record parse_rw_result =
  is_write :: bool
  address :: u32
  buf_size :: nat
  buffer :: "u8 list"

text \<open>
  A heap block with a message for the client: the allocated bytes, \<open>None\<close> for one that was
  never written, and the index at which a NUL was stored afterwards, if any.
\<close>

record error_block =
  eb_bytes :: "char option list"
  eb_nul :: "nat option"

datatype parse_outcome =
    PR_Ok parse_rw_result      \<comment> \<open>return value 0\<close>
  | PR_Syntax error_block      \<comment> \<open>return value 1, with the message\<close>
  | PR_Error                   \<comment> \<open>return value -1\<close>
  | PR_Undefined               \<comment> \<open>undefined behaviour\<close>

definition charVal :: "char \<Rightarrow> nat option" where
  "charVal c = (if isxdigit c then Some (hexval c) else None)"

fun strchr :: "string \<Rightarrow> char \<Rightarrow> nat option" where
  "strchr [] x = None"
| "strchr (c # s) x = (if c = x then Some 0 else map_option Suc (strchr s x))"

text \<open>
  The command name is taken to end at the first \<open>'r'\<close>; without one a null pointer enters the
  subtraction. The terminator is stored at index \<open>len\<close> of a block of \<open>len\<close> bytes.
\<close>

definition syntaxError :: "string \<Rightarrow> parse_outcome" where
  "syntaxError command =
     (case strchr command (CHR ''r'') of
        None \<Rightarrow> PR_Undefined
      | Some cmd_len \<Rightarrow>
          (let text = ''Error, '' @ take cmd_len command @ '', Syntax;\<newline>'';
               len = length text + 1
           in PR_Syntax \<lparr>eb_bytes = map Some text @ [None], eb_nul = Some len\<rparr>))"

text \<open>The message for a bad count is copied without its terminator.\<close>

definition invalidBufSize :: "bool \<Rightarrow> parse_outcome" where
  "invalidBufSize w =
     PR_Syntax \<lparr>eb_bytes = map Some (if w then ''Error, Write, InvalidBufSize;\<newline>''
                                     else ''Error, Read, InvalidBufSize;\<newline>''),
                eb_nul = None\<rparr>"

definition matchAt :: "string \<Rightarrow> string \<Rightarrow> string option" where
  "matchAt str pat = (if starts_with pat str then Some (drop (length pat) str) else None)"

text \<open>The three scanning loops, \<open>None\<close> for a syntax error; the first argument counts iterations.\<close>

fun scan_address :: "nat \<Rightarrow> u32 \<Rightarrow> string \<Rightarrow> (u32 \<times> string) option" where
  "scan_address 0 acc s = Some (acc, s)"
| "scan_address (Suc i) acc s =
     (if peek s = CHR '','' then Some (acc, s)
      else case charVal (peek s) of None \<Rightarrow> None
        | Some j \<Rightarrow> scan_address i (push_bit 4 acc OR word_of_nat j) (tl s))"

fun scan_count :: "nat \<Rightarrow> nat \<Rightarrow> string \<Rightarrow> (nat \<times> string) option" where
  "scan_count 0 acc s = Some (acc, s)"
| "scan_count (Suc i) acc s =
     (if peek s = CHR '','' \<or> s = [] then Some (acc, s)
      else case charVal (peek s) of None \<Rightarrow> None
        | Some j \<Rightarrow> if j > 9 then None else scan_count i (acc * 10 + j) (tl s))"

fun scan_data :: "nat \<Rightarrow> string \<Rightarrow> (u8 list \<times> string) option" where
  "scan_data 0 s = Some ([], s)"
| "scan_data (Suc i) s =
     (case charVal (peek s) of None \<Rightarrow> None
      | Some h \<Rightarrow> (case charVal (peek (tl s)) of None \<Rightarrow> None
        | Some l \<Rightarrow> (case scan_data i (tl (tl s)) of None \<Rightarrow> None
          | Some (bs, r) \<Rightarrow> Some ((push_bit 4 (word_of_nat h) OR word_of_nat l) # bs, r))))"

definition parse_after_count :: "string \<Rightarrow> bool \<Rightarrow> u32 \<Rightarrow> nat \<Rightarrow> string \<Rightarrow> parse_outcome" where
  "parse_after_count command w addr n s =
     (if n < 1 \<or> n > 4096 then invalidBufSize w
      else if peek s \<noteq> (if w then CHR '','' else CHR 0x00) then syntaxError command
      else if \<not> w then PR_Ok \<lparr>is_write = False, address = addr, buf_size = n, buffer = []\<rparr>
      else (case scan_data n (tl s) of None \<Rightarrow> syntaxError command
        | Some (bs, r) \<Rightarrow>
            if r \<noteq> [] then syntaxError command
            else PR_Ok \<lparr>is_write = True, address = addr, buf_size = n, buffer = bs\<rparr>))"

definition parse_after_name :: "string \<Rightarrow> bool \<Rightarrow> string \<Rightarrow> parse_outcome" where
  "parse_after_name command w s =
     (case scan_address 8 0 s of None \<Rightarrow> syntaxError command
      | Some (addr, s1) \<Rightarrow>
          if peek s1 \<noteq> CHR '','' then syntaxError command
          else (case scan_count 4 0 (tl s1) of None \<Rightarrow> syntaxError command
            | Some (n, s2) \<Rightarrow> parse_after_count command w addr n s2))"

definition parseReadWrite :: "string \<Rightarrow> parse_outcome" where
  "parseReadWrite command =
     (if strchr command (CHR '','') = None then syntaxError command
      else case matchAt command ''Read,'' of
        Some s \<Rightarrow> parse_after_name command False s
      | None \<Rightarrow> (case matchAt command ''Write,'' of
          Some s \<Rightarrow> parse_after_name command True s
        | None \<Rightarrow> PR_Error))"

text \<open>What \<open>sendStr\<close> reads from a block: up to a NUL inside it, else it runs off the end.\<close>

definition block_string :: "error_block \<Rightarrow> string option" where
  "block_string b =
     (case eb_nul b of None \<Rightarrow> None
      | Some i \<Rightarrow> if i < length (eb_bytes b) \<and> None \<notin> set (take i (eb_bytes b))
                  then Some (map the (take i (eb_bytes b))) else None)"

section \<open>The memory-mapped back end\<close>

text \<open>The mapping: its first byte is at \<open>mmio_addr\<close>, memory is addressed absolutely.\<close>

record mmio =
  mmio_addr :: nat
  mmio_length :: nat
  mmem :: "nat \<Rightarrow> u8"

definition mmio_read :: "u32 \<Rightarrow> nat \<Rightarrow> mmio \<Rightarrow> string" where
  "mmio_read addr n m =
     (if unat addr + n > mmio_length m then ''Error,Read,OutOfMappedRange;\<newline>''
      else ''OK, Read, OK, '' @ hexU 8 (unat addr) @ '', '' @ decU n @ '', '' @
        concat (map (\<lambda>i. hexU 2 (unat (mmem m (mmio_addr m + unat addr + i)))) [0..<n]) @
        '';\<newline>'')"

text \<open>The copy loop: bytes up to a word boundary, whole words, then the remaining bytes.\<close>

function write_loop :: "nat \<Rightarrow> u8 list \<Rightarrow> (nat \<Rightarrow> u8) \<Rightarrow> nat \<Rightarrow> u8" where
  "write_loop ptr bs m =
     (case bs of [] \<Rightarrow> m
      | b # bs' \<Rightarrow>
          if ptr mod 4 \<noteq> 0 \<or> length bs < 4 then write_loop (ptr + 1) bs' (m(ptr := b))
          else write_loop (ptr + 4) (drop 4 bs)
            (m(ptr := bs ! 0, ptr + 1 := bs ! 1, ptr + 2 := bs ! 2, ptr + 3 := bs ! 3)))"
  by pat_completeness auto
termination
  by (relation "measure (\<lambda>(ptr, bs, m). length bs)") auto

declare write_loop.simps [simp del]

definition mmio_write :: "u32 \<Rightarrow> u8 list \<Rightarrow> mmio \<Rightarrow> string \<times> mmio" where
  "mmio_write addr bs m =
     (if unat addr + length bs > mmio_length m then (''Error,Write,OutOfMappedRange;\<newline>'', m)
      else (''OK, Write, OK, '' @ hexU 8 (unat addr) @ '', '' @ decU (length bs) @ '';\<newline>'',
            m\<lparr>mmem := write_loop (mmio_addr m + unat addr) bs (mmem m)\<rparr>))"

section \<open>The command loop\<close>

text \<open>
  The server: the mapping, the characters each client has sent of its current command
  (\<open>commandBuf\<close> and \<open>numBytes\<close>), and what was sent to each client.
\<close>

record server =
  srv_mmio :: mmio
  srv_buf :: "nat \<Rightarrow> string"
  srv_out :: "nat \<Rightarrow> string"

definition sendStr :: "nat \<Rightarrow> string \<Rightarrow> server \<Rightarrow> server" where
  "sendStr client str s = s\<lparr>srv_out := (srv_out s)(client := srv_out s client @ str)\<rparr>"

definition checkCommand :: "string \<Rightarrow> string \<Rightarrow> bool" where
  "checkCommand command text \<longleftrightarrow> starts_with text command \<and>
     (drop (length text) command = [] \<or> peek (drop (length text) command) = CHR '','')"

text \<open>The return value and the new state; \<open>None\<close> is undefined behaviour.\<close>

definition handleCommand :: "string \<Rightarrow> nat \<Rightarrow> server \<Rightarrow> (int \<times> server) option" where
  "handleCommand command client s =
     (if checkCommand command ''Stop'' then Some (1, sendStr client ''OK, Stop;\<newline>'' s)
      else if checkCommand command ''Read'' \<or> checkCommand command ''Write'' then
        (case parseReadWrite command of
           PR_Ok res \<Rightarrow>
             if is_write res then
               (let (reply, m) = mmio_write (address res) (buffer res) (srv_mmio s)
                in Some (2, sendStr client reply (s\<lparr>srv_mmio := m\<rparr>)))
             else Some (2, sendStr client (mmio_read (address res) (buf_size res) (srv_mmio s)) s)
         | PR_Syntax b \<Rightarrow> map_option (\<lambda>str. (2, sendStr client str s)) (block_string b)
         | PR_Error \<Rightarrow> Some (- 1, s)
         | PR_Undefined \<Rightarrow> None)
      else Some (2, sendStr client
        (''Error, '' @ takeWhile (\<lambda>c. c \<noteq> CHR '','') command @ '', UnknownCommand;\<newline>'') s))"

definition MAX_DEBUG_COMMAND_SIZE :: nat where
  "MAX_DEBUG_COMMAND_SIZE = 8448"

definition command_char :: "char \<Rightarrow> bool" where
  "command_char d \<longleftrightarrow> d = CHR '','' \<or> islower d \<or> isupper d \<or> isdigit d"

text \<open>
  One byte of one client in \<open>handleDebugServer\<close>. The result is 0 to go on, 1 to stop the
  server, -1 for an error. (\<open>handleCommand\<close> never returns 0, so the code for a command still
  in progress is never reached.)
\<close>

definition server_byte :: "nat \<Rightarrow> char \<Rightarrow> server \<Rightarrow> (int \<times> server) option" where
  "server_byte client d s =
     (let buf = srv_buf s client; reset = s\<lparr>srv_buf := (srv_buf s)(client := [])\<rparr> in
      if length buf \<ge> MAX_DEBUG_COMMAND_SIZE then
        (if d = CHR '';'' then Some (0, sendStr client ''Error, PacketBufferOverrun;\<newline>'' reset)
         else Some (0, s))
      else if d = CHR '';'' then
        (case handleCommand buf client reset of None \<Rightarrow> None
         | Some (r, s') \<Rightarrow> Some (if r < 0 then - 1 else if r = 1 then 1 else 0, s'))
      else if command_char d then Some (0, s\<lparr>srv_buf := (srv_buf s)(client := buf @ [d])\<rparr>)
      else Some (0, s))"

text \<open>The bytes of all clients in the order the server takes them.\<close>

fun server_run :: "(nat \<times> char) list \<Rightarrow> server \<Rightarrow> (int \<times> server) option" where
  "server_run [] s = Some (0, s)"
| "server_run ((client, d) # es) s =
     (case server_byte client d s of None \<Rightarrow> None
      | Some (r, s') \<Rightarrow> if r = 0 then server_run es s' else Some (r, s'))"

section \<open>What the parser accepts\<close>

lemma scan_address_digits:
  "\<forall>c \<in> set ds. isxdigit c \<Longrightarrow>
    scan_address (length ds + k) (word_of_nat v) (ds @ s) =
    scan_address k (word_of_nat (digits_value 16 v ds)) s"
proof (induction ds arbitrary: v)
  case (Cons c ds)
  then have c: "isxdigit c" "c \<noteq> CHR '',''" "hexval c < 2 ^ 4"
    using xdigit_not_delim isxdigit_hexval by auto
  have "push_bit 4 (word_of_nat v) OR word_of_nat (hexval c) = (word_of_nat (v * 16 + hexval c) :: u32)"
    using push_or_digit [OF c(3)] by simp
  with Cons.prems Cons.IH [of "v * 16 + hexval c"] c show ?case by (simp add: charVal_def)
qed simp

lemma scan_count_digits:
  "\<forall>c \<in> set ds. isdigit c \<Longrightarrow>
    scan_count (length ds + k) v (ds @ s) = scan_count k (digits_value 10 v ds) s"
proof (induction ds arbitrary: v)
  case (Cons c ds)
  then have "isxdigit c" "c \<noteq> CHR '',''" "hexval c < 10"
    using xdigit_not_delim isdigit_isxdigit isdigit_hexval by auto
  with Cons show ?case by (simp add: charVal_def)
qed simp

lemma scan_address_hexU: "scan_address 8 0 (hexU 8 (unat a) @ s) = Some (a, s)"
proof -
  have "unat a < 16 ^ 8" using unsigned_less [of a, where 'a = nat] by simp
  then have "digits_value 16 0 (hexU 8 (unat a)) = unat a" by (simp add: hexU_value)
  moreover have "\<forall>c \<in> set (hexU 8 (unat a)). isxdigit c" using hexU_xdigits by blast
  ultimately show ?thesis
    using scan_address_digits [of "hexU 8 (unat a)" 0 0 s] by simp
qed

lemma scan_count_decU:
  assumes "n \<le> 4096" and "s = [] \<or> peek s = CHR '',''"
  shows "scan_count 4 0 (decU n @ s) = Some (n, s)"
proof -
  have "length (decU n) \<le> 4" using length_decU [of n 4] assms(1) by simp
  then obtain k where k: "4 = length (decU n) + k" using le_Suc_ex by blast
  have "scan_count k n s = Some (n, s)" using assms(2) by (cases k) auto
  moreover have "\<forall>c \<in> set (decU n). isdigit c" using decU_digits by blast
  ultimately show ?thesis
    using scan_count_digits [of "decU n" k 0 s] by (simp add: k decU_value)
qed

lemma byte_of_nibbles:
  "push_bit 4 (word_of_nat (unat b div 16 mod 16)) OR word_of_nat (unat b mod 16) = (b :: u8)"
proof -
  have "unat b < 256" using unsigned_less [of b, where 'a = nat] by simp
  then have "unat b div 16 mod 16 * 16 + unat b mod 16 = unat b" by simp
  then have "word_of_nat (unat b div 16 mod 16 * 16 + unat b mod 16) = b"
    by (simp only: of_nat_unat ucast_id)
  moreover have "unat b mod 16 < 2 ^ 4" by simp
  note push_or_digit [OF this, of "word_of_nat (unat b div 16 mod 16) :: u8"]
  ultimately show ?thesis by (simp only: of_nat_add of_nat_mult) simp
qed

lemma scan_data_hex_bytes: "scan_data (length bs) (hex_bytes bs @ s) = Some (bs, s)"
  by (induction bs) (simp_all add: hexU_2 charVal_def hexdigit_props byte_of_nibbles)

lemma matchAt_simps [simp]:
  "matchAt (''Read,'' @ s) ''Read,'' = Some s" "matchAt (''Write,'' @ s) ''Read,'' = None"
  "matchAt (''Write,'' @ s) ''Write,'' = Some s"
  by (simp_all add: matchAt_def)

lemma strchr_None: "strchr s x = None \<longleftrightarrow> x \<notin> set s"
  by (induction s) auto

lemma parse_read:
  assumes "0 < n" and "n \<le> 4096"
  shows "parseReadWrite (butlast (read_command a n)) =
      PR_Ok \<lparr>is_write = False, address = a, buf_size = n, buffer = []\<rparr>"
proof -
  have r: "butlast (read_command a n) = ''Read,'' @ hexU 8 (unat a) @ '','' @ decU n"
    by (simp add: read_command_def butlast_append)
  show ?thesis
    unfolding r
    using assms scan_count_decU [of n "[]"] matchAt_simps(1) [of "hexU 8 (unat a) @ '','' @ decU n"]
    by (simp add: parseReadWrite_def parse_after_name_def parse_after_count_def scan_address_hexU
        del: scan_address.simps scan_count.simps)
qed

lemma parse_write:
  assumes "0 < length bs" and "length bs \<le> 4096"
  shows "parseReadWrite (butlast (write_command a (length bs) (hex_bytes bs))) =
      PR_Ok \<lparr>is_write = True, address = a, buf_size = length bs, buffer = bs\<rparr>"
proof -
  let ?n = "length bs"
  have w: "butlast (write_command a ?n (hex_bytes bs)) =
      ''Write,'' @ hexU 8 (unat a) @ '','' @ decU ?n @ '','' @ hex_bytes bs"
    by (simp add: write_command_def butlast_append)
  show ?thesis
    unfolding w
    using assms scan_count_decU [of ?n "'','' @ hex_bytes bs"] scan_data_hex_bytes [of bs "[]"]
      matchAt_simps(2,3) [of "hexU 8 (unat a) @ '','' @ decU ?n @ '','' @ hex_bytes bs"]
    by (simp add: parseReadWrite_def parse_after_name_def parse_after_count_def scan_address_hexU
        del: scan_address.simps scan_count.simps)
qed

text \<open>
  C21. A read request as the client prints it, without its semicolon, is parsed to exactly that
  read; a write request to exactly that write with its data.
\<close>

theorem parse_request_roundtrip:
  assumes "0 < n" and "n \<le> 4096" and "length bs = n"
  shows "parseReadWrite (butlast (read_command a n)) =
      PR_Ok \<lparr>is_write = False, address = a, buf_size = n, buffer = []\<rparr> \<and>
    parseReadWrite (butlast (write_command a n (hex_bytes bs))) =
      PR_Ok \<lparr>is_write = True, address = a, buf_size = n, buffer = bs\<rparr>"
  using parse_read [of n a] parse_write [of bs a] assms by simp

theorem parse_request_roundtrip_witness:
  "parseReadWrite (butlast (write_command 0x1234 2 (hex_bytes [0xAB, 7]))) =
    PR_Ok \<lparr>is_write = True, address = 0x1234, buf_size = 2, buffer = [0xAB, 7]\<rparr>"
  using parse_request_roundtrip [of 2 "[0xAB, 7]" "0x1234"] by simp

lemma scan_data_length: "scan_data n s = Some (bs, r) \<Longrightarrow> length bs = n"
  by (induction n s arbitrary: bs r rule: scan_data.induct) (auto split: option.splits)

lemma syntaxError_not_Ok [simp]:
  "syntaxError c \<noteq> PR_Ok r" "invalidBufSize w \<noteq> PR_Ok r" "syntaxError c \<noteq> PR_Error"
  "invalidBufSize w \<noteq> PR_Error"
  by (auto simp: syntaxError_def invalidBufSize_def Let_def split: option.splits)

text \<open>
  C22. Whatever the client sends, an accepted request asks for 1 to 4096 bytes, and an accepted
  write carries exactly as many bytes as it announces.
\<close>

theorem parse_accepts_in_bounds:
  assumes "parseReadWrite command = PR_Ok res"
  shows "0 < buf_size res \<and> buf_size res \<le> 4096 \<and>
    length (buffer res) = (if is_write res then buf_size res else 0)"
proof -
  obtain w a n s where "parse_after_count command w a n s = PR_Ok res"
    using assms
    by (auto simp: parseReadWrite_def parse_after_name_def split: option.splits if_splits prod.splits)
  then show ?thesis
    by (auto simp: parse_after_count_def split: option.splits if_splits prod.splits
        dest: scan_data_length)
qed

theorem parse_accepts_in_bounds_witness:
  "\<exists>res. parseReadWrite ''Write,10,2,00ff'' = PR_Ok res \<and> buf_size res \<le> 4096 \<and> length (buffer res) = 2"
proof -
  have p: "parseReadWrite ''Write,10,2,00ff'' =
      PR_Ok \<lparr>is_write = True, address = 0x10, buf_size = 2, buffer = [0, 0xFF]\<rparr>"
    by code_simp
  from parse_accepts_in_bounds [OF p] p show ?thesis by simp
qed

lemma syntaxError_block: "syntaxError c = PR_Syntax b \<Longrightarrow> block_string b = None"
  by (auto simp: syntaxError_def block_string_def Let_def split: option.splits)

lemma invalidBufSize_block: "invalidBufSize w = PR_Syntax b \<Longrightarrow> block_string b = None"
  by (auto simp: invalidBufSize_def block_string_def)

text \<open>
  C26. No rejected request gets a well-formed answer: the message block of a syntax error never
  holds its terminator (it is stored one byte past the end, or not at all), so sending it reads
  outside the block, and the command has undefined behaviour.
\<close>

theorem syntax_error_reply_overruns:
  assumes "parseReadWrite command = PR_Syntax b"
  shows "block_string b = None \<and>
    ((checkCommand command ''Read'' \<or> checkCommand command ''Write'') \<longrightarrow>
      handleCommand command client s = None)"
proof -
  have "block_string b = None"
    using assms syntaxError_block invalidBufSize_block
    by (auto simp: parseReadWrite_def parse_after_name_def parse_after_count_def
        split: option.splits if_splits prod.splits)
  moreover have "checkCommand command ''Read'' \<or> checkCommand command ''Write'' \<Longrightarrow>
      \<not> checkCommand command ''Stop''"
    by (cases command) (auto simp: checkCommand_def)
  ultimately show ?thesis using assms by (auto simp: handleCommand_def)
qed

section \<open>The write loop is a byte copy\<close>

lemma store_bytes_Nil [simp]: "store_bytes m a [] = m"
  by (auto simp: store_bytes_def fun_eq_iff)

lemma store_bytes_Cons: "store_bytes m a (b # bs) = store_bytes (m(a := b)) (a + 1) bs"
  by (auto simp: store_bytes_def fun_eq_iff nth_Cons' Suc_diff_Suc)

lemma write_loop_byte:
  "ptr mod 4 \<noteq> 0 \<or> length (b # bs) < 4 \<Longrightarrow>
    write_loop ptr (b # bs) m = write_loop (ptr + 1) bs (m(ptr := b))"
  by (subst write_loop.simps) auto

lemma write_loop_word:
  "ptr mod 4 = 0 \<Longrightarrow> write_loop ptr (b0 # b1 # b2 # b3 # r) m =
    write_loop (ptr + 4) r (m(ptr := b0, ptr + 1 := b1, ptr + 2 := b2, ptr + 3 := b3))"
  by (subst write_loop.simps) simp

lemma write_loop_store: "write_loop ptr bs m = store_bytes m ptr bs"
proof (induction bs arbitrary: ptr m rule: length_induct)
  case (1 bs)
  show ?case
  proof (cases bs)
    case (Cons b bs')
    show ?thesis
    proof (cases "ptr mod 4 \<noteq> 0 \<or> length bs < 4")
      case True
      with 1 Cons show ?thesis
        by (simp add: write_loop_byte store_bytes_Cons fun_upd_def)
    next
      case False
      then have "Suc (Suc (Suc (Suc 0))) \<le> length bs" by simp
      then obtain b0 b1 b2 b3 r where bs: "bs = b0 # b1 # b2 # b3 # r"
        unfolding Suc_le_length_iff by blast
      then have "write_loop ptr bs m = store_bytes
          (m(ptr := b0, ptr + 1 := b1, ptr + 2 := b2, ptr + 3 := b3)) (ptr + 4) r"
        using False 1 by (simp add: write_loop_word fun_upd_def)
      then show ?thesis
        by (simp add: bs store_bytes_Cons numeral_3_eq_3 numeral_Bit0)
    qed
  qed (simp add: write_loop.simps)
qed

lemma mmio_write_eq:
  "mmio_write addr bs m =
    (if unat addr + length bs \<le> mmio_length m
     then (write_reply addr (length bs),
           m\<lparr>mmem := store_bytes (mmem m) (mmio_addr m + unat addr) bs\<rparr>)
     else (''Error,Write,OutOfMappedRange;\<newline>'', m))"
  by (simp add: mmio_write_def write_loop_store write_reply_def)

lemma mmio_read_eq:
  "mmio_read addr n m =
    (if unat addr + n \<le> mmio_length m
     then read_reply addr (load_bytes (mmem m) (mmio_addr m + unat addr) n)
     else ''Error,Read,OutOfMappedRange;\<newline>'')"
proof -
  have "concat (map (\<lambda>i. hexU 2 (unat (mmem m (mmio_addr m + unat addr + i)))) [0..<n]) =
      hex_bytes (load_bytes (mmem m) (mmio_addr m + unat addr) n)"
    unfolding hex_bytes_def load_bytes_def
    by (intro arg_cong [where f = concat] nth_equalityI) simp_all
  then show ?thesis by (simp add: mmio_read_def read_reply_def)
qed

text \<open>
  C23. The mixed byte and word writes of the back end store exactly the bytes of the request at
  consecutive addresses, whatever the alignment; a request that leaves the mapping changes
  nothing and is refused, for reads as for writes.
\<close>

theorem mmio_access_is_byte_copy:
  "mmio_write addr bs m =
    (if unat addr + length bs \<le> mmio_length m
     then (write_reply addr (length bs),
           m\<lparr>mmem := store_bytes (mmem m) (mmio_addr m + unat addr) bs\<rparr>)
     else (''Error,Write,OutOfMappedRange;\<newline>'', m)) \<and>
   mmio_read addr n m =
    (if unat addr + n \<le> mmio_length m
     then read_reply addr (load_bytes (mmem m) (mmio_addr m + unat addr) n)
     else ''Error,Read,OutOfMappedRange;\<newline>'')"
  using mmio_write_eq mmio_read_eq by blast

section \<open>Feeding a whole command\<close>

lemma server_run_append:
  "server_run (es @ fs) s = (case server_run es s of None \<Rightarrow> None
    | Some (r, s') \<Rightarrow> if r = 0 then server_run fs s' else Some (r, s'))"
  by (induction es arbitrary: s) (auto split: option.splits)

lemma command_char_eq: "command_char = packet_char"
  by (auto simp: fun_eq_iff command_char_def packet_char_def isalpha_def)

lemma server_byte_char:
  "\<lbrakk>command_char c; length (srv_buf s client) < MAX_DEBUG_COMMAND_SIZE\<rbrakk> \<Longrightarrow>
    server_byte client c s = Some (0, s\<lparr>srv_buf := (srv_buf s)(client := srv_buf s client @ [c])\<rparr>)"
  by (cases "c = CHR '';''") (simp_all add: server_byte_def Let_def command_char_eq)

lemma server_run_text:
  "\<lbrakk>\<forall>c \<in> set cs. command_char c; length (srv_buf s client) + length cs \<le> MAX_DEBUG_COMMAND_SIZE\<rbrakk> \<Longrightarrow>
    server_run (map (Pair client) cs) s =
      Some (0, s\<lparr>srv_buf := (srv_buf s)(client := srv_buf s client @ cs)\<rparr>)"
proof (induction cs arbitrary: s)
  case (Cons c cs)
  let ?s = "s\<lparr>srv_buf := (srv_buf s)(client := srv_buf s client @ [c])\<rparr>"
  have "server_byte client c s = Some (0, ?s)"
    using Cons.prems by (intro server_byte_char) simp_all
  with Cons.IH [of ?s] Cons.prems show ?case by (simp add: fun_upd_def cong: if_cong)
qed simp

text \<open>A command of legal characters that fits the buffer reaches \<open>handleCommand\<close> whole.\<close>

lemma server_run_command:
  assumes "\<forall>c \<in> set cs. command_char c" and "length cs < MAX_DEBUG_COMMAND_SIZE"
    and "srv_buf s client = []" and "handleCommand cs client s = Some (2, s')"
  shows "server_run (map (Pair client) (cs @ '';'')) s = Some (0, s')"
proof -
  have reset: "(s\<lparr>srv_buf := (srv_buf s)(client := cs)\<rparr>)
      \<lparr>srv_buf := ((srv_buf s)(client := cs))(client := [])\<rparr> = s"
    using assms(3) by (cases s) (auto simp: fun_eq_iff)
  then have "server_byte client (CHR '';'') (s\<lparr>srv_buf := (srv_buf s)(client := cs)\<rparr>) = Some (0, s')"
    using assms(2,4) by (simp add: server_byte_def Let_def)
  with server_run_text [of cs s client] assms(1-3) show ?thesis
    by (simp add: server_run_append)
qed

section \<open>The server as the far end of the link\<close>

text \<open>
  Client 0 sends a command and reads what the server wrote to it in return: the composition of
  the two programs, with the TCP connection between them as a reliable byte stream.
\<close>

definition server_net :: "server net" where
  "server_net cmd s =
     (case server_run (map (Pair 0) cmd) (s\<lparr>srv_out := (srv_out s)(0 := [])\<rparr>) of
        None \<Rightarrow> (None, s)
      | Some (r, s') \<Rightarrow> (Some (srv_out s' 0), s'))"

definition server_cells :: "server \<Rightarrow> nat \<Rightarrow> u8" where
  "server_cells s = (\<lambda>i. mmem (srv_mmio s) (mmio_addr (srv_mmio s) + i))"

definition server_extent :: "server \<Rightarrow> nat" where
  "server_extent s = mmio_length (srv_mmio s)"

definition server_idle :: "server \<Rightarrow> bool" where
  "server_idle s \<longleftrightarrow> srv_buf s 0 = []"

lemma command_char_digits:
  "\<forall>c \<in> set (hexU n v). command_char c" "\<forall>c \<in> set (decU m). command_char c"
  "\<forall>c \<in> set (hex_bytes bs). command_char c"
  unfolding command_char_eq by (meson hexU_packet decU_packet hex_bytes_packet)+

lemma command_char_text [simp]:
  "\<forall>c \<in> set ''Read,''. command_char c" "\<forall>c \<in> set ''Write,''. command_char c"
  "command_char (CHR '','')"
  by (simp_all add: command_char_def ctype_defs)

lemma read_command_butlast: "read_command a n = butlast (read_command a n) @ '';''"
  and write_command_butlast: "write_command a n d = butlast (write_command a n d) @ '';''"
  by (simp_all add: read_command_def write_command_def butlast_append)

lemma command_length:
  "n \<le> 4096 \<Longrightarrow> length (butlast (read_command a n)) < MAX_DEBUG_COMMAND_SIZE"
  "length bs \<le> 4096 \<Longrightarrow> length (butlast (write_command a (length bs) (hex_bytes bs))) < MAX_DEBUG_COMMAND_SIZE"
  using length_decU [of n 4] length_decU [of "length bs" 4]
  by (simp_all add: read_command_def write_command_def MAX_DEBUG_COMMAND_SIZE_def)

lemma command_chars:
  "\<forall>c \<in> set (butlast (read_command a n)). command_char c"
  "\<forall>c \<in> set (butlast (write_command a n (hex_bytes bs))). command_char c"
  using command_char_digits command_char_text
  by (auto simp: read_command_def write_command_def butlast_append)

lemma checkCommand_request:
  "\<not> checkCommand (butlast (read_command a n)) ''Stop''" "checkCommand (butlast (read_command a n)) ''Read''"
  "\<not> checkCommand (butlast (write_command a n d)) ''Stop''" "checkCommand (butlast (write_command a n d)) ''Write''"
  by (simp_all add: checkCommand_def read_command_def write_command_def butlast_append)

interpretation srv_link: memory_link server_net server_cells server_extent server_idle
proof
  fix w :: server and n and a :: u32
  let ?w = "w\<lparr>srv_out := (srv_out w)(0 := [])\<rparr>"
  assume h: "server_idle w" "0 < n" "n \<le> 4096" "unat a + n \<le> server_extent w"
  let ?bs = "load_bytes (server_cells w) (unat a) n"
  have bs: "?bs = load_bytes (mmem (srv_mmio w)) (mmio_addr (srv_mmio w) + unat a) n"
    by (rule nth_equalityI) (simp_all add: load_bytes_def server_cells_def ac_simps)
  have "parseReadWrite (butlast (read_command a n)) =
      PR_Ok \<lparr>is_write = False, address = a, buf_size = n, buffer = []\<rparr>"
    using parse_read [OF h(2,3)] .
  then have "handleCommand (butlast (read_command a n)) 0 ?w = Some (2, sendStr 0 (read_reply a ?bs) ?w)"
    using h(4) mmio_read_eq [of a n "srv_mmio w"]
    by (simp add: handleCommand_def checkCommand_request server_extent_def bs)
  from server_run_command [OF command_chars(1) command_length(1) [OF h(3)] _ this] h(1)
  have "server_run (map (Pair 0) (read_command a n)) ?w = Some (0, sendStr 0 (read_reply a ?bs) ?w)"
    by (simp add: server_idle_def flip: read_command_butlast)
  with h(1) show "\<exists>w'. server_net (read_command a n) w = (Some (read_reply a ?bs), w') \<and>
      server_idle w' \<and> server_extent w' = server_extent w \<and> server_cells w' = server_cells w"
    by (auto simp: server_net_def sendStr_def server_idle_def server_extent_def server_cells_def)
next
  fix w :: server and bs and a :: u32
  let ?w = "w\<lparr>srv_out := (srv_out w)(0 := [])\<rparr>"
  let ?m = "(srv_mmio w)\<lparr>mmem := store_bytes (mmem (srv_mmio w)) (mmio_addr (srv_mmio w) + unat a) bs\<rparr>"
  let ?n = "length bs" and ?c = "write_command a (length bs) (hex_bytes bs)"
  assume h: "server_idle w" "0 < length bs" "length bs \<le> 4096" "unat a + length bs \<le> server_extent w"
  have "parseReadWrite (butlast ?c) =
      PR_Ok \<lparr>is_write = True, address = a, buf_size = ?n, buffer = bs\<rparr>"
    using parse_write [OF h(2,3)] by simp
  then have "handleCommand (butlast ?c) 0 ?w = Some (2, sendStr 0 (write_reply a ?n) (?w\<lparr>srv_mmio := ?m\<rparr>))"
    using h(4) mmio_write_eq [of a bs "srv_mmio w"]
    by (simp add: handleCommand_def checkCommand_request server_extent_def)
  from server_run_command [OF command_chars(2) command_length(2) [OF h(3)] _ this] h(1)
  have "server_run (map (Pair 0) ?c) ?w = Some (0, sendStr 0 (write_reply a ?n) (?w\<lparr>srv_mmio := ?m\<rparr>))"
    by (simp add: server_idle_def flip: write_command_butlast)
  moreover have "(\<lambda>i. store_bytes (mmem (srv_mmio w)) (mmio_addr (srv_mmio w) + unat a) bs (mmio_addr (srv_mmio w) + i))
      = store_bytes (server_cells w) (unat a) bs"
    by (auto simp: store_bytes_def server_cells_def fun_eq_iff)
  ultimately show "\<exists>w'. server_net ?c w = (Some (write_reply a ?n), w') \<and> server_idle w' \<and>
      server_extent w' = server_extent w \<and> server_cells w' = store_bytes (server_cells w) (unat a) bs"
    using h(1)
    by (auto simp: server_net_def sendStr_def server_idle_def server_extent_def server_cells_def)
qed

section \<open>Properties of the link and of the command loop\<close>

text \<open>
  C3. Through client, request parser, command loop, back end and reply parser: a byte, halfword
  or word the debugger writes inside the mapping lands in memory big endian, changes nothing
  else, and is what the debugger reads back.
\<close>

theorem debug_link_write_read:
  assumes "server_idle s" and "valid_access a n (server_extent s)"
  shows "\<exists>s' s''. rvsrv_writeSingle server_net a v n s = (BusOk (), s') \<and>
    rvsrv_readSingle server_net a n s' = (BusOk (take_bit (8 * n) v), s'') \<and>
    server_idle s'' \<and> server_cells s'' = store_bytes (server_cells s) (unat a) (word_bytes n v)"
  using assms by (rule srv_link.write_then_read)

definition demo_server :: server where
  "demo_server = \<lparr>srv_mmio = \<lparr>mmio_addr = 4096, mmio_length = 64, mmem = (\<lambda>_. 0)\<rparr>,
     srv_buf = (\<lambda>_. []), srv_out = (\<lambda>_. [])\<rparr>"

lemma demo_server_idle: "server_idle demo_server" "server_extent demo_server = 64"
  by (simp_all add: server_idle_def server_extent_def demo_server_def)

theorem syntax_error_reply_overruns_witness:
  "handleCommand ''Write,zz,1,00'' 0 demo_server = None"
proof -
  obtain b where "parseReadWrite ''Write,zz,1,00'' = PR_Syntax b"
    by (simp add: parseReadWrite_def matchAt_def starts_with_def parse_after_name_def charVal_def
        ctype_defs syntaxError_def Let_def numeral_eq_Suc)
  from syntax_error_reply_overruns [OF this, of 0 demo_server]
  show ?thesis by (simp add: checkCommand_def starts_with_def)
qed

theorem debug_link_write_read_witness:
  "\<exists>s' s''. rvsrv_writeSingle server_net 8 0xCAFEBABE 4 demo_server = (BusOk (), s') \<and>
    rvsrv_readSingle server_net 8 4 s' = (BusOk 0xCAFEBABE, s'')"
proof -
  have "valid_access 8 4 (server_extent demo_server)" by (simp add: valid_access_def demo_server_idle)
  from debug_link_write_read [OF demo_server_idle(1) this, of "0xCAFEBABE"]
  show ?thesis by (simp add: take_bit_word_eq_self) blast
qed

text \<open>
  C4. A bulk write of up to 4096 bytes stores exactly those bytes, and a bulk read of any range
  inside the mapping returns the bytes of the memory and leaves it alone.
\<close>

theorem debug_link_bulk:
  assumes "server_idle s" and "0 < length bs" and "length bs \<le> 4096"
    and "unat a + length bs \<le> server_extent s"
    and "0 < n" and "n \<le> 4096" and "unat b + n \<le> server_extent s"
  shows "\<exists>s' s''. rvsrv_writeBulk server_net a bs s = (BusOk (), s') \<and>
    rvsrv_readBulk server_net b n s' = (BusOk (map Some (load_bytes
      (store_bytes (server_cells s) (unat a) bs) (unat b) n)), s'') \<and>
    server_cells s'' = store_bytes (server_cells s) (unat a) bs"
proof -
  from srv_link.writeBulk_ok [OF assms(1-4)] obtain s' where
    s': "rvsrv_writeBulk server_net a bs s = (BusOk (), s')" "server_idle s'"
    "server_extent s' = server_extent s" "server_cells s' = store_bytes (server_cells s) (unat a) bs"
    by blast
  from srv_link.readBulk_ok [OF s'(2) assms(5,6), of b] s' assms(7) show ?thesis by auto
qed

theorem debug_link_bulk_witness:
  "\<exists>s' s''. rvsrv_writeBulk server_net 3 [1, 2, 3, 4, 5] demo_server = (BusOk (), s') \<and>
    rvsrv_readBulk server_net 2 4 s' = (BusOk (map Some [0, 1, 2, 3]), s'')"
proof -
  have "load_bytes (store_bytes (server_cells demo_server) 3 [1, 2, 3, 4, 5]) 2 4 = [0, 1, 2, 3]"
    by (simp add: load_bytes_def store_bytes_def upt_rec numeral_eq_Suc server_cells_def demo_server_def)
  then show ?thesis
    using debug_link_bulk [of demo_server "[1, 2, 3, 4, 5]" 3 4 2] demo_server_idle by fastforce
qed

text \<open>The command buffer a client would have if it were alone.\<close>

fun own_buffer :: "string \<Rightarrow> string \<Rightarrow> string" where
  "own_buffer buf [] = buf"
| "own_buffer buf (d # ds) =
     own_buffer (if length buf \<ge> MAX_DEBUG_COMMAND_SIZE then (if d = CHR '';'' then [] else buf)
       else if d = CHR '';'' then [] else if command_char d then buf @ [d] else buf) ds"

definition bytes_of :: "nat \<Rightarrow> (nat \<times> char) list \<Rightarrow> string" where
  "bytes_of c es = map snd (filter (\<lambda>e. fst e = c) es)"

lemma sendStr_frame [simp]:
  "srv_buf (sendStr c t s) = srv_buf s" "c' \<noteq> c \<Longrightarrow> srv_out (sendStr c t s) c' = srv_out s c'"
  by (simp_all add: sendStr_def)

lemma handleCommand_frame:
  "handleCommand cmd c s = Some (r, s') \<Longrightarrow>
    srv_buf s' = srv_buf s \<and> (c' \<noteq> c \<longrightarrow> srv_out s' c' = srv_out s c')"
  by (auto simp: handleCommand_def split: if_splits parse_outcome.splits prod.splits option.splits)

lemma server_byte_frame:
  "server_byte c d s = Some (r, s') \<Longrightarrow>
    srv_buf s' = (srv_buf s)(c := own_buffer (srv_buf s c) [d]) \<and>
    (c' \<noteq> c \<longrightarrow> srv_out s' c' = srv_out s c')"
  by (auto simp: server_byte_def Let_def split: if_splits option.splits prod.splits
      dest!: handleCommand_frame [where c' = c'])

text \<open>
  C24. Clients do not disturb each other: whatever the interleaving of the bytes of several
  clients, each command buffer holds what its own client sent since its last semicolon, and a
  client that sends nothing is sent nothing.
\<close>

theorem clients_are_isolated:
  assumes "server_run es s = Some (0, s')"
  shows "srv_buf s' c = own_buffer (srv_buf s c) (bytes_of c es) \<and>
    (c \<notin> fst ` set es \<longrightarrow> srv_out s' c = srv_out s c)"
  using assms
proof (induction es arbitrary: s)
  case (Cons e es)
  obtain c0 d where e: "e = (c0, d)" by force
  with Cons.prems obtain s1 where s1: "server_byte c0 d s = Some (0, s1)" "server_run es s1 = Some (0, s')"
    by (auto split: option.splits if_splits)
  from server_byte_frame [OF s1(1), of c] Cons.IH [OF s1(2)] show ?case
    by (auto simp: e bytes_of_def)
qed (simp add: bytes_of_def)

theorem clients_are_isolated_witness:
  "\<exists>s'. server_run [(0, CHR ''R''), (1, CHR ''W''), (0, CHR ''e'')] demo_server = Some (0, s') \<and>
    srv_buf s' 0 = ''Re'' \<and> srv_buf s' 1 = ''W'' \<and> srv_out s' 2 = []"
proof -
  let ?es = "[(0, CHR ''R''), (1, CHR ''W''), (0, CHR ''e'')]"
  obtain s' where s': "server_run ?es demo_server = Some (0, s')"
    by (simp add: demo_server_def server_byte_def Let_def command_char_def ctype_defs MAX_DEBUG_COMMAND_SIZE_def)
  have "command_char (CHR ''R'')" "command_char (CHR ''W'')" "command_char (CHR ''e'')"
    by (simp_all add: command_char_def ctype_defs)
  with s' clients_are_isolated [OF s', of 0] clients_are_isolated [OF s', of 1]
    clients_are_isolated [OF s', of 2]
  show ?thesis by (simp add: bytes_of_def demo_server_def MAX_DEBUG_COMMAND_SIZE_def)
qed

end
