(* ===== verification/Preload.thy ===== *)
theory Preload
  imports Rvsrv_Server
begin

text \<open>
  The preload buffer of rvd (\<open>rvd/preload.c\<close>): one contiguous range of target memory fetched
  in advance. A byte of the buffer is \<open>None\<close> as long as nothing was stored in it since
  \<open>malloc\<close>; addresses are 32-bit and wrap around as in the C code.
\<close>

text \<open>The static variables; a null \<open>preloadBuffer\<close> is the empty list.\<close>

record preload_state =
  preloadBuffer :: "u8 option list"
  preloadSize :: nat
  preloadAddress :: u32

definition initial_preload :: preload_state where
  "initial_preload = \<lparr>preloadBuffer = [], preloadSize = 0, preloadAddress = 0\<rparr>"

definition preload_load ::
  "'w net \<Rightarrow> u32 \<Rightarrow> int \<Rightarrow> preload_state \<times> 'w \<Rightarrow> unit bus_result \<times> preload_state \<times> 'w" where
  "preload_load net addr sz st =
     (case st of (p, w) \<Rightarrow>
       if sz > 4096 \<or> sz < 0 then (BusFatal, p, w)
       else if sz \<noteq> 0 then
         (let fresh = \<lparr>preloadBuffer = replicate (nat sz) None, preloadSize = nat sz,
                       preloadAddress = addr\<rparr> in
          case rvsrv_readBulk net addr (nat sz) w of
            (BusOk bytes, w') \<Rightarrow> (BusOk (), fresh\<lparr>preloadBuffer := bytes\<rparr>, w')
          | (BusFault fault, w') \<Rightarrow> (BusFault fault, fresh, w')
          | (BusFatal, w') \<Rightarrow> (BusFatal, fresh, w')
          | (BusIndeterminate, w') \<Rightarrow> (BusIndeterminate, fresh, w'))
       else (BusOk (), initial_preload, w))"

text \<open>
  A hit is the return value 1, a miss 0; \<open>PreloadUndefined\<close> is a read outside the allocated
  buffer or of a byte that was never stored. The sizes asked for are 1, 2 and 4.
\<close>

datatype preload_result = PreloadHit u32 | PreloadMiss | PreloadUndefined

definition preload_read :: "u32 \<Rightarrow> nat \<Rightarrow> preload_state \<Rightarrow> preload_result" where
  "preload_read addr sz p =
     (if addr < preloadAddress p then PreloadMiss
      else if addr + word_of_nat sz > preloadAddress p + word_of_nat (preloadSize p) then PreloadMiss
      else (let i = unat (addr - preloadAddress p); n = max 1 (min sz 4) in
        if i + n > length (preloadBuffer p) then PreloadUndefined
        else case be_value (take n (drop i (preloadBuffer p))) of
          None \<Rightarrow> PreloadUndefined | Some v \<Rightarrow> PreloadHit v))"

definition preload_free :: "preload_state \<Rightarrow> preload_state" where
  "preload_free p = (if preloadBuffer p = [] then p else initial_preload)"

section \<open>Coherence\<close>

lemma load_bytes_part:
  "\<lbrakk>a \<le> b; b + k \<le> a + n\<rbrakk> \<Longrightarrow> take k (drop (b - a) (load_bytes m a n)) = load_bytes m b k"
  by (rule nth_equalityI) (auto simp: load_bytes_def)

text \<open>Reading a buffer that holds a range of memory, when nothing wraps around.\<close>

lemma preload_read_loaded:
  assumes p: "preloadBuffer p = map Some (load_bytes m (unat (preloadAddress p)) (preloadSize p))"
    and range: "unat (preloadAddress p) + preloadSize p < 2 ^ 32"
    and k: "k = 1 \<or> k = 2 \<or> k = 4" and b: "unat b + k < 2 ^ 32"
  shows "preload_read b k p =
    (if unat (preloadAddress p) \<le> unat b \<and> unat b + k \<le> unat (preloadAddress p) + preloadSize p
     then PreloadHit (be_word (load_bytes m (unat b) k)) else PreloadMiss)"
proof -
  let ?a = "preloadAddress p" and ?n = "preloadSize p"
  have add: "unat (x + word_of_nat j :: u32) = unat x + j" if "unat x + j < 2 ^ 32" for x j
    using that by (simp add: unat_word_ariths unsigned_of_nat take_bit_eq_mod)
  have ge: "?a \<le> b \<longleftrightarrow> unat ?a \<le> unat b" by (simp add: word_le_nat_alt)
  have hit: "b + word_of_nat k > ?a + word_of_nat ?n \<longleftrightarrow> unat b + k > unat ?a + ?n"
    using add [OF b] add [OF range] by (simp add: word_less_nat_alt)
  have max: "max (Suc 0) (min k 4) = k" using k by auto
  show ?thesis
  proof (cases "unat ?a \<le> unat b \<and> unat b + k \<le> unat ?a + ?n")
    case True
    then have off: "unat (b - ?a) = unat b - unat ?a" by (simp add: ge unat_sub flip: ge)
    have "take k (drop (unat b - unat ?a) (preloadBuffer p)) = map Some (load_bytes m (unat b) k)"
      using load_bytes_part [of "unat ?a" "unat b" k ?n m] True by (simp add: p take_map drop_map)
    moreover have "length (preloadBuffer p) = ?n" by (simp add: p)
    moreover have "unat b + k - unat ?a \<le> ?n" using True by linarith
    ultimately show ?thesis
      using True by (simp add: preload_read_def ge hit max Let_def off be_value_map not_less)
  next
    case False
    then show ?thesis by (auto simp: preload_read_def ge hit not_le not_less simp flip: ge)
  qed
qed

text \<open>
  C20. A preload of a range of target memory succeeds and makes the buffer coherent with it: a
  preload-enabled access is answered from the buffer exactly when it lies inside the range, with
  the value the target holds, and is left to the target otherwise. Neither the range nor the access
  may reach the top of the address space, where the ends of both wrap around (\<open>preload_read_wraps\<close>).
\<close>

theorem preload_is_coherent:
  assumes "server_idle s" and "0 < n" and "n \<le> 4096" and "unat a + n \<le> server_extent s"
    and "unat a + n < 2 ^ 32" and "k = 1 \<or> k = 2 \<or> k = 4" and "unat b + k < 2 ^ 32"
  shows "\<exists>p s'. preload_load server_net a (int n) (p0, s) = (BusOk (), p, s') \<and>
    server_idle s' \<and> server_cells s' = server_cells s \<and>
    preload_read b k p = (if unat a \<le> unat b \<and> unat b + k \<le> unat a + n
      then PreloadHit (be_word (load_bytes (server_cells s) (unat b) k)) else PreloadMiss)"
proof -
  from srv_link.readBulk_ok [OF assms(1-4)] obtain s' where
    s': "rvsrv_readBulk server_net a n s = (BusOk (map Some (load_bytes (server_cells s) (unat a) n)), s')"
    "server_idle s'" "server_cells s' = server_cells s" by blast
  let ?p = "\<lparr>preloadBuffer = map Some (load_bytes (server_cells s) (unat a) n), preloadSize = n,
    preloadAddress = a\<rparr>"
  have "preload_load server_net a (int n) (p0, s) = (BusOk (), ?p, s')"
    using assms(2,3) s'(1) by (simp add: preload_load_def)
  with preload_read_loaded [of ?p "server_cells s" k b] assms(5-7) s'(2,3) show ?thesis by simp
qed

theorem preload_is_coherent_witness:
  "\<exists>p s'. preload_load server_net 16 8 (initial_preload, demo_server) = (BusOk (), p, s') \<and>
    preload_read 20 4 p = PreloadHit 0 \<and> preload_read 22 4 p = PreloadMiss"
proof -
  have m: "load_bytes (server_cells demo_server) i 4 = [0, 0, 0, 0]" for i
    by (rule nth_equalityI) (auto simp: load_bytes_def server_cells_def demo_server_def nth_Cons split: nat.split)
  show ?thesis
    using preload_is_coherent [of demo_server 8 16 4 20 initial_preload]
      preload_is_coherent [of demo_server 8 16 4 22 initial_preload] demo_server_idle
    by (auto simp: m be_word_def)
qed

text \<open>
  With nothing preloaded, an access that ends exactly at the top of the address space passes
  the range check, because the end of the access wraps around to 0, and reads outside of the
  buffer.
\<close>

theorem preload_read_wraps:
  assumes "k = 1 \<or> k = 2 \<or> k = 4" and "unat b + k = 2 ^ 32"
  shows "preload_read b k initial_preload = PreloadUndefined"
proof -
  have "b + word_of_nat k = word_of_nat (unat b + k)" by simp
  also have "\<dots> = (0 :: u32)" unfolding assms(2) by simp
  finally have "b + word_of_nat k = 0" .
  with assms(1) show ?thesis by (auto simp: preload_read_def initial_preload_def Let_def)
qed

theorem preload_read_wraps_witness: "preload_read 0xFFFFFFFC 4 initial_preload = PreloadUndefined"
  by (rule preload_read_wraps) simp_all

end
