(* ===== verification/Parser_Scan.thy ===== *)
theory Parser_Scan
  imports Prelude
begin

text \<open>
  The scanners of rvd's expression language (\<open>rvd/parser.c\<close>, up to \<open>scanString\<close>) and its
  values (\<open>rvd/types.h\<close>). A scanner takes the text that is left and returns what it scanned
  with the text after it; the text after a token never starts with white space.
\<close>

section \<open>Values\<close>

datatype access_size = AS_UNDEFINED | AS_WORD | AS_HALF | AS_BYTE

record value_t =
  v_value :: u32
  v_size :: access_size

abbreviation mk_value :: "u32 \<Rightarrow> access_size \<Rightarrow> value_t" where
  "mk_value v s \<equiv> \<lparr>v_value = v, v_size = s\<rparr>"

definition zero_value :: value_t where
  "zero_value = \<lparr>v_value = 0, v_size = AS_UNDEFINED\<rparr>"

text \<open>The error messages of the scanners.\<close>

datatype scan_error =
    ExpectedString | InvalidHexEscape | OctalOutOfRange | UnknownEscape | UnterminatedString
  | Expected char | ExpectedCommaOrParen | InvalidLiteral | OperandExpected | DefinitionNameExpected
  | ReadFailed u32 u32 | WriteFailed u32 u32 | PreloadFailed u32 u32 u32
  | UnsupportedFormat char | ImproperFormat | IllegalFormat char
  | UnknownFunction string | NotDefined string | TooManyExpansions string
  | UnexpectedToken | ExpectedLiteralOrAll | ExpectedLiteral | ContextOutOfRange u32
  | IdentifierExpected | ExpectedCloseBrace

section \<open>White space and literals\<close>

definition scanWhitespace :: "string \<Rightarrow> string" where
  "scanWhitespace s = dropWhile isspace s"

lemma peek_scanWhitespace [simp]: "\<not> isspace (peek (scanWhitespace s))"
  by (induction s) (auto simp: scanWhitespace_def)

lemma scanWhitespace_id [simp]: "\<not> isspace (peek s) \<Longrightarrow> scanWhitespace s = s"
  by (cases s) (auto simp: scanWhitespace_def)

lemma scanWhitespace_suffix: "\<exists>p. s = p @ scanWhitespace s"
  unfolding scanWhitespace_def by (metis takeWhile_dropWhile_id)

text \<open>The digit loop, \<open>None\<close> when a digit is too large for the radix.\<close>

fun scanDigits :: "nat \<Rightarrow> u32 \<Rightarrow> string \<Rightarrow> (u32 \<times> string) option" where
  "scanDigits radix v [] = Some (v, [])"
| "scanDigits radix v (c # ptr) =
     (if isxdigit c then
        (if hexval c \<ge> radix then None
         else scanDigits radix (v * word_of_nat radix + word_of_nat (hexval c)) ptr)
      else Some (v, c # ptr))"

definition scanSize :: "string \<Rightarrow> access_size \<times> string" where
  "scanSize ptr =
     (if peek ptr = CHR ''w'' then (AS_WORD, tl ptr)
      else if peek ptr = CHR ''h'' then
        (if peek (tl ptr) = CHR ''h'' then (AS_BYTE, tl (tl ptr)) else (AS_HALF, tl ptr))
      else (AS_UNDEFINED, ptr))"

definition scanRadix :: "string \<Rightarrow> nat \<times> string" where
  "scanRadix ptr =
     (if peek ptr = CHR ''0'' then
        (if peek (tl ptr) = CHR ''x'' then (16, tl (tl ptr))
         else if peek (tl ptr) = CHR ''b'' then (2, tl (tl ptr))
         else (8, tl ptr))
      else (10, ptr))"

definition scanLiteral :: "string \<Rightarrow> (value_t \<times> string) option" where
  "scanLiteral str =
     (if \<not> isdigit (peek str) then None
      else (let (radix, ptr) = scanRadix str in
        case scanDigits radix 0 ptr of None \<Rightarrow> None
        | Some (v, ptr') \<Rightarrow>
            (let (sz, ptr'') = scanSize ptr' in
             if isident (peek ptr'') then None
             else Some (\<lparr>v_value = v, v_size = sz\<rparr>, scanWhitespace ptr''))))"

section \<open>Identifiers and operators\<close>

definition scanIdentifier :: "string \<Rightarrow> (string \<times> string) option" where
  "scanIdentifier str =
     (if isdigit (peek str) then None
      else (let name = takeWhile isident str in
        if name = [] then None
        else Some (name, scanWhitespace (dropWhile isident str))))"

datatype operator = OP_ADD | OP_SUB | OP_MUL | OP_DIV | OP_MOD | OP_EQ | OP_NEQ | OP_GT
  | OP_GTE | OP_LT | OP_LTE | OP_SHL | OP_SHR | OP_LAND | OP_BAND | OP_LOR | OP_BOR
  | OP_XOR | OP_SEP

text \<open>The operators in the order in which they are tried.\<close>

definition operator_table :: "(string \<times> operator) list" where
  "operator_table =
    [(''+'', OP_ADD), (''-'', OP_SUB), (''*'', OP_MUL), (''/'', OP_DIV), (''%'', OP_MOD),
     (''=='', OP_EQ), (''!='', OP_NEQ), (''>='', OP_GTE), (''>>'', OP_SHR), (''>'', OP_GT),
     (''<='', OP_LTE), (''<<'', OP_SHL), (''<'', OP_LT), (''&&'', OP_LAND), (''&'', OP_BAND),
     (''||'', OP_LOR), (''|'', OP_BOR), (''^'', OP_XOR), ('';'', OP_SEP)]"

fun match_operator :: "(string \<times> operator) list \<Rightarrow> string \<Rightarrow> (operator \<times> string) option" where
  "match_operator [] ptr = None"
| "match_operator ((text, o1) # ops) ptr =
     (if starts_with text ptr then Some (o1, scanWhitespace (drop (length text) ptr))
      else match_operator ops ptr)"

definition scanOperator :: "string \<Rightarrow> (operator \<times> string) option" where
  "scanOperator str = match_operator operator_table str"

section \<open>String literals\<close>

text \<open>\<open>char\<close> arithmetic, modulo 256.\<close>

definition shift_in :: "nat \<Rightarrow> nat \<Rightarrow> nat \<Rightarrow> nat" where
  "shift_in k c d = (c * 2 ^ k + d) mod 256"

definition isoctal :: "char \<Rightarrow> bool" where
  "isoctal c \<longleftrightarrow> 48 \<le> code c \<and> code c \<le> 55"

definition simple_escapes :: "(char \<times> nat) list" where
  "simple_escapes =
    [(CHR ''a'', 7), (CHR ''b'', 8), (CHR ''f'', 12), (CHR ''n'', 10), (CHR ''r'', 13),
     (CHR ''t'', 9), (CHR ''v'', 11), (CHR 0x5C, 92), (CHR 0x27, 39), (CHR 0x22, 34),
     (CHR ''?'', 63)]"

text \<open>After a backslash: the character meant and the text after the escape sequence.\<close>

definition scanEscape :: "string \<Rightarrow> scan_error + char \<times> string" where
  "scanEscape ptr =
     (let c = peek ptr; ptr = tl ptr in
      case map_of simple_escapes c of
        Some v \<Rightarrow> Inr (char_of v, ptr)
      | None \<Rightarrow>
        if c = CHR ''x'' then
          (if \<not> isxdigit (peek ptr) then Inl InvalidHexEscape
           else (let v = hexval (peek ptr); ptr = tl ptr in
             if isxdigit (peek ptr) then Inr (char_of (shift_in 4 v (hexval (peek ptr))), tl ptr)
             else Inr (char_of v, ptr)))
        else if isoctal c then
          (let v = code c - 48 in
           if \<not> isoctal (peek ptr) then Inr (char_of v, ptr)
           else (let v = shift_in 3 v (code (peek ptr) - 48); ptr = tl ptr in
             if \<not> isoctal (peek ptr) then Inr (char_of v, ptr)
             else if v \<ge> 32 then Inl OctalOutOfRange
             else Inr (char_of (shift_in 3 v (code (peek ptr) - 48)), tl ptr)))
        else Inl UnknownEscape)"

lemma scanEscape_length: "scanEscape ptr = Inr (c, r) \<Longrightarrow> length r \<le> length ptr"
  by (auto simp: scanEscape_def Let_def split: if_splits option.splits)

text \<open>The loop after the opening quote; on an error, the position of the character at fault.\<close>

function scanStringBody :: "string \<Rightarrow> string \<Rightarrow> (scan_error \<times> string) + (string \<times> string)" where
  "scanStringBody acc [] = Inl (UnterminatedString, [])"
| "scanStringBody acc (c # ptr) =
     (if c = CHR 0x5C then
        (case scanEscape ptr of
           Inl e \<Rightarrow> Inl (e, c # ptr)
         | Inr (x, r) \<Rightarrow> scanStringBody (acc @ [x]) r)
      else if c = CHR 0x22 then Inr (acc, scanWhitespace ptr)
      else if c = CHR 0x00 then Inl (UnterminatedString, c # ptr)
      else scanStringBody (acc @ [c]) ptr)"
  by pat_completeness auto
termination
  by (relation "measure (\<lambda>(acc, ptr). length ptr)") (auto dest: scanEscape_length)

definition scanString :: "string \<Rightarrow> (scan_error \<times> string) + (string \<times> string)" where
  "scanString ptr =
     (if peek ptr \<noteq> CHR 0x22 then Inl (ExpectedString, ptr) else scanStringBody [] (tl ptr))"

end
