(* ===== verification/Parser_Eval.thy ===== *)
theory Parser_Eval
  imports Parser_Scan Definitions Preload
begin

text \<open>
  The evaluator of rvd's expression language (\<open>scanOperand\<close>, \<open>mergeSize\<close>,
  \<open>scanExpression\<close> and \<open>evaluate\<close> in \<open>rvd/parser.c\<close>). It works on the text itself:
  there is no syntax tree, and conditionals and loops skip text by scanning it with depth
  \<open>-1\<close>, which evaluates nothing. Definitions are expanded at most 256 deep.

  A computation takes the state of the program (definition store, preload buffer, the world
  behind the debug link, the calls of \<open>printf\<close> and \<open>usleep\<close> so far) and returns one of
  the code's three results (1, 0 with the error and its position, \<open>-1\<close>) with the new state.
  \<open>Undef\<close> is undefined behaviour, \<open>NoFuel\<close> is a run that was not given enough steps: every
  call of the two scanners and every turn of a loop takes one.
\<close>

section \<open>State and results\<close>

datatype out_event =
    EvPrintf string u32     \<comment> \<open>\<open>printf(format, value)\<close>\<close>
  | EvPuts string           \<comment> \<open>\<open>printf\<close> of a text without format specifiers\<close>
  | EvUsleep u32

text \<open>
  \<open>e_scanned\<close> are the records of definitions, by mask and name, whose texts are being scanned, the
  innermost first: the scanner reads these texts in place. It is empty between evaluations.
\<close>

record 'w env =
  e_defs :: def_table
  e_preload :: preload_state
  e_world :: 'w
  e_out :: "out_event list"
  e_scanned :: "(u32 \<times> string) list"

datatype 'a res = Ret 'a | Fail scan_error string | Fatal | Undef | NoFuel

type_synonym ('a, 'w) ev = "'w env \<Rightarrow> 'a res \<times> 'w env"

definition returnE :: "'a \<Rightarrow> ('a, 'w) ev" where
  "returnE x = (\<lambda>e. (Ret x, e))"

definition failE :: "scan_error \<Rightarrow> string \<Rightarrow> ('a, 'w) ev" where
  "failE err pos = (\<lambda>e. (Fail err pos, e))"

definition stopE :: "'a res \<Rightarrow> ('a, 'w) ev" where
  "stopE r = (\<lambda>e. (r, e))"

definition bindE :: "('a, 'w) ev \<Rightarrow> ('a \<Rightarrow> ('b, 'w) ev) \<Rightarrow> ('b, 'w) ev" where
  "bindE m f = (\<lambda>e. case m e of
     (Ret x, e') \<Rightarrow> f x e'
   | (Fail err pos, e') \<Rightarrow> (Fail err pos, e')
   | (Fatal, e') \<Rightarrow> (Fatal, e')
   | (Undef, e') \<Rightarrow> (Undef, e')
   | (NoFuel, e') \<Rightarrow> (NoFuel, e'))"

definition modifyE :: "('w env \<Rightarrow> 'w env) \<Rightarrow> (unit, 'w) ev" where
  "modifyE f = (\<lambda>e. (Ret (), f e))"

text \<open>Skip an expected character and the white space after it.\<close>

definition expectE :: "char \<Rightarrow> string \<Rightarrow> (string, 'w) ev" where
  "expectE c ptr = (if peek ptr \<noteq> c then failE (Expected c) ptr
                    else returnE (scanWhitespace (tl ptr)))"

definition emit :: "out_event \<Rightarrow> (unit, 'w) ev" where
  "emit ev = modifyE (\<lambda>e. e\<lparr>e_out := e_out e @ [ev]\<rparr>)"

type_synonym 'w scanner = "string \<Rightarrow> int \<Rightarrow> (value_t \<times> string, 'w) ev"

section \<open>Target memory\<close>

definition targetRead :: "'w net \<Rightarrow> u32 \<Rightarrow> nat \<Rightarrow> string \<Rightarrow> (u32, 'w) ev" where
  "targetRead net a n ptr = (\<lambda>e.
     case rvsrv_readSingle net a n (e_world e) of
       (BusOk v, w) \<Rightarrow> (Ret v, e\<lparr>e_world := w\<rparr>)
     | (BusFault f, w) \<Rightarrow> (Fail (ReadFailed a f) ptr, e\<lparr>e_world := w\<rparr>)
     | (BusFatal, w) \<Rightarrow> (Fatal, e\<lparr>e_world := w\<rparr>)
     | (BusIndeterminate, w) \<Rightarrow> (Undef, e\<lparr>e_world := w\<rparr>))"

definition targetWrite :: "'w net \<Rightarrow> u32 \<Rightarrow> u32 \<Rightarrow> nat \<Rightarrow> string \<Rightarrow> (unit, 'w) ev" where
  "targetWrite net a v n ptr = (\<lambda>e.
     case rvsrv_writeSingle net a v n (e_world e) of
       (BusOk _, w) \<Rightarrow> (Ret (), e\<lparr>e_world := w\<rparr>)
     | (BusFault f, w) \<Rightarrow> (Fail (WriteFailed a f) ptr, e\<lparr>e_world := w\<rparr>)
     | (BusFatal, w) \<Rightarrow> (Fatal, e\<lparr>e_world := w\<rparr>)
     | (BusIndeterminate, w) \<Rightarrow> (Undef, e\<lparr>e_world := w\<rparr>))"

definition targetPreload :: "'w net \<Rightarrow> u32 \<Rightarrow> u32 \<Rightarrow> string \<Rightarrow> (unit, 'w) ev" where
  "targetPreload net a n ptr = (\<lambda>e.
     case preload_load net a (sint n) (e_preload e, e_world e) of
       (BusOk _, p, w) \<Rightarrow> (Ret (), e\<lparr>e_preload := p, e_world := w\<rparr>)
     | (BusFault f, p, w) \<Rightarrow>
         (Fail (PreloadFailed a (a + n - 1) f) ptr, e\<lparr>e_preload := p, e_world := w\<rparr>)
     | (BusFatal, p, w) \<Rightarrow> (Fatal, e\<lparr>e_preload := p, e_world := w\<rparr>)
     | (BusIndeterminate, p, w) \<Rightarrow> (Undef, e\<lparr>e_preload := p, e_world := w\<rparr>))"

text \<open>A preload-enabled read asks the target only when the value was not preloaded.\<close>

definition preloadedRead :: "'w net \<Rightarrow> bool \<Rightarrow> u32 \<Rightarrow> nat \<Rightarrow> string \<Rightarrow> (u32, 'w) ev" where
  "preloadedRead net enable a n ptr = (\<lambda>e.
     if enable then
       (case preload_read a n (e_preload e) of
          PreloadHit v \<Rightarrow> (Ret v, e)
        | PreloadMiss \<Rightarrow> targetRead net a n ptr e
        | PreloadUndefined \<Rightarrow> (Undef, e))
     else targetRead net a n ptr e)"

section \<open>Functions of the language\<close>

text \<open>\<open>read\<close>, \<open>readByte\<close>, \<dots>, \<open>readWordPreload\<close>; the fifth character tells the size.\<close>

definition read_names :: "string list" where
  "read_names = [''read'', ''readByte'', ''readHalf'', ''readWord'',
     ''readPreload'', ''readBytePreload'', ''readHalfPreload'', ''readWordPreload'']"

definition read_size :: "char \<Rightarrow> nat \<times> access_size" where
  "read_size c = (if c = CHR ''B'' then (1, AS_BYTE)
                  else if c = CHR ''H'' then (2, AS_HALF) else (4, AS_WORD))"

definition fn_read :: "'w net \<Rightarrow> 'w scanner \<Rightarrow> string \<Rightarrow> 'w scanner" where
  "fn_read net scanE name ptr depth =
     bindE (scanE ptr depth) (\<lambda>(v, ptr).
     bindE (expectE (CHR '')'') ptr) (\<lambda>ptr.
       if depth = -1 then returnE (v, ptr)
       else (let (n, sz) = read_size (peek (drop 4 name)) in
         bindE (preloadedRead net (length name > 8) (v_value v) n ptr) (\<lambda>x.
           returnE (\<lparr>v_value = x, v_size = sz\<rparr>, ptr)))))"

text \<open>\<open>write\<close>, \<open>writeByte\<close>, \<open>writeHalf\<close>, \<open>writeWord\<close>: plain \<open>write\<close> takes the size of the value.\<close>

definition write_names :: "string list" where
  "write_names = [''write'', ''writeByte'', ''writeHalf'', ''writeWord'']"

definition write_size :: "char \<Rightarrow> access_size \<Rightarrow> access_size" where
  "write_size c sz = (if c = CHR ''B'' then AS_BYTE else if c = CHR ''H'' then AS_HALF
                      else if c = CHR ''W'' then AS_WORD else sz)"

definition size_bytes :: "access_size \<Rightarrow> nat" where
  "size_bytes sz = (if sz = AS_BYTE then 1 else if sz = AS_HALF then 2 else 4)"

definition fn_write :: "'w net \<Rightarrow> 'w scanner \<Rightarrow> string \<Rightarrow> 'w scanner" where
  "fn_write net scanE name ptr depth =
     bindE (scanE ptr depth) (\<lambda>(addr, ptr).
     bindE (expectE (CHR '','') ptr) (\<lambda>ptr.
     bindE (scanE ptr depth) (\<lambda>(v, ptr).
     bindE (expectE (CHR '')'') ptr) (\<lambda>ptr.
       if depth = -1 then returnE (v, ptr)
       else (let sz = write_size (peek (drop 5 name)) (v_size v) in
         bindE (targetWrite net (v_value addr) (v_value v) (size_bytes sz) ptr) (\<lambda>_.
           returnE (v\<lparr>v_size := sz\<rparr>, ptr)))))))"

definition fn_preload :: "'w net \<Rightarrow> 'w scanner \<Rightarrow> 'w scanner" where
  "fn_preload net scanE ptr depth =
     bindE (scanE ptr depth) (\<lambda>(addr, ptr).
     bindE (expectE (CHR '','') ptr) (\<lambda>ptr.
     bindE (scanE ptr depth) (\<lambda>(cnt, ptr).
     bindE (expectE (CHR '')'') ptr) (\<lambda>ptr.
       if depth = -1 then returnE (zero_value, ptr)
       else bindE (targetPreload net (v_value addr) (v_value cnt) ptr) (\<lambda>_.
         returnE (zero_value, ptr))))))"

subsection \<open>\<open>printf\<close>\<close>

text \<open>Characters that may stand between \<open>%\<close> and the conversion, and the conversions.\<close>

definition fmt_flags :: string where "fmt_flags = ''-+ #0123456789.''"
definition fmt_supported :: string where "fmt_supported = ''diuoxX''"
definition fmt_unsupported :: string where "fmt_unsupported = ''fFeEgGaAcspn''"

definition trim_value :: "value_t \<Rightarrow> u32" where
  "trim_value v = (if v_size v = AS_BYTE then v_value v AND 0xFF
                   else if v_size v = AS_HALF then v_value v AND 0xFFFF else v_value v)"

text \<open>
  The walk over the format: \<open>start\<close> is the text since \<open>fmtStart\<close>, \<open>spec\<close> tells that a
  percent sign is open. Each conversion scans one operand and prints the text up to it.
\<close>

fun printf_loop :: "'w scanner \<Rightarrow> int \<Rightarrow> bool \<Rightarrow> string \<Rightarrow> string \<Rightarrow> string \<Rightarrow> (string \<times> string, 'w) ev" where
  "printf_loop scanE depth spec start [] ptr =
     (if spec then failE ImproperFormat ptr else returnE (start, ptr))"
| "printf_loop scanE depth spec start (c # fmt) ptr =
     (if \<not> spec then printf_loop scanE depth (c = CHR ''%'') (start @ [c]) fmt ptr
      else if c \<in> set fmt_flags then printf_loop scanE depth True (start @ [c]) fmt ptr
      else if c \<in> set fmt_supported then
        bindE (expectE (CHR '','') ptr) (\<lambda>ptr.
        bindE (scanE ptr depth) (\<lambda>(v, ptr).
        bindE (if depth \<noteq> -1 then emit (EvPrintf (start @ [c]) (trim_value v)) else returnE ()) (\<lambda>_.
          printf_loop scanE depth False [] fmt ptr)))
      else if c \<in> set fmt_unsupported then failE (UnsupportedFormat c) ptr
      else failE (IllegalFormat c) ptr)"

definition fn_printf :: "'w scanner \<Rightarrow> 'w scanner" where
  "fn_printf scanE ptr depth =
     (case scanString ptr of
        Inl (err, pos) \<Rightarrow> failE err pos
      | Inr (fmt, ptr) \<Rightarrow>
          bindE (printf_loop scanE depth False [] (takeWhile (\<lambda>c. c \<noteq> CHR 0x00) fmt) ptr) (\<lambda>(start, ptr).
          bindE (expectE (CHR '')'') ptr) (\<lambda>ptr.
          bindE (if depth \<noteq> -1 then emit (EvPuts start) else returnE ()) (\<lambda>_.
            returnE (zero_value, ptr)))))"

subsection \<open>\<open>def\<close> and \<open>set\<close>\<close>

text \<open>
  The expansion \<open>set\<close> registers: its \<open>switch\<close> has no \<open>break\<close>, so whatever the size of the
  value the last \<open>sprintf\<close> wins.
\<close>

definition set_expansion :: "value_t \<Rightarrow> string" where
  "set_expansion v = ''0x'' @ hexU 8 (unat (v_value v))"

text \<open>
  Registering overrides the record of the name in the current context, if there is one, and frees
  its text. When that text is being scanned, the scanner goes on reading freed memory.
\<close>

definition text_in_use :: "string \<Rightarrow> 'w env \<Rightarrow> bool" where
  "text_in_use name e \<longleftrightarrow> (context_bit (currentContext (e_defs e)), name) \<in> set (e_scanned e)"

definition register_local :: "string \<Rightarrow> string \<Rightarrow> (unit, 'w) ev" where
  "register_local name expansion = (\<lambda>e.
     if text_in_use name e then (Undef, e)
     else (Ret (), e\<lparr>e_defs := snd (defs_registerLocal name expansion (e_defs e))\<rparr>))"

definition fn_def :: "'w scanner \<Rightarrow> bool \<Rightarrow> 'w scanner" where
  "fn_def scanE is_def ptr depth =
     (case scanIdentifier ptr of
        None \<Rightarrow> failE DefinitionNameExpected ptr
      | Some (name, ptr) \<Rightarrow>
          bindE (expectE (CHR '','') ptr) (\<lambda>expStart.
          bindE (scanE expStart (if is_def then -1 else depth)) (\<lambda>(v, ptr).
            let expansion = (if is_def then take (length expStart - length ptr) expStart
                             else set_expansion v);
                v' = (if is_def then zero_value else v) in
            bindE (if depth \<noteq> -1
                   then register_local name expansion
                   else returnE ()) (\<lambda>_.
            bindE (expectE (CHR '')'') ptr) (\<lambda>ptr.
              returnE (v', ptr))))))"

subsection \<open>Control\<close>

definition fn_if :: "'w scanner \<Rightarrow> 'w scanner" where
  "fn_if scanE ptr depth =
     bindE (scanE ptr depth) (\<lambda>(condition, ptr).
     bindE (expectE (CHR '','') ptr) (\<lambda>ptr.
       let cond = (v_value condition \<noteq> 0) in
       bindE (scanE ptr (if cond then depth else -1)) (\<lambda>(v1, ptr).
       bindE (if peek ptr = CHR '','' then
                bindE (scanE (scanWhitespace (tl ptr)) (if cond then -1 else depth)) (\<lambda>(v2, ptr).
                  returnE (if cond then v1 else v2, ptr))
              else returnE (if cond then v1 else zero_value, ptr)) (\<lambda>(v, ptr).
       bindE (expectE (CHR '')'') ptr) (\<lambda>ptr.
         returnE (v, ptr))))))"

text \<open>The loop over the condition-action pairs of \<open>prioritize\<close>.\<close>

fun prioritize_loop :: "nat \<Rightarrow> 'w scanner \<Rightarrow> int \<Rightarrow> bool \<Rightarrow> value_t \<Rightarrow> string \<Rightarrow> (value_t \<times> string, 'w) ev" where
  "prioritize_loop 0 scanE depth done v ptr = stopE NoFuel"
| "prioritize_loop (Suc n) scanE depth done v ptr =
     bindE (scanE ptr (if done then -1 else depth)) (\<lambda>(c, ptr).
     bindE (expectE (CHR '','') ptr) (\<lambda>ptr.
       let cond = (\<not> done \<and> v_value c \<noteq> 0) in
       bindE (scanE ptr (if cond then depth else -1)) (\<lambda>(a, ptr).
         let v = (if cond then a else v) in
         if peek ptr = CHR '')'' then returnE (v, ptr)
         else if peek ptr = CHR '','' then
           prioritize_loop n scanE depth (done \<or> cond) v (scanWhitespace (tl ptr))
         else failE ExpectedCommaOrParen ptr)))"

definition fn_prioritize :: "nat \<Rightarrow> 'w scanner \<Rightarrow> 'w scanner" where
  "fn_prioritize n scanE ptr depth =
     bindE (prioritize_loop n scanE depth False zero_value ptr) (\<lambda>(v, ptr).
     bindE (expectE (CHR '')'') ptr) (\<lambda>ptr.
       returnE (v, ptr)))"

fun while_loop :: "nat \<Rightarrow> 'w scanner \<Rightarrow> int \<Rightarrow> value_t \<Rightarrow> string \<Rightarrow> string \<Rightarrow> (value_t, 'w) ev" where
  "while_loop 0 scanE depth v conditionPtr commandPtr = stopE NoFuel"
| "while_loop (Suc n) scanE depth v conditionPtr commandPtr =
     bindE (scanE conditionPtr depth) (\<lambda>(c, _).
       if v_value c = 0 then returnE v
       else bindE (scanE commandPtr depth) (\<lambda>(v, _).
         while_loop n scanE depth v conditionPtr commandPtr))"

definition fn_while :: "nat \<Rightarrow> 'w scanner \<Rightarrow> 'w scanner" where
  "fn_while n scanE conditionPtr depth =
     bindE (scanE conditionPtr (-1)) (\<lambda>(_, ptr).
     bindE (expectE (CHR '','') ptr) (\<lambda>commandPtr.
     bindE (scanE commandPtr (-1)) (\<lambda>(_, ptr).
     bindE (expectE (CHR '')'') ptr) (\<lambda>endPtr.
       if depth = -1 then returnE (zero_value, endPtr)
       else bindE (while_loop n scanE depth zero_value conditionPtr commandPtr) (\<lambda>v.
         returnE (v, endPtr))))))"

definition fn_delay_ms :: "'w scanner \<Rightarrow> 'w scanner" where
  "fn_delay_ms scanE ptr depth =
     bindE (scanE ptr depth) (\<lambda>(v, ptr).
     bindE (expectE (CHR '')'') ptr) (\<lambda>ptr.
     bindE (if depth \<noteq> -1 then emit (EvUsleep (v_value v * 1000)) else returnE ()) (\<lambda>_.
       returnE (v, ptr))))"

text \<open>The choice of the function; \<open>ptr\<close> is after the open parenthesis.\<close>

definition call_function :: "'w net \<Rightarrow> nat \<Rightarrow> 'w scanner \<Rightarrow> string \<Rightarrow> string \<Rightarrow> 'w scanner" where
  "call_function net n scanE name defStart ptr depth =
     (if name \<in> set read_names then fn_read net scanE name ptr depth
      else if name \<in> set write_names then fn_write net scanE name ptr depth
      else if name = ''preload'' then fn_preload net scanE ptr depth
      else if name = ''printf'' then fn_printf scanE ptr depth
      else if name = ''def'' \<or> name = ''set'' then fn_def scanE (name = ''def'') ptr depth
      else if name = ''if'' then fn_if scanE ptr depth
      else if name = ''prioritize'' then fn_prioritize n scanE ptr depth
      else if name = ''while'' then fn_while n scanE ptr depth
      else if name = ''delay_ms'' then fn_delay_ms scanE ptr depth
      else failE (UnknownFunction name) defStart)"

section \<open>Operands and expressions\<close>

text \<open>
  Expanding a definition: not at depth \<open>-1\<close>, an error at depth 0. An error inside the
  expansion is reported at the definition. The text is scanned where the table keeps it, so its
  record is in use until the scanner is done with it.
\<close>

definition scan_record :: "string \<Rightarrow> 'w env \<Rightarrow> 'w env" where
  "scan_record name e = e\<lparr>e_scanned := (the (defs_match name (e_defs e)), name) # e_scanned e\<rparr>"

definition relocate :: "string \<Rightarrow> 'a res \<Rightarrow> 'a res" where
  "relocate pos r = (case r of Fail err _ \<Rightarrow> Fail err pos | _ \<Rightarrow> r)"

lemma scan_record_simps [simp]:
  "(scan_record name e)\<lparr>e_scanned := e_scanned e\<rparr> = e" "e_defs (scan_record name e) = e_defs e"
  "e_world (scan_record name e) = e_world e"
  by (simp_all add: scan_record_def)

definition expand_definition :: "'w scanner \<Rightarrow> string \<Rightarrow> string \<Rightarrow> 'w scanner" where
  "expand_definition scanE name defStart ptr depth = (\<lambda>e.
     if depth = -1 then (Ret (zero_value, ptr), e)
     else case defs_expand name (e_defs e) of
       None \<Rightarrow> (Fail (NotDefined name) defStart, e)
     | Some expanded \<Rightarrow>
         if depth = 0 then (Fail (TooManyExpansions name) defStart, e)
         else (let (r, e') = bindE (scanE expanded (depth - 1)) (\<lambda>(v, _). returnE (v, ptr)) (scan_record name e) in
           (relocate defStart r, e'\<lparr>e_scanned := e_scanned e\<rparr>)))"

definition unary :: "(u32 \<Rightarrow> u32) \<Rightarrow> 'w scanner \<Rightarrow> 'w scanner" where
  "unary f scanO ptr depth =
     bindE (scanO (scanWhitespace (tl ptr)) depth) (\<lambda>(v, ptr).
       returnE (v\<lparr>v_value := f (v_value v)\<rparr>, ptr))"

definition operand_body :: "'w net \<Rightarrow> nat \<Rightarrow> 'w scanner \<Rightarrow> 'w scanner \<Rightarrow> 'w scanner" where
  "operand_body net n scanO scanE ptr depth =
     (if peek ptr = CHR ''-'' then unary (\<lambda>x. - x) scanO ptr depth
      else if peek ptr = CHR ''~'' then unary (\<lambda>x. NOT x) scanO ptr depth
      else if peek ptr = CHR ''!'' then unary (\<lambda>x. if x = 0 then 1 else 0) scanO ptr depth
      else if peek ptr = CHR ''('' then
        bindE (scanE (scanWhitespace (tl ptr)) depth) (\<lambda>(v, ptr).
        bindE (expectE (CHR '')'') ptr) (\<lambda>ptr.
          returnE (v, ptr)))
      else if isdigit (peek ptr) then
        (case scanLiteral ptr of
           None \<Rightarrow> failE InvalidLiteral ptr
         | Some (v, ptr) \<Rightarrow> returnE (v, ptr))
      else (case scanIdentifier ptr of
          None \<Rightarrow> failE OperandExpected ptr
        | Some (name, ptr') \<Rightarrow>
            if peek ptr' = CHR ''('' then
              call_function net n scanE name ptr (scanWhitespace (tl ptr')) depth
            else expand_definition scanE name ptr ptr' depth))"

definition mergeSize :: "access_size \<Rightarrow> access_size \<Rightarrow> access_size" where
  "mergeSize a b =
     (if a = AS_WORD then AS_WORD else if b = AS_WORD then AS_WORD
      else if a = AS_HALF then AS_HALF else if b = AS_HALF then AS_HALF
      else if a = AS_BYTE then AS_BYTE else if b = AS_BYTE then AS_BYTE
      else AS_UNDEFINED)"

definition of_cond :: "bool \<Rightarrow> u32" where
  "of_cond b = (if b then 1 else 0)"

text \<open>The operators on the values; a shift by 32 or more is undefined in C.\<close>

fun apply_op :: "operator \<Rightarrow> u32 \<Rightarrow> u32 \<Rightarrow> u32 option" where
  "apply_op OP_ADD a b = Some (a + b)"
| "apply_op OP_SUB a b = Some (a - b)"
| "apply_op OP_MUL a b = Some (a * b)"
| "apply_op OP_EQ a b = Some (of_cond (a = b))"
| "apply_op OP_NEQ a b = Some (of_cond (a \<noteq> b))"
| "apply_op OP_GT a b = Some (of_cond (a > b))"
| "apply_op OP_GTE a b = Some (of_cond (a \<ge> b))"
| "apply_op OP_LT a b = Some (of_cond (a < b))"
| "apply_op OP_LTE a b = Some (of_cond (a \<le> b))"
| "apply_op OP_SHL a b = (if b < 32 then Some (push_bit (unat b) a) else None)"
| "apply_op OP_SHR a b = (if b < 32 then Some (drop_bit (unat b) a) else None)"
| "apply_op OP_LAND a b = Some (of_cond (a \<noteq> 0 \<and> b \<noteq> 0))"
| "apply_op OP_BAND a b = Some (a AND b)"
| "apply_op OP_LOR a b = Some (of_cond (a \<noteq> 0 \<or> b \<noteq> 0))"
| "apply_op OP_BOR a b = Some (a OR b)"
| "apply_op OP_XOR a b = Some (a XOR b)"
| "apply_op OP_SEP a b = Some b"
| "apply_op OP_DIV a b = Some (if b = 0 then 0 else a div b)"
| "apply_op OP_MOD a b = Some (if b = 0 then 0 else a mod b)"

definition op_size :: "operator \<Rightarrow> access_size \<Rightarrow> access_size \<Rightarrow> access_size" where
  "op_size o1 a b = (if o1 = OP_SEP then b else mergeSize a b)"

definition expression_body :: "'w scanner \<Rightarrow> 'w scanner \<Rightarrow> 'w scanner" where
  "expression_body scanO scanE ptr depth =
     bindE (scanO ptr depth) (\<lambda>(v, ptr).
       case scanOperator ptr of
         None \<Rightarrow> returnE (v, ptr)
       | Some (o1, ptr) \<Rightarrow>
           if o1 = OP_SEP \<and> (ptr = [] \<or> peek ptr = CHR '')'') then returnE (v, ptr)
           else bindE (scanE ptr depth) (\<lambda>(v2, ptr).
             case apply_op o1 (v_value v) (v_value v2) of
               None \<Rightarrow> stopE Undef
             | Some x \<Rightarrow> returnE (\<lparr>v_value = x, v_size = op_size o1 (v_size v) (v_size v2)\<rparr>, ptr)))"

fun scanOperand :: "'w net \<Rightarrow> nat \<Rightarrow> 'w scanner"
and scanExpression :: "'w net \<Rightarrow> nat \<Rightarrow> 'w scanner" where
  "scanOperand net 0 ptr depth = stopE NoFuel"
| "scanOperand net (Suc n) ptr depth =
     operand_body net n (scanOperand net n) (scanExpression net n) ptr depth"
| "scanExpression net 0 ptr depth = stopE NoFuel"
| "scanExpression net (Suc n) ptr depth =
     expression_body (scanOperand net n) (scanExpression net n) ptr depth"

definition evaluate :: "'w net \<Rightarrow> nat \<Rightarrow> string \<Rightarrow> (value_t, 'w) ev" where
  "evaluate net n str =
     bindE (scanExpression net n (scanWhitespace str) 256) (\<lambda>(v, ptr).
       if ptr \<noteq> [] then failE UnexpectedToken ptr else returnE v)"

end
