(* ===== verification/Parser_Logic.thy ===== *)
theory Parser_Logic
  imports Parser_Eval "HOL-Library.Sublist"
begin

text \<open>
  A program logic for the evaluator, and what every scanner guarantees. A triple
  \<open>triple I N m Q E\<close> says that the computation \<open>m\<close> keeps the invariant \<open>I\<close> of the state,
  that a result satisfies \<open>Q\<close>, that the position of an error satisfies \<open>E\<close>, and, unless
  \<open>N\<close> holds, that the run is not out of fuel.

  The locale \<open>scanning\<close> is the interface between the functions of the language and the
  expression scanner they call; \<open>env_invariant\<close> is what an invariant has to promise for the
  evaluator to keep it. The mutual induction over the two scanners (\<open>scanners_ok\<close>) connects
  them.
\<close>

section \<open>Triples\<close>

definition triple ::
  "('w env \<Rightarrow> bool) \<Rightarrow> bool \<Rightarrow> ('a, 'w) ev \<Rightarrow> ('a \<Rightarrow> bool) \<Rightarrow> (string \<Rightarrow> bool) \<Rightarrow> bool" where
  "triple I N m Q E \<longleftrightarrow> (\<forall>e. I e \<longrightarrow> I (snd (m e)) \<and>
     (case fst (m e) of Ret x \<Rightarrow> Q x | Fail err pos \<Rightarrow> E pos | NoFuel \<Rightarrow> N | _ \<Rightarrow> True))"

lemma triple_return: "Q x \<Longrightarrow> triple I N (returnE x) Q E"
  by (simp add: triple_def returnE_def)

lemma triple_fail: "E pos \<Longrightarrow> triple I N (failE err pos) Q E"
  by (simp add: triple_def failE_def)

lemma triple_bind:
  assumes "triple I N m Q E" and "\<And>x. Q x \<Longrightarrow> triple I N (f x) Q' E"
  shows "triple I N (bindE m f) Q' E"
  unfolding triple_def
proof (intro allI impI)
  fix e assume I: "I e"
  obtain r e' where r: "m e = (r, e')" by force
  with assms(1) I have "I e'" "case r of Ret x \<Rightarrow> Q x | Fail err pos \<Rightarrow> E pos | NoFuel \<Rightarrow> N | _ \<Rightarrow> True"
    by (auto simp: triple_def)
  with assms(2) r show "I (snd (bindE m f e)) \<and> (case fst (bindE m f e) of Ret x \<Rightarrow> Q' x
      | Fail err pos \<Rightarrow> E pos | NoFuel \<Rightarrow> N | _ \<Rightarrow> True)"
    by (cases r) (auto simp: bindE_def triple_def)
qed

lemma triple_mono:
  "\<lbrakk>triple I N m Q E; \<And>x. Q x \<Longrightarrow> Q' x; \<And>p. E p \<Longrightarrow> E' p\<rbrakk> \<Longrightarrow> triple I N m Q' E'"
  by (fastforce simp: triple_def split: res.splits)

lemma triple_stop: "(r = NoFuel \<longrightarrow> N) \<Longrightarrow> r = Undef \<or> r = Fatal \<or> r = NoFuel \<Longrightarrow> triple I N (stopE r) Q E"
  by (auto simp: triple_def stopE_def)

lemma triple_if:
  "\<lbrakk>c \<Longrightarrow> triple I N m Q E; \<not> c \<Longrightarrow> triple I N m' Q E\<rbrakk> \<Longrightarrow> triple I N (if c then m else m') Q E"
  by simp

lemma triple_expect:
  "\<lbrakk>c \<noteq> CHR 0x00; E p; \<And>r. strict_suffix r p \<Longrightarrow> Q r\<rbrakk> \<Longrightarrow> triple I N (expectE c p) Q E"
proof -
  assume h: "c \<noteq> CHR 0x00" "E p" "\<And>r. strict_suffix r p \<Longrightarrow> Q r"
  have "peek p = c \<Longrightarrow> strict_suffix (scanWhitespace (tl p)) p"
    using h(1) suffix_dropWhile [of isspace "tl p"] strict_suffix_tl [of p]
    by (cases p) (auto simp: scanWhitespace_def intro: suffix_order.le_less_trans)
  with h show ?thesis by (auto simp: expectE_def intro: triple_fail triple_return)
qed

subsection \<open>What the token scanners leave\<close>

lemma scanWhitespace_suffix': "suffix (scanWhitespace s) s"
  by (simp add: scanWhitespace_def suffix_dropWhile)

lemma strict_suffix_skip: "peek p \<noteq> CHR 0x00 \<Longrightarrow> strict_suffix (scanWhitespace (tl p)) p"
  using scanWhitespace_suffix' [of "tl p"] strict_suffix_tl [of p]
  by (cases p) (auto intro: suffix_order.le_less_trans)

lemma scanDigits_suffix: "scanDigits radix v s = Some (x, r) \<Longrightarrow> suffix r s"
  by (induction radix v s rule: scanDigits.induct) (auto split: if_splits intro: suffix_ConsI)

lemma strict_suffix_Cons: "suffix r s \<Longrightarrow> strict_suffix r (c # s)"
  using suffix_length_le [of r s] by (auto simp: strict_suffix_def suffix_Cons)

lemma scanDigits_strict:
  "isxdigit (peek s) \<Longrightarrow> scanDigits radix v s = Some (x, r) \<Longrightarrow> strict_suffix r s"
  by (cases s) (auto split: if_splits dest: scanDigits_suffix intro: strict_suffix_Cons)

lemma scanSize_suffix: "scanSize s = (sz, r) \<Longrightarrow> suffix r s"
  by (cases s; cases "tl s") (auto simp: scanSize_def suffix_Cons split: if_splits)

lemma scanRadix_suffix: "isdigit (peek s) \<Longrightarrow> scanRadix s = (x, r) \<Longrightarrow> strict_suffix r s \<or> r = s"
  by (cases s; cases "tl s") (auto simp: scanRadix_def strict_suffix_def suffix_Cons split: if_splits)

lemma scanLiteral_suffix:
  assumes "scanLiteral s = Some (v, r)"
  shows "strict_suffix r s"
proof -
  from assms have d: "isdigit (peek s)" by (auto simp: scanLiteral_def split: if_splits)
  obtain radix p where p: "scanRadix s = (radix, p)" by force
  with assms obtain x p' sz p'' where 1: "scanDigits radix 0 p = Some (x, p')" "scanSize p' = (sz, p'')"
    "r = scanWhitespace p''"
    by (auto simp: scanLiteral_def Let_def split: if_splits option.splits prod.splits)
  have s: "strict_suffix p' s"
  proof (cases "p = s")
    case True
    with 1(1) d show ?thesis by (metis isdigit_isxdigit scanDigits_strict)
  next
    case False
    with scanRadix_suffix [OF d p] scanDigits_suffix [OF 1(1)] show ?thesis
      by (auto intro: suffix_order.le_less_trans)
  qed
  have "suffix r p'"
    using scanSize_suffix [OF 1(2)] scanWhitespace_suffix' [of p''] 1(3) by (auto intro: suffix_order.trans)
  with s show ?thesis by (auto intro: suffix_order.le_less_trans)
qed

lemma scanIdentifier_suffix:
  assumes "scanIdentifier s = Some (name, r)"
  shows "strict_suffix r s \<and> prefix name s \<and> name \<noteq> []"
proof -
  from assms have n: "name = takeWhile isident s" "name \<noteq> []" "r = scanWhitespace (dropWhile isident s)"
    by (auto simp: scanIdentifier_def Let_def split: if_splits)
  then have "strict_suffix (dropWhile isident s) s"
    by (metis append_self_conv2 strict_suffix_def suffix_dropWhile takeWhile_dropWhile_id)
  with n scanWhitespace_suffix' [of "dropWhile isident s"] show ?thesis
    by (auto intro: suffix_order.le_less_trans takeWhile_is_prefix)
qed

lemma match_operator_suffix:
  "match_operator ops s = Some (o1, r) \<Longrightarrow> \<forall>(t, _) \<in> set ops. t \<noteq> [] \<Longrightarrow> strict_suffix r s"
proof (induction ops s rule: match_operator.induct)
  case (2 tx oper ops ptr)
  show ?case
  proof (cases "starts_with tx ptr")
    case True
    then have "strict_suffix (drop (length tx) ptr) ptr"
      using 2(3) suffix_drop [of "length tx" ptr]
      by (auto simp: starts_with_def strict_suffix_def)
        (metis length_drop length_0_conv append_take_drop_id append_self_conv2)
    with True 2(2) scanWhitespace_suffix' show ?thesis by (auto intro: suffix_order.le_less_trans)
  qed (use 2 in auto)
qed simp

lemma scanOperator_suffix: "scanOperator s = Some (o1, r) \<Longrightarrow> strict_suffix r s"
  unfolding scanOperator_def by (erule match_operator_suffix) (auto simp: operator_table_def)

lemma scanEscape_suffix: "scanEscape s = Inr (c, r) \<Longrightarrow> suffix r s"
proof -
  have t: "suffix (tl (tl s)) s" "suffix (tl (tl (tl s))) s"
    by (meson suffix_order.trans suffix_tl)+
  then show "scanEscape s = Inr (c, r) \<Longrightarrow> suffix r s"
    by (auto simp: scanEscape_def Let_def split: if_splits option.splits)
qed

lemma scanStringBody_suffix:
  "(\<forall>err pos. scanStringBody acc s = Inl (err, pos) \<longrightarrow> suffix pos s) \<and>
   (\<forall>t r. scanStringBody acc s = Inr (t, r) \<longrightarrow> strict_suffix r s)"
proof (induction acc s rule: scanStringBody.induct)
  case (2 acc c ptr)
  have w: "strict_suffix (scanWhitespace ptr) (c # ptr)"
    by (rule strict_suffix_Cons) (rule scanWhitespace_suffix')
  have s: "suffix p q \<Longrightarrow> suffix q ptr \<Longrightarrow> strict_suffix p (c # ptr)" for p q
    by (rule strict_suffix_Cons) (rule suffix_order.trans)
  show ?case
  proof (cases "c = CHR 0x5C")
    case True
    show ?thesis
    proof (cases "scanEscape ptr")
      case (Inr p)
      obtain x r where p: "p = (x, r)" by force
      with Inr have "suffix r ptr" by (auto dest: scanEscape_suffix)
      from 2(1) [OF True Inr] p
      have ih: "scanStringBody (acc @ [x]) r = Inl (err, pos) \<Longrightarrow> suffix pos r"
        "scanStringBody (acc @ [x]) r = Inr (t, r') \<Longrightarrow> strict_suffix r' r" for err pos t r'
        by blast+
      have "scanStringBody acc (c # ptr) = scanStringBody (acc @ [x]) r"
        using True Inr p by simp
      then show ?thesis
        using ih s [OF _ \<open>suffix r ptr\<close>] by (metis suffix_order.less_imp_le)
    qed (use True in \<open>auto\<close>)
  next
    case False
    have ih: "scanStringBody (acc @ [c]) ptr = Inl (err, pos) \<Longrightarrow> suffix pos (c # ptr)"
      "scanStringBody (acc @ [c]) ptr = Inr (t, r') \<Longrightarrow> strict_suffix r' (c # ptr)"
      if "c \<noteq> CHR 0x22" "c \<noteq> CHR 0x00" for err pos t r'
      using 2(2) [OF False that] s by (blast intro: suffix_ConsI suffix_order.less_imp_le)+
    show ?thesis
      using False w ih by (cases "c = CHR 0x22"; cases "c = CHR 0x00") auto
  qed
qed simp

lemma scanString_suffix:
  "scanString s = Inl (err, pos) \<Longrightarrow> suffix pos s"
  "scanString s = Inr (t, r) \<Longrightarrow> strict_suffix r s"
  using scanStringBody_suffix [of "[]" "tl s"] suffix_tl [of s]
  by (auto simp: scanString_def split: if_splits intro: suffix_order.trans suffix_order.less_le_trans)

section \<open>The functions of the language\<close>

text \<open>
  What a function of the language relies on while it works on a text that is a suffix of
  \<open>p0\<close>, at depth \<open>d\<close>: the expression scanner leaves a shorter suffix, and, unless the text is
  only skipped, the invariant does not depend on the target and survives the definitions the
  text may register.
\<close>

locale scanning =
  fixes I :: "'w env \<Rightarrow> bool" and N :: bool and net :: "'w net" and scanE :: "'w scanner"
    and p0 :: string and d :: int and n :: nat
  assumes scan: "\<lbrakk>suffix p p0; length p < length p0; d' = d \<or> d' = -1\<rbrakk> \<Longrightarrow>
      triple I N (scanE p d') (\<lambda>(v, r). suffix r p0 \<and> length r < length p) (\<lambda>pos. suffix pos p0)"
    and frame: "\<lbrakk>d \<noteq> -1; I e; e_defs e' = e_defs e\<rbrakk> \<Longrightarrow> I e'"
    and register: "\<lbrakk>d \<noteq> -1; I e; sublist x p0 \<or> (\<exists>v. x = set_expansion v)\<rbrakk> \<Longrightarrow>
      I (e\<lparr>e_defs := snd (defs_registerLocal name x (e_defs e))\<rparr>)"
    and turns: "N \<or> length p0 \<le> n"
begin

abbreviation ok :: "(value_t \<times> string, 'w) ev \<Rightarrow> string \<Rightarrow> bool" where
  "ok m p \<equiv> triple I N m (\<lambda>(v, r). suffix r p0 \<and> length r < length p) (\<lambda>pos. suffix pos p0)"

lemma expect:
  "\<lbrakk>suffix p p0; c \<noteq> CHR 0x00\<rbrakk> \<Longrightarrow>
    triple I N (expectE c p) (\<lambda>r. suffix r p0 \<and> length r < length p) (\<lambda>pos. suffix pos p0)"
  by (rule triple_expect) (auto dest: suffix_length_less suffix_order.less_imp_le intro: suffix_order.trans)

lemma skip_comma:
  "\<lbrakk>suffix p p0; peek p \<noteq> CHR 0x00\<rbrakk> \<Longrightarrow>
    suffix (scanWhitespace (tl p)) p0 \<and> length (scanWhitespace (tl p)) < length p"
  using strict_suffix_skip [of p] by (auto dest: suffix_length_less suffix_order.less_imp_le intro: suffix_order.trans)

text \<open>The effects.\<close>

lemma target_ok:
  assumes "d \<noteq> -1" and "suffix p p0"
  shows "triple I N (targetRead net a k p) (\<lambda>_. True) (\<lambda>pos. suffix pos p0)"
    and "triple I N (targetWrite net a v k p) (\<lambda>_. True) (\<lambda>pos. suffix pos p0)"
    and "triple I N (targetPreload net a v p) (\<lambda>_. True) (\<lambda>pos. suffix pos p0)"
  using assms frame
  by (auto simp: triple_def targetRead_def targetWrite_def targetPreload_def split: bus_result.splits prod.splits)

lemma preloadedRead_ok:
  "\<lbrakk>d \<noteq> -1; suffix p p0\<rbrakk> \<Longrightarrow>
    triple I N (preloadedRead net b a k p) (\<lambda>_. True) (\<lambda>pos. suffix pos p0)"
  using target_ok(1) [of p a k]
  by (auto simp: triple_def preloadedRead_def split: preload_result.splits)

lemma emit_ok: "d \<noteq> -1 \<Longrightarrow> triple I N (emit ev) (\<lambda>_. True) (\<lambda>pos. suffix pos p0)"
  using frame by (auto simp: triple_def emit_def modifyE_def)

lemma register_ok:
  "\<lbrakk>d \<noteq> -1; sublist x p0 \<or> (\<exists>v. x = set_expansion v)\<rbrakk> \<Longrightarrow>
    triple I N (register_local name x) (\<lambda>_. True) E"
  using register by (auto simp: triple_def register_local_def)

lemma when_ok:
  "(d \<noteq> -1 \<Longrightarrow> triple I N m (\<lambda>_. True) E) \<Longrightarrow>
    triple I N (if d \<noteq> -1 then m else returnE ()) (\<lambda>_. True) E"
  by (auto intro: triple_return)

lemmas steps = triple_return triple_fail triple_bind [OF scan] triple_bind [OF expect]
  triple_bind [OF preloadedRead_ok] triple_bind [OF target_ok(2)] triple_bind [OF target_ok(3)]
  triple_bind [OF when_ok] emit_ok

lemma fn_read_ok: "\<lbrakk>suffix p p0; length p < length p0\<rbrakk> \<Longrightarrow> ok (fn_read net scanE name p d) p"
  unfolding fn_read_def by (auto intro!: steps simp: Let_def split: prod.split)

lemma fn_write_ok: "\<lbrakk>suffix p p0; length p < length p0\<rbrakk> \<Longrightarrow> ok (fn_write net scanE name p d) p"
  unfolding fn_write_def by (auto intro!: steps simp: Let_def)

lemma fn_preload_ok: "\<lbrakk>suffix p p0; length p < length p0\<rbrakk> \<Longrightarrow> ok (fn_preload net scanE p d) p"
  unfolding fn_preload_def by (auto intro!: steps)

lemma fn_delay_ms_ok: "\<lbrakk>suffix p p0; length p < length p0\<rbrakk> \<Longrightarrow> ok (fn_delay_ms scanE p d) p"
  unfolding fn_delay_ms_def by (auto intro!: steps)

lemma printf_loop_ok:
  "\<lbrakk>suffix p p0; length p < length p0\<rbrakk> \<Longrightarrow> triple I N (printf_loop scanE d spec start fmt p)
    (\<lambda>(_, r). suffix r p0 \<and> length r \<le> length p) (\<lambda>pos. suffix pos p0)"
proof (induction fmt arbitrary: spec start p)
  case (Cons c fmt)
  have next_ok: "triple I N (printf_loop scanE d spec start fmt q)
      (\<lambda>(_, r). suffix r p0 \<and> length r \<le> length p) (\<lambda>pos. suffix pos p0)"
    if "suffix q p0" "length q \<le> length p" for q spec start
    by (rule triple_mono [OF Cons.IH [OF that(1)]]) (use that(2) Cons.prems in auto)
  then show ?case
    using Cons.prems by (auto intro!: steps next_ok)
qed (auto intro: triple_return triple_fail)

lemma fn_printf_ok: "\<lbrakk>suffix p p0; length p < length p0\<rbrakk> \<Longrightarrow> ok (fn_printf scanE p d) p"
proof -
  assume p: "suffix p p0" "length p < length p0"
  have pos: "scanString p = Inl (err, pos) \<Longrightarrow> suffix pos p0" for err pos
    using scanString_suffix(1) p(1) by (blast intro: suffix_order.trans)
  have rest: "suffix r p0 \<and> length r < length p" if "scanString p = Inr (t, r)" for t r
    using scanString_suffix(2) [OF that] p(1)
    by (auto dest: suffix_length_less suffix_order.less_imp_le intro: suffix_order.trans)
  show ?thesis
    unfolding fn_printf_def using p(2)
    by (auto intro!: steps triple_bind [OF printf_loop_ok] dest: pos rest split: sum.split)
qed

lemma fn_def_ok: "\<lbrakk>suffix p p0; length p < length p0\<rbrakk> \<Longrightarrow> ok (fn_def scanE b p d) p"
proof -
  assume p: "suffix p p0" "length p < length p0"
  have name: "suffix r p0 \<and> length r < length p" if "scanIdentifier p = Some (t, r)" for t r
    using scanIdentifier_suffix [OF that] p(1)
    by (auto dest: suffix_length_less suffix_order.less_imp_le intro: suffix_order.trans)
  have part: "sublist (take k q) p0" if "suffix q p0" for k q
    using that sublist_take suffix_imp_sublist by (blast intro: sublist_order.order.trans)
  show ?thesis
    unfolding fn_def_def Let_def
    using p
    by (auto intro!: steps register_ok part dest!: name
        split: option.split)
qed

lemma fn_if_ok: "\<lbrakk>suffix p p0; length p < length p0\<rbrakk> \<Longrightarrow> ok (fn_if scanE p d) p"
proof -
  assume p: "suffix p p0" "length p < length p0"
  have else_ok: "triple I N (if peek q = CHR '','' then
        bindE (scanE (scanWhitespace (tl q)) (if c then -1 else d)) (\<lambda>(v2, r). returnE (if c then v1 else v2, r))
      else returnE (if c then v1 else zero_value, q))
      (\<lambda>(_, r). suffix r p0 \<and> length r \<le> length q) (\<lambda>pos. suffix pos p0)"
    if "suffix q p0" "length q < length p0" for q c v1
    using skip_comma [OF that(1)] that by (auto intro!: steps)
  show ?thesis
    unfolding fn_if_def Let_def
    using p by (auto intro!: steps triple_bind [OF else_ok])
qed

lemma prioritize_loop_ok:
  "\<lbrakk>suffix p p0; N \<or> length p < m; length p < length p0\<rbrakk> \<Longrightarrow> ok (prioritize_loop m scanE d done v p) p"
proof (induction m arbitrary: p v "done")
  case (Suc m)
  have comma: "suffix (scanWhitespace (tl q)) p0" "length (scanWhitespace (tl q)) < length q"
    if "suffix q p0" "peek q = CHR '',''" for q
    using skip_comma [OF that(1)] that(2) by simp_all
  have next_ok: "ok (prioritize_loop m scanE d done v q) p"
    if "suffix q p0" "length q < length p" for q v "done"
    by (rule triple_mono [OF Suc.IH [OF that(1)]]) (use that(2) Suc.prems(2,3) in auto)
  show ?case
    using Suc.prems(1,3)
    by (auto intro!: steps next_ok comma(1) simp: Let_def) (frule (1) comma(2), linarith)+
qed (simp add: triple_stop)

lemma fn_prioritize_ok:
  "\<lbrakk>suffix p p0; length p < length p0\<rbrakk> \<Longrightarrow> ok (fn_prioritize n scanE p d) p"
  unfolding fn_prioritize_def
  using turns by (auto intro!: steps triple_bind [OF prioritize_loop_ok])

lemma while_loop_ok:
  assumes "N" and "suffix p p0" "suffix q p0" "length p < length p0" "length q < length p0"
  shows "triple I N (while_loop m scanE d v p q) (\<lambda>_. True) (\<lambda>pos. suffix pos p0)"
proof -
  have N: "N = True" using assms(1) by simp
  note steps_N = steps [unfolded N]
  show ?thesis
    unfolding N using assms(2-)
    by (induction m arbitrary: v) (auto intro!: steps_N simp: triple_stop)
qed

lemma fn_while_ok: "\<lbrakk>N \<or> d = -1; suffix p p0; length p < length p0\<rbrakk> \<Longrightarrow> ok (fn_while n scanE p d) p"
proof (cases "d = -1")
  case False
  assume "N \<or> d = -1" and p: "suffix p p0" "length p < length p0"
  with False have N: "N = True" by simp
  note steps_N = steps [unfolded N]
  show ?thesis
    unfolding fn_while_def N using p
    by (auto intro!: steps_N triple_bind [OF while_loop_ok [unfolded N, OF TrueI]])
qed (auto intro!: steps simp: fn_while_def)

lemma call_function_ok:
  assumes "suffix p p0" "length p < length p0" and "suffix s p0" and "N \<or> d = -1 \<or> name \<noteq> ''while''"
  shows "ok (call_function net n scanE name s p d) p"
  unfolding call_function_def
  by (intro triple_if fn_read_ok fn_write_ok fn_preload_ok fn_printf_ok fn_def_ok fn_if_ok
      fn_prioritize_ok fn_while_ok fn_delay_ms_ok triple_fail assms(1-3)) (use assms(4) in simp)

end

section \<open>Operands and expressions\<close>

text \<open>The operand scanner also calls itself, and at a definition it scans the expansion.\<close>

locale operand_scanning = scanning I N net scanE p0 d n
  for I :: "'w env \<Rightarrow> bool" and N net scanE p0 d n +
  fixes scanO :: "'w scanner"
  assumes operand: "\<lbrakk>suffix p p0; length p < length p0\<rbrakk> \<Longrightarrow>
      triple I N (scanO p d) (\<lambda>(v, r). suffix r p0 \<and> length r < length p) (\<lambda>pos. suffix pos p0)"
    and expansion: "\<lbrakk>d \<noteq> -1; d \<noteq> 0; I e; defs_expand name (e_defs e) = Some x\<rbrakk> \<Longrightarrow>
      triple I N (scanE x (d - 1)) (\<lambda>_. True) (\<lambda>_. True)"
    and no_loops: "N \<or> d = -1 \<or> \<not> sublist ''while'' p0"
begin

lemma expand_definition_ok:
  assumes "suffix s p0" and "suffix q p0" and "length q < length p"
  shows "ok (expand_definition scanE name s q d) p"
  unfolding triple_def
proof (intro allI impI)
  fix e assume I: "I e"
  show "I (snd (expand_definition scanE name s q d e)) \<and>
    (case fst (expand_definition scanE name s q d e) of Ret (v, r) \<Rightarrow> suffix r p0 \<and> length r < length p
      | Fail err pos \<Rightarrow> suffix pos p0 | NoFuel \<Rightarrow> N | _ \<Rightarrow> True)"
  proof (cases "d = -1 \<or> d = 0 \<or> defs_expand name (e_defs e) = None")
    case True
    with I assms show ?thesis by (auto simp: expand_definition_def split: option.split)
  next
    case False
    then obtain x where x: "defs_expand name (e_defs e) = Some x" "d \<noteq> -1" "d \<noteq> 0" by auto
    let ?m = "bindE (scanE x (d - 1)) (\<lambda>(v, _). returnE (v, q))"
    obtain r e' where r: "?m (scan_record name e) = (r, e')" by force
    have I': "I (scan_record name e)" using frame [OF x(2) I] by (simp add: scan_record_def)
    have "triple I N ?m (\<lambda>(v, r). r = q) (\<lambda>_. True)"
      using expansion [OF x(2,3) I x(1)] by (auto intro: triple_bind triple_return)
    with r I' have e': "I e'" and "case r of Ret (v, r) \<Rightarrow> r = q | NoFuel \<Rightarrow> N | _ \<Rightarrow> True"
      unfolding triple_def by (fastforce split: res.splits)+
    moreover have "I (e'\<lparr>e_scanned := e_scanned e\<rparr>)" using frame [OF x(2) e'] by simp
    ultimately show ?thesis using x r assms
      by (cases r) (auto simp: expand_definition_def relocate_def)
  qed
qed

lemma unary_ok:
  "peek p0 \<noteq> CHR 0x00 \<Longrightarrow> ok (unary f scanO p0 d) p0"
  unfolding unary_def
  using skip_comma [of p0] by (auto intro!: triple_bind [OF operand] triple_return)

lemma operand_body_ok: "ok (operand_body net n scanO scanE p0 d) p0"
proof -
  have paren: "peek p0 = CHR ''('' \<Longrightarrow> ok (bindE (scanE (scanWhitespace (tl p0)) d)
      (\<lambda>(v, ptr). bindE (expectE (CHR '')'') ptr) (\<lambda>ptr. returnE (v, ptr)))) p0"
    using skip_comma [of p0] by (auto intro!: steps)
  have literal: "ok (case scanLiteral p0 of None \<Rightarrow> failE InvalidLiteral p0
      | Some (v, ptr) \<Rightarrow> returnE (v, ptr)) p0"
    by (auto intro!: triple_return triple_fail split: option.split
        dest!: scanLiteral_suffix dest: suffix_length_less suffix_order.less_imp_le)
  have name: "ok (if peek q = CHR ''(''
      then call_function net n scanE name p0 (scanWhitespace (tl q)) d
      else expand_definition scanE name p0 q d) p0" if "scanIdentifier p0 = Some (name, q)" for name q
  proof -
    from scanIdentifier_suffix [OF that] have q: "suffix q p0" "length q < length p0" "prefix name p0"
      by (auto dest: suffix_length_less suffix_order.less_imp_le)
    have "N \<or> d = -1 \<or> name \<noteq> ''while''"
      using no_loops prefix_imp_sublist [OF q(3)] by auto
    moreover have r: "suffix (scanWhitespace (tl q)) p0" "length (scanWhitespace (tl q)) < length p0"
      if "peek q = CHR ''(''"
      using skip_comma [OF q(1)] q(2) that by auto
    ultimately have "ok (call_function net n scanE name p0 (scanWhitespace (tl q)) d) p0"
      if "peek q = CHR ''(''"
      using r [OF that] by (intro triple_mono [OF call_function_ok [OF r [OF that]]]) auto
    with expand_definition_ok [OF _ q(1,2)] show ?thesis by simp
  qed
  show ?thesis
    unfolding operand_body_def
    using paren literal name
    by (auto intro!: unary_ok triple_fail split: option.split)
qed

lemma expression_body_ok:
  assumes "triple I N (scanO p0 d) (\<lambda>(v, r). suffix r p0 \<and> length r < length p0) (\<lambda>pos. suffix pos p0)"
  shows "ok (expression_body scanO scanE p0 d) p0"
proof -
  have op: "suffix r p0 \<and> length r < length q" if "scanOperator q = Some (o1, r)" "suffix q p0" for q o1 r
    using scanOperator_suffix [OF that(1)] that(2)
    by (auto dest: suffix_length_less suffix_order.less_imp_le intro: suffix_order.trans)
  show ?thesis
    unfolding expression_body_def
    by (auto intro!: triple_bind [OF assms] steps triple_stop split: option.split dest!: op)
qed

end

section \<open>The two scanners\<close>

text \<open>
  What an invariant has to promise: it is about the definition store, it survives registering
  an acceptable text, it keeps every expansion acceptable, and parts of acceptable texts and
  the literals of \<open>set\<close> are acceptable. When running out of fuel is to be excluded, acceptable
  texts are of bounded length and do not loop.
\<close>

locale env_invariant =
  fixes I :: "'w env \<Rightarrow> bool" and ok_text :: "string \<Rightarrow> bool" and N :: bool and L :: nat
  assumes frame: "\<lbrakk>I e; e_defs e' = e_defs e\<rbrakk> \<Longrightarrow> I e'"
    and register: "\<lbrakk>I e; ok_text x\<rbrakk> \<Longrightarrow>
      I (e\<lparr>e_defs := snd (defs_registerLocal name x (e_defs e))\<rparr>)"
    and expanded: "\<lbrakk>I e; defs_expand name (e_defs e) = Some x\<rbrakk> \<Longrightarrow> ok_text x"
    and part: "\<lbrakk>ok_text y; sublist x y\<rbrakk> \<Longrightarrow> ok_text x"
    and value_text: "ok_text (set_expansion v)"
    and bounded: "N \<or> (\<forall>x. ok_text x \<longrightarrow> length x \<le> L \<and> \<not> sublist ''while'' x)"
begin
end

text \<open>The fuel that is enough for a text of a given length at a given depth.\<close>

definition need :: "nat \<Rightarrow> int \<Rightarrow> nat \<Rightarrow> nat" where
  "need L d len = nat d * (2 * L + 3) + 2 * len + 2"

lemma scanners_ok:
  fixes p :: string
  assumes "d = -1 \<or> 0 \<le> d \<and> env_invariant I ok_text N L \<and> ok_text p"
  shows "(N \<or> need L d (length p) \<le> Suc n \<longrightarrow> triple I N (scanOperand net n p d)
      (\<lambda>(v, r). suffix r p \<and> length r < length p) (\<lambda>pos. suffix pos p)) \<and>
    (N \<or> need L d (length p) \<le> n \<longrightarrow> triple I N (scanExpression net n p d)
      (\<lambda>(v, r). suffix r p \<and> length r < length p) (\<lambda>pos. suffix pos p))"
  using assms
proof (induction n arbitrary: p d)
  case 0
  then show ?case by (auto simp: need_def triple_stop)
next
  case (Suc n)
  let ?C = "env_invariant I ok_text N L"
  have sub: "d' = -1 \<or> 0 \<le> d' \<and> ?C \<and> ok_text q" if "suffix q p" "d' = d \<or> d' = -1" for q d'
    using Suc.prems env_invariant.part suffix_imp_sublist [OF that(1)] that(2) by blast
  have step: "triple I N (scanExpression net n q d') (\<lambda>(v, r). suffix r p \<and> length r < length q) (\<lambda>pos. suffix pos p) \<and>
      triple I N (scanOperand net n q d') (\<lambda>(v, r). suffix r p \<and> length r < length q) (\<lambda>pos. suffix pos p)"
    if "suffix q p" "length q < length p" "d' = d \<or> d' = -1" "N \<or> need L d (length p) \<le> Suc (Suc n)" for q d'
  proof -
    have "N \<or> need L d' (length q) \<le> n" using that(2-4) by (auto simp: need_def)
    with Suc.IH [OF sub [OF that(1,3)]] show ?thesis
      using that(1) by (auto elim!: triple_mono intro: suffix_order.trans)
  qed
  have expansion: "triple I N (scanExpression net n x (d - 1)) (\<lambda>_. True) (\<lambda>_. True)"
    if "d \<noteq> -1" "d \<noteq> 0" "I e" "defs_expand name (e_defs e) = Some x" "N \<or> need L d (length p) \<le> Suc (Suc n)"
    for e name x
  proof -
    from that Suc.prems have C: ?C "ok_text x" "0 \<le> d - 1" using env_invariant.expanded by auto
    have "N \<or> need L (d - 1) (length x) \<le> n"
    proof (cases N)
      case False
      with C env_invariant.bounded have "length x \<le> L" by blast
      moreover have "nat d = Suc (nat (d - 1))" using C(3) by simp
      ultimately show ?thesis using False that(5) by (simp add: need_def)
    qed simp
    with Suc.IH [of "d - 1" x] C show ?thesis by (auto elim: triple_mono)
  qed
  have S: "operand_scanning I N (scanExpression net n) p d n (scanOperand net n)"
    if f: "N \<or> need L d (length p) \<le> Suc (Suc n)"
  proof
    show "d \<noteq> - 1 \<Longrightarrow> I e \<Longrightarrow> e_defs e' = e_defs e \<Longrightarrow> I e'" for e e'
      using Suc.prems env_invariant.frame by blast
    show "d \<noteq> - 1 \<Longrightarrow> I e \<Longrightarrow> sublist x p \<or> (\<exists>v. x = set_expansion v) \<Longrightarrow>
        I (e\<lparr>e_defs := snd (defs_registerLocal name x (e_defs e))\<rparr>)" for e x name
      using Suc.prems env_invariant.register env_invariant.part env_invariant.value_text by blast
    show "N \<or> length p \<le> n" using f by (auto simp: need_def)
    show "N \<or> d = - 1 \<or> \<not> sublist ''while'' p" using Suc.prems env_invariant.bounded by blast
  qed (use step expansion f in blast)+
  show ?case
    using operand_scanning.operand_body_ok [OF S] operand_scanning.expression_body_ok [OF S]
      Suc.IH [OF Suc.prems] by auto
qed

end
