(* ===== verification/Parser_Facts.thy ===== *)
theory Parser_Facts
  imports Parser_Logic Rvsrv_Server
begin

text \<open>
  What holds of every run of the evaluator, over the logic of \<open>Parser_Logic\<close>: errors are
  located inside the evaluated text, the definition store stays well formed, a syntax check
  (depth \<open>-1\<close>) has no effect and always ends, an evaluation without \<open>while\<close> always ends, and
  circular definitions end in an error.
\<close>

section \<open>The invariants the evaluator keeps\<close>

interpretation store_wf: env_invariant "\<lambda>e. table_wf (e_defs e)" "\<lambda>_. True" True 0
  by unfold_locales (auto simp: defs_registerLocal_def defs_register_wf)

text \<open>Registering a name changes what names expand to at most to the new text.\<close>

lemma chain_register_expand:
  "chain_expand b (chain_register m x c) \<in> {Some x, chain_expand b c}"
proof -
  have "chain_expand b (chain_override m x c) \<in> {Some x, chain_expand b c}" for c
    by (induction c) (auto split: if_splits)
  then show ?thesis by (auto simp: chain_register_def)
qed

lemma defs_register_expand:
  "defs_expand name (snd (defs_register m d x t)) \<in> {Some x, defs_expand name t}"
  using chain_register_expand [of "context_bit (currentContext t)" m x "table_chain t d"]
    table_chain_register [of m d x t]
  by (auto simp: defs_expand_chain table_register_def)

text \<open>The texts without loops and their stores.\<close>

definition loop_free :: "nat \<Rightarrow> string \<Rightarrow> bool" where
  "loop_free L x \<longleftrightarrow> length x \<le> L + 10 \<and> \<not> sublist ''while'' x"

definition expansions_loop_free :: "nat \<Rightarrow> 'w env \<Rightarrow> bool" where
  "expansions_loop_free L e \<longleftrightarrow>
     (\<forall>name x. defs_expand name (e_defs e) = Some x \<longrightarrow> loop_free L x)"

lemma set_expansion_loop_free: "loop_free L (set_expansion v)"
proof -
  have "CHR ''w'' \<notin> set (hexU 8 k)" for k
    using hexU_xdigits [of "CHR ''w''" 8 k] by (auto simp: ctype_defs)
  then have "\<not> sublist ''while'' (set_expansion v)"
    by (auto simp: set_expansion_def dest: set_mono_sublist)
  then show ?thesis by (simp add: loop_free_def set_expansion_def)
qed

interpretation no_loops: env_invariant "expansions_loop_free L :: 'w env \<Rightarrow> bool" "loop_free L" False "L + 10" for L
proof
  fix e :: "'w env" and x name
  assume I: "expansions_loop_free L e" and x: "loop_free L x"
  have "defs_expand d (snd (defs_registerLocal name x (e_defs e))) \<in> {Some x, defs_expand d (e_defs e)}" for d
    using defs_register_expand by (simp add: defs_registerLocal_def)
  then show "expansions_loop_free L (e\<lparr>e_defs := snd (defs_registerLocal name x (e_defs e))\<rparr>)"
    using I x unfolding expansions_loop_free_def by simp (metis option.inject)
next
  fix x y assume "loop_free L y" "sublist x y"
  then show "loop_free L x"
    using sublist_length_le [of x y] by (auto simp: loop_free_def intro: sublist_order.order.trans)
qed (use set_expansion_loop_free [where L = L] in
    \<open>auto simp: expansions_loop_free_def loop_free_def\<close>)

text \<open>The scanners themselves as the provider of the interface the functions rely on.\<close>

interpretation syntax_check:
  operand_scanning "\<lambda>e. e = e0" True net "scanExpression net n" p "-1" n "scanOperand net n"
  for e0 :: "'w env" and net :: "'w net" and n p
proof
  have scan: "triple (\<lambda>e. e = e0) True (scanExpression net n q (-1))
      (\<lambda>(v, r). suffix r p \<and> length r < length q) (\<lambda>pos. suffix pos p)"
    and operand: "triple (\<lambda>e. e = e0) True (scanOperand net n q (-1))
      (\<lambda>(v, r). suffix r p \<and> length r < length q) (\<lambda>pos. suffix pos p)"
    if "suffix q p" for q
    using scanners_ok [of "-1" "\<lambda>e. e = e0" "\<lambda>_. True" True 0 q n net] that
    by (auto elim!: triple_mono intro: suffix_order.trans)
  show "triple (\<lambda>e. e = e0) True (scanExpression net n q d')
      (\<lambda>(v, r). suffix r p \<and> length r < length q) (\<lambda>pos. suffix pos p)"
    if "suffix q p" "d' = -1 \<or> d' = -1" for q and d' :: int
    using scan that by simp
  show "triple (\<lambda>e. e = e0) True (scanOperand net n q (-1))
      (\<lambda>(v, r). suffix r p \<and> length r < length q) (\<lambda>pos. suffix pos p)"
    if "suffix q p" for q
    using operand that by simp
qed simp_all

interpretation evaluation:
  scanning "\<lambda>e. table_wf (e_defs e)" True net "scanExpression net n" p "int k" n
  for net :: "'w net" and n p k
proof
  fix q and d' :: int assume q: "suffix q p" "d' = int k \<or> d' = -1"
  then have "d' = -1 \<or> 0 \<le> d' \<and> env_invariant (\<lambda>e :: 'w env. table_wf (e_defs e)) (\<lambda>_. True) True 0 \<and> True"
    using store_wf.env_invariant_axioms by auto
  from scanners_ok [OF this, where n = n and net = net and p = q]
  show "triple (\<lambda>e. table_wf (e_defs e)) True (scanExpression net n q d')
      (\<lambda>(v, r). suffix r p \<and> length r < length q) (\<lambda>pos. suffix pos p)"
    using q(1) by (auto elim!: triple_mono intro: suffix_order.trans)
qed (simp_all add: defs_registerLocal_def defs_register_wf)

section \<open>Properties\<close>

lemma scanExpression_checked:
  "triple (\<lambda>e. e = e0) True (scanExpression net n p (-1)) (\<lambda>(v, r). suffix r p \<and> length r < length p) (\<lambda>pos. suffix pos p)"
  using scanners_ok [of "-1" "\<lambda>e. e = e0" "\<lambda>_. True" True 0 p n net] by simp

text \<open>
  C19. Scanning an expression at depth -1, the way the text of definitions, untaken branches and
  loops is checked, changes nothing: no definition, no preload, no access to the target, no output.
\<close>

theorem syntax_check_has_no_effect:
  "snd (scanExpression net n p (-1) e) = e"
  using scanExpression_checked [of e net n p] by (simp add: triple_def)

text \<open>
  A syntax check always ends: with two steps per character it is never out of fuel, on any
  text and in any state, loops included.
\<close>

theorem syntax_check_terminates:
  assumes "2 * length p + 2 \<le> n"
  shows "fst (scanExpression net n p (-1) e) \<noteq> NoFuel"
  using scanners_ok [of "-1" "\<lambda>_. True" "\<lambda>_. True" False 0 p n net] assms
  by (auto simp: triple_def need_def split: res.splits)

lemma evaluate_triple:
  assumes "env_invariant I ok_text N L" and "ok_text str" and "N \<or> need L 256 (length str) \<le> n"
  shows "triple I N (evaluate net n str) (\<lambda>_. True) (\<lambda>pos. suffix pos str)"
proof -
  let ?p = "scanWhitespace str"
  have p: "suffix ?p str" by (rule scanWhitespace_suffix')
  then have "ok_text ?p" "length ?p \<le> length str"
    using assms(1,2) env_invariant.part suffix_imp_sublist suffix_length_le by blast+
  with assms have "triple I N (scanExpression net n ?p 256)
      (\<lambda>(v, r). suffix r ?p \<and> length r < length ?p) (\<lambda>pos. suffix pos ?p)"
    using scanners_ok [of 256 I ok_text N L ?p n net] by (auto simp: need_def)
  then have "triple I N (scanExpression net n ?p 256) (\<lambda>(v, r). suffix r str) (\<lambda>pos. suffix pos str)"
    using p by (auto elim!: triple_mono intro: suffix_order.trans)
  then show ?thesis
    unfolding evaluate_def by (auto intro!: triple_bind triple_fail triple_return)
qed

text \<open>
  C6. Every evaluation keeps the definition store well formed, and whenever it fails, the
  position of the error is a position in the text that was given to evaluate (and not in an
  expansion), which is what printing the error subtracts pointers for.
\<close>

theorem evaluate_keeps_store_and_locates_errors:
  assumes "table_wf (e_defs e)"
  shows "table_wf (e_defs (snd (evaluate net n str e))) \<and>
    (\<forall>err pos. fst (evaluate net n str e) = Fail err pos \<longrightarrow> suffix pos str)"
  using evaluate_triple [OF store_wf.env_invariant_axioms, of str n net] assms
  by (auto simp: triple_def split: res.splits)

text \<open>
  C5. An evaluation always ends when neither the text nor any definition it can reach contains
  a loop, however the definitions refer to each other: with the given fuel, linear in the size
  of the texts, it returns a value, an error, or stops at an undefined operation.
\<close>

theorem evaluate_terminates:
  assumes "expansions_loop_free L e" and "loop_free L str" and "257 * (2 * L + 23) \<le> n"
  shows "fst (evaluate net n str e) \<noteq> NoFuel"
proof -
  have "length str \<le> L + 10" using assms(2) by (simp add: loop_free_def)
  then have "need (L + 10) 256 (length str) \<le> n" using assms(3) by (simp add: need_def)
  with evaluate_triple [OF no_loops.env_invariant_axioms, of L str n net] assms(1,2) show ?thesis
    by (auto simp: triple_def split: res.splits)
qed

definition demo_env :: "server env" where
  "demo_env = \<lparr>e_defs = initial_defs, e_preload = initial_preload, e_world = demo_server, e_out = [], e_scanned = []\<rparr>"

lemma demo_env_wf: "table_wf (e_defs demo_env)" "defs_expand name (e_defs demo_env) = None"
  by (simp_all add: demo_env_def initial_defs_def table_wf_def defs_expand_def)

theorem syntax_check_terminates_witness:
  "fst (scanExpression server_net 30 ''while(1,x)'' (-1) demo_env) \<noteq> NoFuel"
  by (rule syntax_check_terminates) simp

theorem evaluate_keeps_store_and_locates_errors_witness:
  "table_wf (e_defs (snd (evaluate server_net 99 ''set(A, 1 + 2)'' demo_env)))"
  using evaluate_keeps_store_and_locates_errors [OF demo_env_wf(1)] by blast

theorem evaluate_terminates_witness:
  "fst (evaluate server_net 20000 ''def(A, A + 1); A'' demo_env) \<noteq> NoFuel"
proof (rule evaluate_terminates [where L = 8])
  show "expansions_loop_free 8 demo_env"
    by (simp add: expansions_loop_free_def demo_env_wf)
  show "loop_free 8 ''def(A, A + 1); A''"
    by (simp add: loop_free_def sublist_Cons_right)
qed simp

section \<open>Circular definitions\<close>

text \<open>A text whose first operand is a name of \<open>S\<close>, and a set of names that never leaves itself.\<close>

definition leads_to :: "string set \<Rightarrow> string \<Rightarrow> bool" where
  "leads_to S x \<longleftrightarrow> (\<exists>t r. scanIdentifier x = Some (t, r) \<and> peek r \<noteq> CHR ''('' \<and> t \<in> S)"

definition circular :: "string set \<Rightarrow> 'w env \<Rightarrow> bool" where
  "circular S e \<longleftrightarrow> (\<forall>s \<in> S. \<exists>x. defs_expand s (e_defs e) = Some x \<and> leads_to S x)"

lemma scanIdentifier_peek:
  "scanIdentifier x = Some (t, r) \<Longrightarrow> isident (peek x) \<and> \<not> isdigit (peek x)"
  by (cases x) (auto simp: scanIdentifier_def Let_def split: if_splits)

lemma not_ident [simp]:
  "\<not> isident (CHR ''-'')" "\<not> isident (CHR ''~'')" "\<not> isident (CHR ''!'')" "\<not> isident (CHR ''('')"
  by (simp_all add: ctype_defs)

lemma operand_definition:
  assumes "scanIdentifier x = Some (t, r)" and "peek r \<noteq> CHR ''(''"
  shows "operand_body net n scanO scanE x d = expand_definition scanE t x r d"
proof -
  from scanIdentifier_peek [OF assms(1)] have "isident (peek x)" "\<not> isdigit (peek x)" by simp_all
  then have "peek x \<notin> {CHR ''-'', CHR ''~'', CHR ''!'', CHR ''(''}" by auto
  with assms \<open>\<not> isdigit (peek x)\<close> show ?thesis by (simp add: operand_body_def)
qed

lemma circular_scan: "circular S e \<Longrightarrow> circular S (scan_record name e)"
  by (simp add: circular_def scan_record_def)

lemma circular_expansion:
  "\<lbrakk>circular S e; leads_to S x; 2 * k + 2 \<le> n\<rbrakk> \<Longrightarrow>
    \<exists>t \<in> S. scanExpression net n x (int k) e = (Fail (TooManyExpansions t) x, e)"
proof (induction k arbitrary: n x e)
  case 0
  then obtain t r where t: "scanIdentifier x = Some (t, r)" "peek r \<noteq> CHR ''(''" "t \<in> S"
    by (auto simp: leads_to_def)
  moreover obtain m where "n = Suc (Suc m)" using 0(3) by (cases n; cases "n - 1") auto
  ultimately show ?case using 0(1)
    by (force simp: circular_def operand_definition expand_definition_def expression_body_def bindE_def)
next
  case (Suc k)
  from Suc.prems(2) obtain t r where t: "scanIdentifier x = Some (t, r)" "peek r \<noteq> CHR ''(''" "t \<in> S"
    by (auto simp: leads_to_def)
  obtain m where n: "n = Suc (Suc m)" "2 * k + 2 \<le> m"
    using Suc.prems(3) by (cases n; cases "n - 1") auto
  from Suc.prems(1) t(3) obtain y where y: "defs_expand t (e_defs e) = Some y" "leads_to S y"
    by (auto simp: circular_def)
  let ?e = "scan_record t e"
  from Suc.IH [OF circular_scan [OF Suc.prems(1)] y(2) n(2)] obtain u where
    u: "u \<in> S" "scanExpression net m y (int k) ?e = (Fail (TooManyExpansions u) y, ?e)" by blast
  have "scanOperand net (Suc m) x (1 + int k) e = (Fail (TooManyExpansions u) x, e)"
    using t y u(2) by (simp add: operand_definition expand_definition_def bindE_def relocate_def)
  then have "scanExpression net n x (1 + int k) e = (Fail (TooManyExpansions u) x, e)"
    by (simp add: n(1) expression_body_def bindE_def del: scanOperand.simps)
  with u(1) show ?case by auto
qed

text \<open>
  Circular definitions are reported and never hang: if every name of a set expands to a text
  that starts with a name of the set, evaluating such a text fails with the too-many-expansions
  error for one of them, at the start of the text, and changes nothing.
\<close>

theorem circular_definitions_are_reported:
  assumes "circular S e" and "leads_to S (scanWhitespace str)" and "514 \<le> n"
  shows "\<exists>t \<in> S. evaluate net n str e = (Fail (TooManyExpansions t) (scanWhitespace str), e)"
  using circular_expansion [OF assms(1,2), of 256 n net] assms(3)
  by (auto simp: evaluate_def bindE_def)

theorem circular_definitions_are_reported_witness:
  "\<exists>t \<in> {''A'', ''B''}. evaluate server_net 600 '' B'' (demo_env\<lparr>e_defs :=
      table_register 1 ''A'' ''B'' (table_register 1 ''B'' ''A + 1'' initial_defs)\<rparr>) =
    (Fail (TooManyExpansions t) ''B'', demo_env\<lparr>e_defs :=
      table_register 1 ''A'' ''B'' (table_register 1 ''B'' ''A + 1'' initial_defs)\<rparr>)"
proof -
  let ?e = "demo_env\<lparr>e_defs := table_register 1 ''A'' ''B'' (table_register 1 ''B'' ''A + 1'' initial_defs)\<rparr>"
  have l: "leads_to {''A'', ''B''} ''B''" "leads_to {''A'', ''B''} ''A + 1''"
    by (auto simp: leads_to_def scanIdentifier_def ctype_defs scanWhitespace_def)
  have "currentContext (table_register m d x t) = currentContext t" for m d x t
    by (simp add: table_register_def)
  moreover have "table_chain initial_defs = (\<lambda>_. [])" "currentContext initial_defs = 0"
    by (simp_all add: fun_eq_iff table_chain_def initial_defs_def)
  ultimately have "defs_expand ''A'' (e_defs ?e) = Some ''B''" "defs_expand ''B'' (e_defs ?e) = Some ''A + 1''"
    by (simp_all add: defs_expand_chain table_chain_register chain_register_def context_bit_def)
  with l have "circular {''A'', ''B''} ?e" by (auto simp: circular_def)
  from circular_definitions_are_reported [OF this, of "'' B''" 600 server_net] l
  show ?thesis by (simp add: scanWhitespace_def ctype_defs)
qed

end
