(* ===== verification/Parser_Meaning.thy ===== *)
theory Parser_Meaning
  imports Parser_Facts
begin

text \<open>
  The expression language of rvd as an abstract syntax with a meaning. The meaning knows nothing
  of texts being scanned, of the debug link or of its protocol: operators are those of the
  integers, results are taken modulo \<open>2 ^ 32\<close>, operands are evaluated from left to right, there
  is no precedence and every operator associates to the right, reads and writes act on a byte
  memory, definitions are expanded by name when they are used.

  A state of the meaning is a state of the evaluator whose world is the target memory.
\<close>

section \<open>Sizes and operators\<close>

text \<open>Access sizes are ordered by width, the undefined size being the smallest.\<close>

primrec size_rank :: "access_size \<Rightarrow> nat" where
  "size_rank AS_UNDEFINED = 0" | "size_rank AS_BYTE = 1" | "size_rank AS_HALF = 2"
| "size_rank AS_WORD = 4"

lemma size_rank_inject [simp]: "size_rank a = size_rank b \<longleftrightarrow> a = b"
  by (cases a; cases b) simp_all

instantiation access_size :: linorder
begin

definition less_eq_access_size :: "access_size \<Rightarrow> access_size \<Rightarrow> bool" where
  "less_eq_access_size a b \<longleftrightarrow> size_rank a \<le> size_rank b"

definition less_access_size :: "access_size \<Rightarrow> access_size \<Rightarrow> bool" where
  "less_access_size a b \<longleftrightarrow> size_rank a < size_rank b"

instance
  by standard (auto simp: less_eq_access_size_def less_access_size_def)

end

lemma mergeSize_max: "mergeSize a b = max a b"
  by (cases a; cases b) (simp_all add: mergeSize_def max_def less_eq_access_size_def)

text \<open>The exact result of an operator on unsigned values; a shift is defined below 32.\<close>

fun op_meaning :: "operator \<Rightarrow> int \<Rightarrow> int \<Rightarrow> int option" where
  "op_meaning OP_ADD a b = Some (a + b)"
| "op_meaning OP_SUB a b = Some (a - b)"
| "op_meaning OP_MUL a b = Some (a * b)"
| "op_meaning OP_DIV a b = Some (if b = 0 then 0 else a div b)"
| "op_meaning OP_MOD a b = Some (if b = 0 then 0 else a mod b)"
| "op_meaning OP_EQ a b = Some (of_bool (a = b))"
| "op_meaning OP_NEQ a b = Some (of_bool (a \<noteq> b))"
| "op_meaning OP_GT a b = Some (of_bool (b < a))"
| "op_meaning OP_GTE a b = Some (of_bool (b \<le> a))"
| "op_meaning OP_LT a b = Some (of_bool (a < b))"
| "op_meaning OP_LTE a b = Some (of_bool (a \<le> b))"
| "op_meaning OP_SHL a b = (if b < 32 then Some (a * 2 ^ nat b) else None)"
| "op_meaning OP_SHR a b = (if b < 32 then Some (a div 2 ^ nat b) else None)"
| "op_meaning OP_LAND a b = Some (of_bool (a \<noteq> 0 \<and> b \<noteq> 0))"
| "op_meaning OP_LOR a b = Some (of_bool (a \<noteq> 0 \<or> b \<noteq> 0))"
| "op_meaning OP_BAND a b = Some (a AND b)"
| "op_meaning OP_BOR a b = Some (a OR b)"
| "op_meaning OP_XOR a b = Some (a XOR b)"
| "op_meaning OP_SEP a b = Some b"

definition op_value :: "operator \<Rightarrow> value_t \<Rightarrow> value_t \<Rightarrow> value_t option" where
  "op_value o1 a b =
     map_option (\<lambda>k. mk_value (word_of_int k) (if o1 = OP_SEP then v_size b else max (v_size a) (v_size b)))
       (op_meaning o1 (uint (v_value a)) (uint (v_value b)))"

lemma apply_op_meaning:
  "apply_op o1 a b = map_option word_of_int (op_meaning o1 (uint a) (uint b))"
proof (cases o1)
  case OP_SHL
  then show ?thesis
    by (simp add: word_less_def push_bit_eq_mult nat_less_iff)
next
  case OP_SHR
  have "take_bit 32 (uint a) = uint a" by (rule take_bit_int_eq_self) (use uint_lt2p [of a] in simp_all)
  then have "uint a div 2 ^ unat b = uint (drop_bit (unat b) a)"
    by (simp only: unsigned_drop_bit_eq drop_bit_eq_div [of _ "uint a", symmetric]) simp
  with OP_SHR show ?thesis by (simp add: word_less_def)
next
  case OP_DIV then show ?thesis by (simp add: word_div_def word_uint_eq_iff [of b])
next
  case OP_MOD then show ?thesis by (simp add: word_mod_def word_uint_eq_iff [of b])
next
  case OP_BAND then show ?thesis by (simp flip: unsigned_and_eq)
next
  case OP_BOR then show ?thesis by (simp flip: unsigned_or_eq)
next
  case OP_XOR then show ?thesis by (simp flip: unsigned_xor_eq)
qed (simp_all add: of_cond_def word_less_def word_le_def word_uint_eq_iff)

lemma apply_op_value:
  "map_option (\<lambda>k. mk_value k (op_size o1 (v_size a) (v_size b))) (apply_op o1 (v_value a) (v_value b)) =
    op_value o1 a b"
  by (simp add: op_value_def apply_op_meaning op_size_def mergeSize_max option.map_comp comp_def)

section \<open>Abstract syntax\<close>

datatype unop = Neg | Inv | Not

text \<open>
  \<open>OWhen\<close> is \<open>if\<close> without the alternative; \<open>prioritize\<close> takes one or more pairs of a
  condition and an action.
\<close>

datatype operand = OLit value_t | OName string | OUnary unop operand | OParen expr
  | ORead access_size expr | OWrite access_size expr expr
  | OIf expr expr expr | OWhen expr expr | OPrioritize arms | OWhile expr expr
  | ODef string expr | OSet string expr | ODelay expr
and expr = EOne operand | EBin operand operator expr
and arms = ALast expr expr | AMore expr expr arms

fun unop_meaning :: "unop \<Rightarrow> int \<Rightarrow> int" where
  "unop_meaning Neg a = - a"
| "unop_meaning Inv a = - a - 1"
| "unop_meaning Not a = of_bool (a = 0)"

definition unop_value :: "unop \<Rightarrow> value_t \<Rightarrow> value_t" where
  "unop_value u v = v\<lparr>v_value := word_of_int (unop_meaning u (uint (v_value v)))\<rparr>"

text \<open>The names a definition can have.\<close>

definition name_ok :: "string \<Rightarrow> bool" where
  "name_ok name \<longleftrightarrow> name \<noteq> [] \<and> (\<forall>c \<in> set name. isident c) \<and> \<not> isdigit (hd name)"

section \<open>Text\<close>

primrec size_text :: "access_size \<Rightarrow> string" where
  "size_text AS_UNDEFINED = []" | "size_text AS_WORD = ''w''"
| "size_text AS_HALF = ''h''" | "size_text AS_BYTE = ''hh''"

definition lit_text :: "value_t \<Rightarrow> string" where
  "lit_text v = ''0x'' @ hexU 8 (unat (v_value v)) @ size_text (v_size v)"

definition op_text :: "operator \<Rightarrow> string" where
  "op_text o1 = the (map_of (map (\<lambda>(t, o2). (o2, t)) operator_table) o1)"

primrec unop_text :: "unop \<Rightarrow> char" where
  "unop_text Neg = CHR ''-''" | "unop_text Inv = CHR ''~''" | "unop_text Not = CHR ''!''"

primrec read_text :: "access_size \<Rightarrow> string" where
  "read_text AS_UNDEFINED = ''read''" | "read_text AS_WORD = ''readWord''"
| "read_text AS_HALF = ''readHalf''" | "read_text AS_BYTE = ''readByte''"

primrec write_text :: "access_size \<Rightarrow> string" where
  "write_text AS_UNDEFINED = ''write''" | "write_text AS_WORD = ''writeWord''"
| "write_text AS_HALF = ''writeHalf''" | "write_text AS_BYTE = ''writeByte''"

primrec operand_text :: "operand \<Rightarrow> string" and expr_text :: "expr \<Rightarrow> string"
  and arms_text :: "arms \<Rightarrow> string" where
  "operand_text (OLit v) = lit_text v"
| "operand_text (OName name) = name"
| "operand_text (OUnary u t) = unop_text u # operand_text t"
| "operand_text (OParen x) = CHR ''('' # expr_text x @ '')''"
| "operand_text (ORead sz x) = read_text sz @ CHR ''('' # expr_text x @ '')''"
| "operand_text (OWrite sz x y) = write_text sz @ CHR ''('' # expr_text x @ CHR '','' # expr_text y @ '')''"
| "operand_text (OIf c x y) = ''if('' @ expr_text c @ CHR '','' # expr_text x @ CHR '','' # expr_text y @ '')''"
| "operand_text (OWhen c x) = ''if('' @ expr_text c @ CHR '','' # expr_text x @ '')''"
| "operand_text (OPrioritize p) = ''prioritize('' @ arms_text p @ '')''"
| "operand_text (OWhile c x) = ''while('' @ expr_text c @ CHR '','' # expr_text x @ '')''"
| "operand_text (ODef name x) = ''def('' @ name @ CHR '','' # expr_text x @ '')''"
| "operand_text (OSet name x) = ''set('' @ name @ CHR '','' # expr_text x @ '')''"
| "operand_text (ODelay x) = ''delay_ms('' @ expr_text x @ '')''"
| "expr_text (EOne t) = operand_text t"
| "expr_text (EBin t o1 x) = operand_text t @ op_text o1 @ expr_text x"
| "arms_text (ALast c x) = expr_text c @ CHR '','' # expr_text x"
| "arms_text (AMore c x p) = expr_text c @ CHR '','' # expr_text x @ CHR '','' # arms_text p"

section \<open>Skipping\<close>

text \<open>
  A part of a program that is not executed is still scanned, and literals and operators are
  still computed in it. \<open>None\<close> is a part that cannot be skipped: a name that is none, or a
  shift by 32 or more between values that skipping makes up. Definitions count as 0 here and a
  read as its address.
\<close>

definition chosen :: "value_t option \<Rightarrow> value_t option \<Rightarrow> value_t option \<Rightarrow> value_t option" where
  "chosen c x y = Option.bind c (\<lambda>k. Option.bind x (\<lambda>v. Option.bind y (\<lambda>w.
     Some (if v_value k \<noteq> 0 then v else w))))"

primrec skip_operand :: "operand \<Rightarrow> value_t option" and skip_expr :: "expr \<Rightarrow> value_t option"
  and skip_arms :: "arms \<Rightarrow> bool \<Rightarrow> value_t \<Rightarrow> value_t option" where
  "skip_operand (OLit v) = Some v"
| "skip_operand (OName name) = (if name_ok name then Some zero_value else None)"
| "skip_operand (OUnary u t) = map_option (unop_value u) (skip_operand t)"
| "skip_operand (OParen x) = skip_expr x"
| "skip_operand (ORead sz x) = skip_expr x"
| "skip_operand (OWrite sz x y) = Option.bind (skip_expr x) (\<lambda>_. skip_expr y)"
| "skip_operand (OIf c x y) = chosen (skip_expr c) (skip_expr x) (skip_expr y)"
| "skip_operand (OWhen c x) = chosen (skip_expr c) (skip_expr x) (Some zero_value)"
| "skip_operand (OPrioritize p) = skip_arms p False zero_value"
| "skip_operand (OWhile c x) = Option.bind (skip_expr c) (\<lambda>_. map_option (\<lambda>_. zero_value) (skip_expr x))"
| "skip_operand (ODef name x) = (if name_ok name then map_option (\<lambda>_. zero_value) (skip_expr x) else None)"
| "skip_operand (OSet name x) = (if name_ok name then skip_expr x else None)"
| "skip_operand (ODelay x) = skip_expr x"
| "skip_expr (EOne t) = skip_operand t"
| "skip_expr (EBin t o1 x) = Option.bind (skip_operand t) (\<lambda>a. Option.bind (skip_expr x) (op_value o1 a))"
| "skip_arms (ALast c x) over v = Option.bind (skip_expr c) (\<lambda>k. Option.bind (skip_expr x) (\<lambda>w.
     Some (if \<not> over \<and> v_value k \<noteq> 0 then w else v)))"
| "skip_arms (AMore c x p) over v = Option.bind (skip_expr c) (\<lambda>k. Option.bind (skip_expr x) (\<lambda>w.
     let now = (\<not> over \<and> v_value k \<noteq> 0) in skip_arms p (over \<or> now) (if now then w else v)))"

definition skips :: "expr \<Rightarrow> bool" where
  "skips x \<longleftrightarrow> skip_expr x \<noteq> None"

section \<open>Meaning\<close>

type_synonym memory = "nat \<Rightarrow> u8"
type_synonym mstate = "memory env"

definition set_name :: "string \<Rightarrow> string \<Rightarrow> 'w env \<Rightarrow> 'w env" where
  "set_name name t s = s\<lparr>e_defs := snd (defs_registerLocal name t (e_defs s))\<rparr>"

text \<open>
  Big-step relations: \<open>len\<close> is the size of the target memory and \<open>d\<close> the number of expansions
  that may still be nested. They relate a program and a state to its value and the state after
  it; a program that fails or does not end is related to nothing, and neither is one that
  redefines a name while the text of this very definition is being evaluated, since the text is
  gone then.
\<close>

inductive runs_operand :: "nat \<Rightarrow> nat \<Rightarrow> operand \<Rightarrow> mstate \<Rightarrow> value_t \<Rightarrow> mstate \<Rightarrow> bool"
  and runs :: "nat \<Rightarrow> nat \<Rightarrow> expr \<Rightarrow> mstate \<Rightarrow> value_t \<Rightarrow> mstate \<Rightarrow> bool"
  and runs_arms :: "nat \<Rightarrow> nat \<Rightarrow> arms \<Rightarrow> mstate \<Rightarrow> value_t \<Rightarrow> mstate \<Rightarrow> bool"
  and runs_loop :: "nat \<Rightarrow> nat \<Rightarrow> expr \<Rightarrow> expr \<Rightarrow> value_t \<Rightarrow> mstate \<Rightarrow> value_t \<Rightarrow> mstate \<Rightarrow> bool"
  for len :: nat where
  RLit: "runs_operand len d (OLit v) s v s"
| RName: "\<lbrakk>name_ok name; defs_expand name (e_defs s) = Some (expr_text x); runs len d x (scan_record name s) v s'\<rbrakk> \<Longrightarrow>
    runs_operand len (Suc d) (OName name) s v (s'\<lparr>e_scanned := e_scanned s\<rparr>)"
| RUnary: "runs_operand len d t s v s' \<Longrightarrow> runs_operand len d (OUnary u t) s (unop_value u v) s'"
| RParen: "runs len d x s v s' \<Longrightarrow> runs_operand len d (OParen x) s v s'"
| RRead: "\<lbrakk>runs len d x s a s'; valid_access (v_value a) (size_bytes sz) len\<rbrakk> \<Longrightarrow>
    runs_operand len d (ORead sz x) s
      (mk_value (be_word (load_bytes (e_world s') (unat (v_value a)) (size_bytes sz)))
        (if sz = AS_UNDEFINED then AS_WORD else sz)) s'"
| RWrite: "\<lbrakk>runs len d x s a s'; runs len d y s' v s'';
    sz' = (if sz = AS_UNDEFINED then v_size v else sz); valid_access (v_value a) (size_bytes sz') len\<rbrakk> \<Longrightarrow>
    runs_operand len d (OWrite sz x y) s (v\<lparr>v_size := sz'\<rparr>)
      (s''\<lparr>e_world := store_bytes (e_world s'') (unat (v_value a)) (word_bytes (size_bytes sz') (v_value v))\<rparr>)"
| RIfTrue: "\<lbrakk>runs len d c s k s'; v_value k \<noteq> 0; runs len d x s' v s''; skips y\<rbrakk> \<Longrightarrow>
    runs_operand len d (OIf c x y) s v s''"
| RIfFalse: "\<lbrakk>runs len d c s k s'; v_value k = 0; skips x; runs len d y s' v s''\<rbrakk> \<Longrightarrow>
    runs_operand len d (OIf c x y) s v s''"
| RWhenTrue: "\<lbrakk>runs len d c s k s'; v_value k \<noteq> 0; runs len d x s' v s''\<rbrakk> \<Longrightarrow>
    runs_operand len d (OWhen c x) s v s''"
| RWhenFalse: "\<lbrakk>runs len d c s k s'; v_value k = 0; skips x\<rbrakk> \<Longrightarrow>
    runs_operand len d (OWhen c x) s zero_value s'"
| RPrioritize: "runs_arms len d p s v s' \<Longrightarrow> runs_operand len d (OPrioritize p) s v s'"
| RWhile: "\<lbrakk>skips c; skips x; runs_loop len d c x zero_value s v s'\<rbrakk> \<Longrightarrow>
    runs_operand len d (OWhile c x) s v s'"
| RDef: "\<lbrakk>name_ok name; skips x; \<not> text_in_use name s\<rbrakk> \<Longrightarrow>
    runs_operand len d (ODef name x) s zero_value (set_name name (expr_text x) s)"
| RSet: "\<lbrakk>name_ok name; runs len d x s v s'; \<not> text_in_use name s'\<rbrakk> \<Longrightarrow>
    runs_operand len d (OSet name x) s v
      (set_name name (lit_text (mk_value (v_value v) AS_UNDEFINED)) s')"
| RDelay: "runs len d x s v s' \<Longrightarrow>
    runs_operand len d (ODelay x) s v (s'\<lparr>e_out := e_out s' @ [EvUsleep (v_value v * 1000)]\<rparr>)"
| ROne: "runs_operand len d t s v s' \<Longrightarrow> runs len d (EOne t) s v s'"
| RBin: "\<lbrakk>runs_operand len d t s a s'; runs len d x s' b s''; op_value o1 a b = Some v\<rbrakk> \<Longrightarrow>
    runs len d (EBin t o1 x) s v s''"
| RLastTrue: "\<lbrakk>runs len d c s k s'; v_value k \<noteq> 0; runs len d x s' v s''\<rbrakk> \<Longrightarrow>
    runs_arms len d (ALast c x) s v s''"
| RLastFalse: "\<lbrakk>runs len d c s k s'; v_value k = 0; skips x\<rbrakk> \<Longrightarrow>
    runs_arms len d (ALast c x) s zero_value s'"
| RMoreTrue: "\<lbrakk>runs len d c s k s'; v_value k \<noteq> 0; runs len d x s' v s'';
    skip_arms p True v \<noteq> None\<rbrakk> \<Longrightarrow> runs_arms len d (AMore c x p) s v s''"
| RMoreFalse: "\<lbrakk>runs len d c s k s'; v_value k = 0; skips x; runs_arms len d p s' v s''\<rbrakk> \<Longrightarrow>
    runs_arms len d (AMore c x p) s v s''"
| RDone: "\<lbrakk>runs len d c s k s'; v_value k = 0\<rbrakk> \<Longrightarrow> runs_loop len d c x v s v s'"
| RTurn: "\<lbrakk>runs len d c s k s'; v_value k \<noteq> 0; runs len d x s' w s'';
    runs_loop len d c x w s'' v' s'''\<rbrakk> \<Longrightarrow> runs_loop len d c x v s v' s'''"

text \<open>A name whose text changes nothing.\<close>

lemma runs_unchanged:
  assumes "name_ok name" "defs_expand name (e_defs s) = Some (expr_text x)"
    and "runs len d x (scan_record name s) v (scan_record name s)"
  shows "runs_operand len (Suc d) (OName name) s v s"
  using RName [OF assms] by simp

end
