(* ===== verification/Parser_Programs.thy ===== *)
theory Parser_Programs
  imports Parser_Meaning
begin

text \<open>
  The evaluator of \<open>rvd/parser.c\<close> as an implementation of the meaning of expressions: what a
  program does according to \<open>Parser_Meaning\<close>, evaluating its text through the debug link does
  on the target, with some number of steps.
\<close>

section \<open>Scanning printed tokens\<close>

text \<open>What may follow an operand and an expression.\<close>

definition ends :: "string \<Rightarrow> bool" where
  "ends r \<longleftrightarrow> \<not> isident (peek r) \<and> \<not> isspace (peek r) \<and> peek r \<noteq> CHR ''(''"

definition expr_ends :: "string \<Rightarrow> bool" where
  "expr_ends r \<longleftrightarrow> peek r = CHR 0x00 \<or> peek r = CHR '')'' \<or> peek r = CHR '',''"

text \<open>What an operand starts with.\<close>

definition operand_start :: "char \<Rightarrow> bool" where
  "operand_start c \<longleftrightarrow> isident c \<or> c \<in> {CHR ''-'', CHR ''~'', CHR ''!'', CHR ''(''}"

lemma ends_simps [simp]:
  "ends []" "ends (CHR '')'' # r)" "ends (CHR '','' # r)"
  "expr_ends []" "expr_ends (CHR '')'' # r)" "expr_ends (CHR '','' # r)"
  by (simp_all add: expr_ends_def ends_def ctype_defs)

lemma expr_ends_ends: "expr_ends r \<Longrightarrow> ends r"
  by (auto simp: expr_ends_def ends_def ctype_defs)

lemma ends_space: "ends r \<Longrightarrow> \<not> isspace (peek r)"
  by (simp add: ends_def)

lemma expr_ends_operator: "expr_ends r \<Longrightarrow> scanOperator r = None"
  by (cases r) (simp_all add: expr_ends_def, simp add: scanOperator_def operator_table_def,
    elim disjE, simp_all add: scanOperator_def operator_table_def)

lemma op_text_simps [simp]:
  "op_text OP_ADD = ''+''" "op_text OP_SUB = ''-''" "op_text OP_MUL = ''*''" "op_text OP_DIV = ''/''"
  "op_text OP_MOD = ''%''" "op_text OP_EQ = ''==''" "op_text OP_NEQ = ''!=''" "op_text OP_GT = ''>''"
  "op_text OP_GTE = ''>=''" "op_text OP_LT = ''<''" "op_text OP_LTE = ''<=''" "op_text OP_SHL = ''<<''"
  "op_text OP_SHR = ''>>''" "op_text OP_LAND = ''&&''" "op_text OP_BAND = ''&''" "op_text OP_LOR = ''||''"
  "op_text OP_BOR = ''|''" "op_text OP_XOR = ''^''" "op_text OP_SEP = '';''"
  by (simp_all add: op_text_def operator_table_def)

lemma operand_start_props:
  "operand_start c \<Longrightarrow> \<not> isspace c \<and> c \<notin> {CHR ''='', CHR ''>'', CHR ''<'', CHR ''&'', CHR ''|'', CHR '')'', CHR '',''}"
  by (auto simp: operand_start_def ctype_defs)

lemma scanOperator_text:
  "operand_start (peek r) \<Longrightarrow> scanOperator (op_text o1 @ r) = Some (o1, r)"
proof (cases r)
  case (Cons c r')
  assume "operand_start (peek r)"
  with Cons operand_start_props [of c] show ?thesis
    by (cases o1) (auto simp: Cons scanOperator_def operator_table_def)
qed (simp add: operand_start_def ctype_defs)

lemma op_text_ends: "ends (op_text o1 @ r)"
  by (cases o1) (auto simp: ends_def ctype_defs)

text \<open>Programs whose first operand, when it is a name, has one that can be scanned.\<close>

definition operand_named :: "operand \<Rightarrow> bool" where
  "operand_named t \<longleftrightarrow> (\<forall>name. t = OName name \<longrightarrow> name_ok name)"

primrec expr_named :: "expr \<Rightarrow> bool" where
  "expr_named (EOne t) = operand_named t" | "expr_named (EBin t o1 x) = operand_named t"

primrec arms_named :: "arms \<Rightarrow> bool" where
  "arms_named (ALast c x) = expr_named c" | "arms_named (AMore c x p) = expr_named c"

lemma operand_text_start: "operand_named t \<Longrightarrow> operand_start (peek (operand_text t @ r))"
proof (cases t)
  case (OName name)
  assume "operand_named t"
  with OName show ?thesis by (cases name) (auto simp: operand_named_def name_ok_def operand_start_def)
next
  case (OUnary u t) then show ?thesis by (cases u) (simp_all add: operand_start_def)
next
  case (ORead sz x) then show ?thesis by (cases sz) (simp_all add: operand_start_def ctype_defs)
next
  case (OWrite sz x y) then show ?thesis by (cases sz) (simp_all add: operand_start_def ctype_defs)
qed (simp_all add: operand_start_def lit_text_def ctype_defs)

lemma expr_text_start: "expr_named x \<Longrightarrow> operand_start (peek (expr_text x @ r))"
  by (cases x) (simp_all add: operand_text_start)

lemma expr_text_space: "expr_named x \<Longrightarrow> \<not> isspace (peek (expr_text x @ r))"
  using expr_text_start operand_start_props by blast

lemma operand_text_space: "operand_named t \<Longrightarrow> \<not> isspace (peek (operand_text t @ r))"
  using operand_text_start operand_start_props by blast

lemma arms_text_space: "arms_named p \<Longrightarrow> \<not> isspace (peek (arms_text p @ r))"
  by (cases p) (simp_all add: expr_text_space)

lemma skip_named:
  "skip_operand t = Some v \<Longrightarrow> operand_named t" "skip_expr x = Some v \<Longrightarrow> expr_named x"
  "skip_arms p b w = Some v \<Longrightarrow> arms_named p"
proof -
  have op: "skip_operand t = Some v \<Longrightarrow> operand_named t" for t v
    by (auto simp: operand_named_def split: if_splits)
  have ex: "skip_expr x = Some v \<Longrightarrow> expr_named x" for x v
    by (cases x) (auto simp: op bind_eq_Some_conv)
  show "skip_operand t = Some v \<Longrightarrow> operand_named t" "skip_expr x = Some v \<Longrightarrow> expr_named x"
    by (fact op, fact ex)
  show "skip_arms p b w = Some v \<Longrightarrow> arms_named p"
    by (cases p) (auto simp: ex bind_eq_Some_conv)
qed

lemma skips_named: "skips x \<Longrightarrow> expr_named x"
  by (auto simp: skips_def skip_named)

inductive_cases runs_nameE: "runs_operand len d (OName name) s v s'"

lemma runs_named:
  "runs_operand len d t s v s' \<Longrightarrow> operand_named t" "runs len d x s v s' \<Longrightarrow> expr_named x"
  "runs_arms len d p s v s' \<Longrightarrow> arms_named p"
proof -
  have op: "runs_operand len d t s v s' \<Longrightarrow> operand_named t" for d t s v s'
    by (auto simp: operand_named_def elim: runs_nameE)
  have ex: "runs len d x s v s' \<Longrightarrow> expr_named x" for d x s v s'
    by (erule runs.cases) (auto simp: op)
  show "runs_operand len d t s v s' \<Longrightarrow> operand_named t" "runs len d x s v s' \<Longrightarrow> expr_named x"
    by (fact op, fact ex)
  show "runs_arms len d p s v s' \<Longrightarrow> arms_named p"
    by (erule runs_arms.cases) (auto simp: ex)
qed

lemma scanDigits_text:
  "\<lbrakk>\<forall>c \<in> set ds. isxdigit c \<and> hexval c < radix; \<not> isxdigit (peek r)\<rbrakk> \<Longrightarrow>
    scanDigits radix (word_of_nat a) (ds @ r) = Some (word_of_nat (digits_value radix a ds), r)"
proof (induction ds arbitrary: a)
  case Nil
  then show ?case by (cases r) auto
next
  case (Cons c ds)
  then show ?case using Cons.IH [of "a * radix + hexval c"] by simp
qed

lemma scanSize_text: "\<not> isident (peek r) \<Longrightarrow> scanSize (size_text sz @ r) = (sz, r)"
  by (cases sz; cases r) (auto simp: scanSize_def ctype_defs)

lemma size_text_not_xdigit: "\<not> isident (peek r) \<Longrightarrow> \<not> isxdigit (peek (size_text sz @ r))"
  by (cases sz) (auto simp: ctype_defs)

lemma scanLiteral_text:
  assumes "\<not> isident (peek r)" and "\<not> isspace (peek r)"
  shows "scanLiteral (lit_text v @ r) = Some (v, r)"
proof -
  have "\<forall>c \<in> set (hexU 8 k). isxdigit c \<and> hexval c < 16" for k
    using hexU_xdigits isxdigit_hexval by blast
  from scanDigits_text [OF this size_text_not_xdigit [OF assms(1), of "v_size v"], of 0 "unat (v_value v)"]
  have "scanDigits 16 0 (hexU 8 (unat (v_value v)) @ size_text (v_size v) @ r) =
      Some (v_value v, size_text (v_size v) @ r)"
    using unsigned_less [of "v_value v", where 'a = nat] by (simp add: hexU_value)
  moreover have "isdigit (CHR ''0'')" by (simp add: ctype_defs)
  ultimately show ?thesis
    using assms by (simp add: scanLiteral_def scanRadix_def lit_text_def scanSize_text)
qed

lemma scanIdentifier_text:
  "\<lbrakk>name_ok name; \<not> isident (peek r); \<not> isspace (peek r)\<rbrakk> \<Longrightarrow> scanIdentifier (name @ r) = Some (name, r)"
proof -
  assume n: "name_ok name" and r: "\<not> isident (peek r)" "\<not> isspace (peek r)"
  from r(1) have "takeWhile isident r = []" "dropWhile isident r = r" by (cases r; simp)+
  with n have "takeWhile isident (name @ r) = name" "dropWhile isident (name @ r) = r"
    by (simp_all add: name_ok_def)
  with n r(2) show ?thesis by (cases name) (simp_all add: name_ok_def scanIdentifier_def)
qed

section \<open>Computations that deliver a value\<close>

text \<open>What the meaning sees of a state of the evaluator.\<close>

definition abs_env :: "('w \<Rightarrow> memory) \<Rightarrow> 'w env \<Rightarrow> mstate" where
  "abs_env cells e = \<lparr>e_defs = e_defs e, e_preload = e_preload e, e_world = cells (e_world e), e_out = e_out e,
     e_scanned = e_scanned e\<rparr>"

lemma abs_env_simps [simp]:
  "e_defs (abs_env cells e) = e_defs e" "e_world (abs_env cells e) = cells (e_world e)"
  "e_out (abs_env cells e) = e_out e" "e_preload (abs_env cells e) = e_preload e" "e_scanned (abs_env cells e) = e_scanned e"
  by (simp_all add: abs_env_def)

text \<open>Monad laws: a computation that only returns can be removed.\<close>

lemma bindE_return [simp]: "bindE (returnE x) f = f x"
  by (simp add: bindE_def returnE_def fun_eq_iff)

lemma bindE_Ret: "m e = (Ret x, e') \<Longrightarrow> bindE m f e = f x e'"
  by (simp add: bindE_def)

lemma bindE_assoc: "bindE (bindE c f) g = bindE c (\<lambda>x. bindE (f x) g)"
  by (auto simp: bindE_def fun_eq_iff split: res.splits prod.splits)

lemma expectE_char: "\<not> isspace (peek r) \<Longrightarrow> expectE c (c # r) = returnE r"
  by (simp add: expectE_def)

text \<open>
  Computations that deliver a value and take the state from one meaning to the next, on a target
  of \<open>len\<close> bytes that is ready before and after.
\<close>

definition gives_on ::
  "('w \<Rightarrow> memory) \<Rightarrow> ('w \<Rightarrow> nat) \<Rightarrow> ('w \<Rightarrow> bool) \<Rightarrow> nat \<Rightarrow> mstate \<Rightarrow> ('a, 'w) ev \<Rightarrow> 'a \<Rightarrow> mstate \<Rightarrow> bool" where
  "gives_on cells extent ready len s c x s' \<longleftrightarrow>
     (\<forall>e. ready (e_world e) \<and> extent (e_world e) = len \<and> abs_env cells e = s \<longrightarrow>
       (\<exists>e'. c e = (Ret x, e') \<and> ready (e_world e') \<and> extent (e_world e') = len \<and> abs_env cells e' = s'))"

lemma gives_return: "gives_on cells extent ready len s (returnE x) x s"
  by (auto simp: returnE_def gives_on_def)

lemma gives_bind:
  assumes "gives_on cells extent ready len s c x s'" and "gives_on cells extent ready len s' (f x) y s''"
  shows "gives_on cells extent ready len s (bindE c f) y s''"
  unfolding gives_on_def
proof (intro allI impI, elim conjE)
  fix e
  assume "ready (e_world e)" "extent (e_world e) = len" "abs_env cells e = s"
  with assms(1) obtain e' where e': "c e = (Ret x, e')" "ready (e_world e')" "extent (e_world e') = len"
    "abs_env cells e' = s'" unfolding gives_on_def by blast
  with assms(2) obtain e'' where "f x e' = (Ret y, e'')" "ready (e_world e'')" "extent (e_world e'') = len"
    "abs_env cells e'' = s''" unfolding gives_on_def by blast
  with e' show "\<exists>e''. bindE c f e = (Ret y, e'') \<and> ready (e_world e'') \<and> extent (e_world e'') = len \<and>
      abs_env cells e'' = s''"
    by (auto simp: bindE_def)
qed

lemma gives_modify:
  assumes "\<And>e. e_world (f e) = e_world e" and "\<And>e. abs_env cells (f e) = g (abs_env cells e)"
  shows "gives_on cells extent ready len s (modifyE f) () (g s)"
  using assms by (auto simp: gives_on_def modifyE_def)

section \<open>Parts that are skipped\<close>

lemma operand_body_call:
  assumes "name_ok name" and "\<not> isspace (peek r)"
  shows "operand_body net n scanO scanE (name @ CHR ''('' # r) d =
    call_function net n scanE name (name @ CHR ''('' # r) r d"
proof -
  have id: "scanIdentifier (name @ CHR ''('' # r) = Some (name, CHR ''('' # r)"
    using assms(1) by (rule scanIdentifier_text) (simp_all add: ctype_defs)
  let ?c = "peek (name @ CHR ''('' # r)"
  from scanIdentifier_peek [OF id] have "isident ?c" "\<not> isdigit ?c" by simp_all
  then have "?c \<notin> {CHR ''-'', CHR ''~'', CHR ''!'', CHR ''(''}" by auto
  with id assms(2) \<open>\<not> isdigit ?c\<close> show ?thesis by (simp add: operand_body_def)
qed

lemma name_ok_functions:
  "name_ok (read_text sz)" "name_ok (write_text sz)" "name_ok ''if''" "name_ok ''prioritize''"
  "name_ok ''while''" "name_ok ''def''" "name_ok ''set''" "name_ok ''delay_ms''"
  by (cases sz; simp add: name_ok_def ctype_defs)+

lemmas function_call_defs = call_function_def read_names_def write_names_def

lemma operand_functions:
  assumes "\<not> isspace (peek r)"
  shows "operand_body net n scanO scanE (read_text sz @ CHR ''('' # r) d = fn_read net scanE (read_text sz) r d"
    and "operand_body net n scanO scanE (write_text sz @ CHR ''('' # r) d = fn_write net scanE (write_text sz) r d"
    and "operand_body net n scanO scanE (''if('' @ r) d = fn_if scanE r d"
    and "operand_body net n scanO scanE (''prioritize('' @ r) d = fn_prioritize n scanE r d"
    and "operand_body net n scanO scanE (''while('' @ r) d = fn_while n scanE r d"
    and "operand_body net n scanO scanE (''def('' @ r) d = fn_def scanE True r d"
    and "operand_body net n scanO scanE (''set('' @ r) d = fn_def scanE False r d"
    and "operand_body net n scanO scanE (''delay_ms('' @ r) d = fn_delay_ms scanE r d"
proof -
  note call = operand_body_call [OF name_ok_functions(1) assms, of net n scanO scanE sz d]
    operand_body_call [OF name_ok_functions(2) assms, of net n scanO scanE sz d]
  show "operand_body net n scanO scanE (read_text sz @ CHR ''('' # r) d = fn_read net scanE (read_text sz) r d"
    unfolding call by (cases sz) (simp_all add: function_call_defs)
  show "operand_body net n scanO scanE (write_text sz @ CHR ''('' # r) d = fn_write net scanE (write_text sz) r d"
    unfolding call by (cases sz) (simp_all add: function_call_defs)
qed (use assms operand_body_call [of _ r net n scanO scanE d, OF name_ok_functions(3)]
    operand_body_call [of _ r net n scanO scanE d, OF name_ok_functions(4)]
    operand_body_call [of _ r net n scanO scanE d, OF name_ok_functions(5)]
    operand_body_call [of _ r net n scanO scanE d, OF name_ok_functions(6)]
    operand_body_call [of _ r net n scanO scanE d, OF name_ok_functions(7)]
    operand_body_call [of _ r net n scanO scanE d, OF name_ok_functions(8)]
    in \<open>simp_all add: function_call_defs\<close>)

lemmas operand_calls = operand_functions [simplified]

lemma name_space: "name_ok name \<Longrightarrow> \<not> isspace (peek (name @ r))"
  by (cases name) (auto simp: name_ok_def ctype_defs)

lemma operand_body_literal:
  "ends r \<Longrightarrow> operand_body net n scanO scanE (lit_text v @ r) d = returnE (v, r)"
proof -
  assume "ends r"
  then have l: "scanLiteral (lit_text v @ r) = Some (v, r)" by (auto simp: ends_def scanLiteral_text)
  have "peek (lit_text v @ r) = CHR ''0''" by (simp add: lit_text_def)
  moreover have "isdigit (CHR ''0'')" by (simp add: ctype_defs)
  ultimately show ?thesis by (simp add: operand_body_def l)
qed

lemma operand_body_name:
  assumes "name_ok name" and "ends r"
  shows "operand_body net n scanO scanE (name @ r) d = expand_definition scanE name (name @ r) r d"
proof -
  have id: "scanIdentifier (name @ r) = Some (name, r)"
    using assms by (intro scanIdentifier_text) (auto simp: ends_def)
  from scanIdentifier_peek [OF id] have c: "isident (peek (name @ r))" "\<not> isdigit (peek (name @ r))" by simp_all
  then have "peek (name @ r) \<notin> {CHR ''-'', CHR ''~'', CHR ''!'', CHR ''(''}" by auto
  with id c assms(2) show ?thesis by (simp add: operand_body_def ends_def)
qed

lemma operand_body_unary:
  "operand_body net n scanO scanE (unop_text u # r) d =
    unary (\<lambda>a. word_of_int (unop_meaning u (uint a))) scanO (unop_text u # r) d"
proof (cases u)
  case Inv
  have "(\<lambda>x :: u32. NOT x) = (\<lambda>a. word_of_int (- uint a - 1))"
    by (simp add: fun_eq_iff not_eq_complement)
  with Inv show ?thesis by (simp add: operand_body_def)
next
  case Not
  have "(if x = 0 then 1 else 0) = (of_bool (uint x = 0) :: u32)" for x :: u32
    by (auto simp: word_uint_eq_iff)
  then show ?thesis by (simp add: Not operand_body_def)
qed (simp add: operand_body_def)

text \<open>At depth -1 a function of the language only scans.\<close>

lemma skipped_fn_read:
  "\<lbrakk>scanE p (-1) = returnE (v, CHR '')'' # r); ends r\<rbrakk> \<Longrightarrow> fn_read net scanE name p (-1) = returnE (v, r)"
  by (simp add: fn_read_def expectE_char ends_space)

lemma skipped_fn_write:
  "\<lbrakk>scanE p (-1) = returnE (a, CHR '','' # q); \<not> isspace (peek q); scanE q (-1) = returnE (v, CHR '')'' # r);
    ends r\<rbrakk> \<Longrightarrow> fn_write net scanE name p (-1) = returnE (v, r)"
  by (simp add: fn_write_def expectE_char ends_space)

lemma skipped_fn_if:
  assumes "scanE p (-1) = returnE (k, CHR '','' # q)" "\<not> isspace (peek q)"
    and "scanE q (-1) = returnE (v, CHR '','' # q')" "\<not> isspace (peek q')"
    and "scanE q' (-1) = returnE (w, CHR '')'' # r)" "ends r"
  shows "fn_if scanE p (-1) = returnE (if v_value k \<noteq> 0 then v else w, r)"
  using assms by (simp add: fn_if_def expectE_char ends_space)

lemma skipped_fn_when:
  assumes "scanE p (-1) = returnE (k, CHR '','' # q)" "\<not> isspace (peek q)"
    and "scanE q (-1) = returnE (v, CHR '')'' # r)" "ends r"
  shows "fn_if scanE p (-1) = returnE (if v_value k \<noteq> 0 then v else zero_value, r)"
  using assms by (simp add: fn_if_def expectE_char ends_space)

lemma skipped_fn_while:
  assumes "scanE p (-1) = returnE (k, CHR '','' # q)" "\<not> isspace (peek q)"
    and "scanE q (-1) = returnE (v, CHR '')'' # r)" "ends r"
  shows "fn_while n scanE p d = (if d = -1 then returnE (zero_value, r)
    else bindE (while_loop n scanE d zero_value p q) (\<lambda>v. returnE (v, r)))"
  using assms by (simp add: fn_while_def expectE_char ends_space)

lemma scanIdentifier_comma: "name_ok name \<Longrightarrow> scanIdentifier (name @ CHR '','' # q) = Some (name, CHR '','' # q)"
  by (rule scanIdentifier_text) (simp_all add: ctype_defs)

lemma skipped_fn_def:
  assumes "name_ok name" "\<not> isspace (peek q)" "scanE q (-1) = returnE (v, CHR '')'' # r)" "ends r"
  shows "fn_def scanE is_def (name @ CHR '','' # q) (-1) = returnE (if is_def then zero_value else v, r)"
  using assms by (simp add: fn_def_def scanIdentifier_comma expectE_char ends_space)

lemma skipped_fn_delay_ms:
  "\<lbrakk>scanE p (-1) = returnE (v, CHR '')'' # r); ends r\<rbrakk> \<Longrightarrow> fn_delay_ms scanE p (-1) = returnE (v, r)"
  by (simp add: fn_delay_ms_def expectE_char ends_space)

lemma skipped_fn_prioritize:
  "\<lbrakk>prioritize_loop n scanE d False zero_value p = returnE (v, CHR '')'' # r); ends r\<rbrakk> \<Longrightarrow>
    fn_prioritize n scanE p d = returnE (v, r)"
  by (simp add: fn_prioritize_def expectE_char ends_space)

lemma skipped_last_arm:
  assumes "scanE p (-1) = returnE (k, CHR '','' # q)" "\<not> isspace (peek q)"
    and "scanE q (-1) = returnE (w, CHR '')'' # r)"
  shows "prioritize_loop (Suc n) scanE (-1) over v p =
    returnE (if \<not> over \<and> v_value k \<noteq> 0 then w else v, CHR '')'' # r)"
  using assms by (simp add: expectE_char)

lemma skipped_more_arms:
  assumes "scanE p (-1) = returnE (k, CHR '','' # q)" "\<not> isspace (peek q)"
    and "scanE q (-1) = returnE (w, CHR '','' # q')" "\<not> isspace (peek q')"
    and "now = (\<not> over \<and> v_value k \<noteq> 0)"
  shows "prioritize_loop (Suc n) scanE (-1) over v p =
    prioritize_loop n scanE (-1) (over \<or> now) (if now then w else v) q'"
  using assms by (simp add: expectE_char Let_def)

text \<open>Steps are taken at the head of a scanner.\<close>

lemma eventually_scanOperand:
  "(\<forall>\<^sub>F n in sequentially. \<forall>r. ends r \<longrightarrow>
      P (operand_body net n (scanOperand net n) (scanExpression net n) (s @ r) d) r) \<Longrightarrow>
    (\<forall>\<^sub>F n in sequentially. \<forall>r. ends r \<longrightarrow> P (scanOperand net n (s @ r) d) r)"
  by (subst eventually_sequentially_Suc [symmetric]) simp

lemma eventually_scanExpression:
  "(\<forall>\<^sub>F n in sequentially. \<forall>r. expr_ends r \<longrightarrow>
      P (expression_body (scanOperand net n) (scanExpression net n) (s @ r) d) r) \<Longrightarrow>
    (\<forall>\<^sub>F n in sequentially. \<forall>r. expr_ends r \<longrightarrow> P (scanExpression net n (s @ r) d) r)"
  by (subst eventually_sequentially_Suc [symmetric]) simp

lemma expression_body_one:
  "\<lbrakk>scanO p d = returnE (v, r); expr_ends r\<rbrakk> \<Longrightarrow> expression_body scanO scanE p d = returnE (v, r)"
  by (simp add: expression_body_def expr_ends_operator)

lemma expression_body_operator:
  assumes "operand_start (peek q)"
  shows "(case scanOperator (op_text o1 @ q) of
       None \<Rightarrow> returnE (a, op_text o1 @ q)
     | Some (o1, ptr) \<Rightarrow>
         if o1 = OP_SEP \<and> (ptr = [] \<or> peek ptr = CHR '')'') then returnE (a, ptr)
         else bindE (scanE ptr d) (\<lambda>(v2, ptr).
           case apply_op o1 (v_value a) (v_value v2) of
             None \<Rightarrow> stopE Undef
           | Some x \<Rightarrow> returnE (\<lparr>v_value = x, v_size = op_size o1 (v_size a) (v_size v2)\<rparr>, ptr))) =
     bindE (scanE q d) (\<lambda>(b, ptr). case op_value o1 a b of None \<Rightarrow> stopE Undef | Some v \<Rightarrow> returnE (v, ptr))"
proof -
  have "(q = []) = False" "(peek q = CHR '')'') = False"
    using operand_start_props [OF assms] assms by (auto simp: operand_start_def ctype_defs)
  moreover have "bindE (scanE q d) (\<lambda>(v2, ptr). case apply_op o1 (v_value a) (v_value v2) of None \<Rightarrow> stopE Undef
      | Some x \<Rightarrow> returnE (\<lparr>v_value = x, v_size = op_size o1 (v_size a) (v_size v2)\<rparr>, ptr)) =
      bindE (scanE q d) (\<lambda>(b, ptr). case op_value o1 a b of None \<Rightarrow> stopE Undef | Some v \<Rightarrow> returnE (v, ptr))"
    by (rule arg_cong [where f = "bindE (scanE q d)"]) (auto simp: fun_eq_iff apply_op_value [symmetric] split: option.split)
  ultimately show ?thesis by (simp add: scanOperator_text [OF assms])
qed

lemma skipped_bin:
  assumes "scanO p d = returnE (a, op_text o1 @ q)" "operand_start (peek q)"
    and "scanE q d = returnE (b, r)" "op_value o1 a b = Some v"
  shows "expression_body scanO scanE p d = returnE (v, r)"
  using assms(1,3,4) by (simp add: expression_body_def expression_body_operator [OF assms(2)])

text \<open>Every part that can be skipped is skipped, and has the value \<open>skip_expr\<close> says.\<close>

lemma skipping:
  "skip_operand t = Some v \<Longrightarrow> \<forall>\<^sub>F n in sequentially. \<forall>r. ends r \<longrightarrow>
    scanOperand net n (operand_text t @ r) (-1) = returnE (v, r)"
  "skip_expr x = Some v \<Longrightarrow> \<forall>\<^sub>F n in sequentially. \<forall>r. expr_ends r \<longrightarrow>
    scanExpression net n (expr_text x @ r) (-1) = returnE (v, r)"
  "skip_arms p over w = Some v \<Longrightarrow> \<forall>\<^sub>F m in sequentially. \<forall>n \<ge> m. \<forall>k \<ge> m. \<forall>r.
    prioritize_loop k (scanExpression net n) (-1) over w (arms_text p @ CHR '')'' # r) = returnE (v, CHR '')'' # r)"
proof (induction t and x and p arbitrary: v and v and v over w)
  case (OLit v)
  then show ?case by (intro eventually_scanOperand) (simp add: operand_body_literal)
next
  case (OName name)
  then show ?case
    by (intro eventually_scanOperand)
      (auto simp: operand_body_name expand_definition_def returnE_def fun_eq_iff split: if_splits)
next
  case (OUnary u t)
  then obtain v0 where v0: "skip_operand t = Some v0" "v = unop_value u v0" by auto
  show ?case
    by (rule eventually_scanOperand, rule eventually_mono [OF OUnary.IH [OF v0(1)]])
      (simp add: operand_body_unary unary_def operand_text_space [OF skip_named(1) [OF v0(1)]] v0(2) unop_value_def)
next
  case (OParen x)
  then have v0: "skip_expr x = Some v" by simp
  show ?case
    by (rule eventually_scanOperand, rule eventually_mono [OF OParen.IH [OF v0]])
      (simp add: operand_body_def expr_text_space [OF skip_named(2) [OF v0]] expectE_char ends_space)
next
  case (ORead sz x)
  then have v0: "skip_expr x = Some v" by simp
  show ?case
    by (rule eventually_scanOperand, rule eventually_mono [OF ORead.IH [OF v0]])
      (simp add: operand_calls expr_text_space [OF skip_named(2) [OF v0]] skipped_fn_read)
next
  case (OWrite sz x y)
  then obtain a where a: "skip_expr x = Some a" "skip_expr y = Some v" by (auto simp: bind_eq_Some_conv)
  show ?case
    by (rule eventually_scanOperand, rule eventually_mono [OF eventually_conj [OF OWrite.IH(1) [OF a(1)] OWrite.IH(2) [OF a(2)]]])
      (simp add: operand_calls expr_text_space skip_named(2) [OF a(1)] skip_named(2) [OF a(2)] skipped_fn_write)
next
  case (OIf c x y)
  then obtain k a b where a: "skip_expr c = Some k" "skip_expr x = Some a" "skip_expr y = Some b"
    "v = (if v_value k \<noteq> 0 then a else b)" by (auto simp: chosen_def bind_eq_Some_conv)
  show ?case
    by (rule eventually_scanOperand, rule eventually_mono [OF eventually_conj [OF OIf.IH(1) [OF a(1)]
          eventually_conj [OF OIf.IH(2) [OF a(2)] OIf.IH(3) [OF a(3)]]]])
      (simp add: operand_calls expr_text_space skip_named(2) [OF a(1)] skip_named(2) [OF a(2)]
        skip_named(2) [OF a(3)] skipped_fn_if a(4))
next
  case (OWhen c x)
  then obtain k a where a: "skip_expr c = Some k" "skip_expr x = Some a"
    "v = (if v_value k \<noteq> 0 then a else zero_value)" by (auto simp: chosen_def bind_eq_Some_conv)
  show ?case
    by (rule eventually_scanOperand, rule eventually_mono [OF eventually_conj [OF OWhen.IH(1) [OF a(1)] OWhen.IH(2) [OF a(2)]]])
      (simp add: operand_calls expr_text_space skip_named(2) [OF a(1)] skip_named(2) [OF a(2)] skipped_fn_when a(3))
next
  case (OPrioritize p)
  then have p: "skip_arms p False zero_value = Some v" by simp
  show ?case
    by (rule eventually_scanOperand, rule eventually_mono [OF OPrioritize.IH [OF p]])
      (simp add: operand_calls arms_text_space skip_named(3) [OF p] skipped_fn_prioritize)
next
  case (OWhile c x)
  then obtain k a where a: "skip_expr c = Some k" "skip_expr x = Some a" "v = zero_value"
    by (auto simp: bind_eq_Some_conv)
  show ?case
    by (rule eventually_scanOperand, rule eventually_mono [OF eventually_conj [OF OWhile.IH(1) [OF a(1)] OWhile.IH(2) [OF a(2)]]])
      (simp add: operand_calls expr_text_space skip_named(2) [OF a(1)] skip_named(2) [OF a(2)] skipped_fn_while a(3))
next
  case (ODef name x)
  then obtain a where a: "name_ok name" "skip_expr x = Some a" "v = zero_value" by (auto split: if_splits)
  show ?case
    by (rule eventually_scanOperand, rule eventually_mono [OF ODef.IH [OF a(2)]])
      (simp add: operand_calls name_space expr_text_space skip_named(2) [OF a(2)] skipped_fn_def a)
next
  case (OSet name x)
  then have a: "name_ok name" "skip_expr x = Some v" by (auto split: if_splits)
  show ?case
    by (rule eventually_scanOperand, rule eventually_mono [OF OSet.IH [OF a(2)]])
      (simp add: operand_calls name_space expr_text_space skip_named(2) [OF a(2)] skipped_fn_def a)
next
  case (ODelay x)
  then have a: "skip_expr x = Some v" by simp
  show ?case
    by (rule eventually_scanOperand, rule eventually_mono [OF ODelay.IH [OF a]])
      (simp add: operand_calls expr_text_space skip_named(2) [OF a] skipped_fn_delay_ms)
next
  case (EOne t)
  then have a: "skip_operand t = Some v" by simp
  show ?case
    by (rule eventually_scanExpression, rule eventually_mono [OF EOne.IH [OF a]])
      (simp add: expression_body_one expr_ends_ends)
next
  case (EBin t o1 x)
  then obtain a b where a: "skip_operand t = Some a" "skip_expr x = Some b" "op_value o1 a b = Some v"
    by (auto simp: bind_eq_Some_conv)
  note start = expr_text_start [OF skip_named(2) [OF a(2)]]
  show ?case
    by (rule eventually_scanExpression, rule eventually_mono [OF eventually_conj [OF EBin.IH(1) [OF a(1)] EBin.IH(2) [OF a(2)]]])
      (auto simp: op_text_ends intro!: skipped_bin [OF _ start _ a(3)])
next
  case (ALast c x)
  then obtain k a where a: "skip_expr c = Some k" "skip_expr x = Some a"
    "v = (if \<not> over \<and> v_value k \<noteq> 0 then a else w)" by (auto simp: bind_eq_Some_conv)
  note ev = eventually_all_ge_at_top [OF eventually_conj [OF ALast.IH(1) [OF a(1)] ALast.IH(2) [OF a(2)]]]
  show ?case
  proof (rule eventually_sequentially_Suc [THEN iffD1], rule eventually_mono [OF ev], intro allI impI, goal_cases)
    case (1 m n k r)
    then obtain k' where "k = Suc k'" by (cases k) auto
    with 1 show ?case unfolding a(3)
      by (simp del: prioritize_loop.simps add: skipped_last_arm expr_text_space skip_named(2) [OF a(2)])
  qed
next
  case (AMore c x p)
  then obtain k a where a: "skip_expr c = Some k" "skip_expr x = Some a"
    "skip_arms p (over \<or> (\<not> over \<and> v_value k \<noteq> 0)) (if \<not> over \<and> v_value k \<noteq> 0 then a else w) = Some v"
    by (auto simp: bind_eq_Some_conv Let_def)
  note ev = eventually_conj [OF eventually_all_ge_at_top [OF eventually_conj [OF AMore.IH(1) [OF a(1)] AMore.IH(2) [OF a(2)]]]
      AMore.IH(3) [OF a(3)]]
  show ?case
  proof (rule eventually_sequentially_Suc [THEN iffD1], rule eventually_mono [OF ev], intro allI impI, goal_cases)
    case (1 m n k r)
    then obtain k' where "k = Suc k'" by (cases k) auto
    with 1 show ?case
      by (simp del: prioritize_loop.simps add: skipped_more_arms expr_text_space arms_text_space
          skip_named(2) [OF a(2)] skip_named(3) [OF a(3)])
  qed
qed

section \<open>Parts that are run\<close>

lemma gives_return_bind: "gives_on cells extent ready len s c x s' \<Longrightarrow> f x = returnE y \<Longrightarrow>
    gives_on cells extent ready len s (bindE c f) y s'"
  by (erule gives_bind) (simp add: gives_return)

lemma read_size_text:
  "read_size (peek (drop 4 (read_text sz))) = (size_bytes sz, if sz = AS_UNDEFINED then AS_WORD else sz)"
  "\<not> 8 < length (read_text sz)"
  by (cases sz; simp add: read_size_def size_bytes_def)+

lemma write_size_text:
  "write_size (peek (drop 5 (write_text sz))) s = (if sz = AS_UNDEFINED then s else sz)"
  by (cases sz) (simp_all add: write_size_def)

text \<open>An operand or an expression runs from some number of steps on, whatever follows it.\<close>

context memory_link
begin

abbreviation gives :: "nat \<Rightarrow> mstate \<Rightarrow> ('a, 'w) ev \<Rightarrow> 'a \<Rightarrow> mstate \<Rightarrow> bool" where
  "gives \<equiv> gives_on cells extent ready"

lemma gives_read:
  assumes "valid_access a k len"
  shows "gives len s (preloadedRead net False a k p) (be_word (load_bytes (e_world s) (unat a) k)) s"
  unfolding gives_on_def
proof (intro allI impI, elim conjE)
  fix e assume e: "ready (e_world e)" "extent (e_world e) = len" "abs_env cells e = s"
  with readSingle_ok [OF e(1), of a k] assms
  show "\<exists>e'. preloadedRead net False a k p e = (Ret (be_word (load_bytes (e_world s) (unat a) k)), e') \<and>
      ready (e_world e') \<and> extent (e_world e') = len \<and> abs_env cells e' = s"
    by (auto simp: preloadedRead_def targetRead_def abs_env_def)
qed

lemma gives_write:
  assumes "valid_access a k len"
  shows "gives len s (targetWrite net a v k p) ()
    (s\<lparr>e_world := store_bytes (e_world s) (unat a) (word_bytes k v)\<rparr>)"
  unfolding gives_on_def
proof (intro allI impI, elim conjE)
  fix e assume e: "ready (e_world e)" "extent (e_world e) = len" "abs_env cells e = s"
  with writeSingle_ok [OF e(1), of a k v] assms
  show "\<exists>e'. targetWrite net a v k p e = (Ret (), e') \<and> ready (e_world e') \<and> extent (e_world e') = len \<and>
      abs_env cells e' = s\<lparr>e_world := store_bytes (e_world s) (unat a) (word_bytes k v)\<rparr>"
    by (auto simp: targetWrite_def abs_env_def)
qed

lemma gives_set_name:
  "\<not> text_in_use name s \<Longrightarrow> gives len s (register_local name x) () (set_name name x s)"
  by (auto simp: gives_on_def register_local_def text_in_use_def set_name_def abs_env_def)

lemma gives_emit: "gives len s (emit ev) () (s\<lparr>e_out := e_out s @ [ev]\<rparr>)"
  unfolding emit_def by (rule gives_modify) (simp_all add: abs_env_def)

lemma gives_fn_read:
  assumes "gives len s (scanE p d) (a, CHR '')'' # r) s'" and "ends r" and "d \<noteq> -1"
    and "valid_access (v_value a) (size_bytes sz) len"
  shows "gives len s (fn_read net scanE (read_text sz) p d)
    (mk_value (be_word (load_bytes (e_world s') (unat (v_value a)) (size_bytes sz)))
       (if sz = AS_UNDEFINED then AS_WORD else sz), r) s'"
  unfolding fn_read_def
  by (rule gives_bind [OF assms(1)])
    (use assms(2,3) in \<open>simp add: expectE_char ends_space read_size_text gives_return_bind [OF gives_read [OF assms(4)]]\<close>)

lemma gives_fn_write:
  assumes "gives len s (scanE p d) (a, CHR '','' # q) s'" and "\<not> isspace (peek q)"
    and "gives len s' (scanE q d) (v, CHR '')'' # r) s''" and "ends r" and "d \<noteq> -1"
    and "sz' = (if sz = AS_UNDEFINED then v_size v else sz)" and "valid_access (v_value a) (size_bytes sz') len"
  shows "gives len s (fn_write net scanE (write_text sz) p d) (v\<lparr>v_size := sz'\<rparr>, r)
    (s''\<lparr>e_world := store_bytes (e_world s'') (unat (v_value a)) (word_bytes (size_bytes sz') (v_value v))\<rparr>)"
  unfolding fn_write_def
proof (rule gives_bind [OF assms(1)], simp add: expectE_char assms(2), rule gives_bind [OF assms(3)])
  show "gives len s'' (case (v, CHR '')'' # r) of (v, ptr) \<Rightarrow> bindE (expectE (CHR '')'') ptr) (\<lambda>ptr.
      if d = -1 then returnE (v, ptr)
      else let sz = write_size (peek (drop 5 (write_text sz))) (v_size v) in
        bindE (targetWrite net (v_value a) (v_value v) (size_bytes sz) ptr) (\<lambda>_. returnE (v\<lparr>v_size := sz\<rparr>, ptr))))
      (v\<lparr>v_size := sz'\<rparr>, r)
      (s''\<lparr>e_world := store_bytes (e_world s'') (unat (v_value a)) (word_bytes (size_bytes sz') (v_value v))\<rparr>)"
    using assms(4,5,7) unfolding assms(6)
    by (auto simp: expectE_char ends_space write_size_text intro!: gives_return_bind [OF gives_write])
qed

lemma gives_fn_if_true:
  assumes "gives len s (scanE p d) (k, CHR '','' # q) s'" "v_value k \<noteq> 0" "\<not> isspace (peek q)"
    and "gives len s' (scanE q d) (v, CHR '','' # q') s''" "\<not> isspace (peek q')"
    and "scanE q' (-1) = returnE (w, CHR '')'' # r)" "ends r"
  shows "gives len s (fn_if scanE p d) (v, r) s''"
  unfolding fn_if_def
  by (rule gives_bind [OF assms(1)])
    (use assms(2,3,5-7) in \<open>simp add: expectE_char ends_space gives_return_bind [OF assms(4)]\<close>)

lemma gives_fn_if_false:
  assumes "gives len s (scanE p d) (k, CHR '','' # q) s'" "v_value k = 0" "\<not> isspace (peek q)"
    and "scanE q (-1) = returnE (w, CHR '','' # q')" "\<not> isspace (peek q')"
    and "gives len s' (scanE q' d) (v, CHR '')'' # r) s''" "ends r"
  shows "gives len s (fn_if scanE p d) (v, r) s''"
  unfolding fn_if_def
  by (rule gives_bind [OF assms(1)])
    (use assms(2-5,7) in \<open>simp add: expectE_char ends_space bindE_assoc gives_return_bind [OF assms(6)]\<close>)

lemma gives_fn_when_true:
  assumes "gives len s (scanE p d) (k, CHR '','' # q) s'" "v_value k \<noteq> 0" "\<not> isspace (peek q)"
    and "gives len s' (scanE q d) (v, CHR '')'' # r) s''" "ends r"
  shows "gives len s (fn_if scanE p d) (v, r) s''"
  unfolding fn_if_def
  by (rule gives_bind [OF assms(1)])
    (use assms(2,3,5) in \<open>simp add: expectE_char ends_space gives_return_bind [OF assms(4)]\<close>)

lemma gives_fn_when_false:
  assumes "gives len s (scanE p d) (k, CHR '','' # q) s'" "v_value k = 0" "\<not> isspace (peek q)"
    and "scanE q (-1) = returnE (w, CHR '')'' # r)" "ends r"
  shows "gives len s (fn_if scanE p d) (zero_value, r) s'"
  unfolding fn_if_def
  by (rule gives_return_bind [OF assms(1)]) (use assms(2-5) in \<open>simp add: expectE_char ends_space\<close>)

lemma gives_fn_def:
  assumes "name_ok name" "\<not> isspace (peek q)" "scanE q (-1) = returnE (v, CHR '')'' # r)" "ends r" "d \<noteq> -1"
    and "q = x @ CHR '')'' # r" and "\<not> text_in_use name s"
  shows "gives len s (fn_def scanE True (name @ CHR '','' # q) d) (zero_value, r) (set_name name x s)"
  unfolding fn_def_def
  using assms by (simp add: scanIdentifier_comma expectE_char ends_space gives_return_bind [OF gives_set_name [OF assms(7)]])

lemma gives_fn_set:
  assumes "name_ok name" "\<not> isspace (peek q)" "gives len s (scanE q d) (v, CHR '')'' # r) s'" "ends r" "d \<noteq> -1"
    and "\<not> text_in_use name s'"
  shows "gives len s (fn_def scanE False (name @ CHR '','' # q) d) (v, r) (set_name name (set_expansion v) s')"
  unfolding fn_def_def
  apply (simp add: assms(1,2) scanIdentifier_comma expectE_char)
  apply (rule gives_bind [OF assms(3)])
  using assms(4,5) by (simp add: expectE_char ends_space gives_return_bind [OF gives_set_name [OF assms(6)]])

lemma gives_fn_delay_ms:
  assumes "gives len s (scanE p d) (v, CHR '')'' # r) s'" "ends r" "d \<noteq> -1"
  shows "gives len s (fn_delay_ms scanE p d) (v, r) (s'\<lparr>e_out := e_out s' @ [EvUsleep (v_value v * 1000)]\<rparr>)"
  unfolding fn_delay_ms_def
  by (rule gives_bind [OF assms(1)])
    (use assms(2,3) in \<open>simp add: expectE_char ends_space gives_return_bind [OF gives_emit]\<close>)

lemma gives_fn_while:
  assumes "scanE p (-1) = returnE (k, CHR '','' # q)" "\<not> isspace (peek q)"
    and "scanE q (-1) = returnE (w, CHR '')'' # r)" "ends r" "d \<noteq> -1"
    and "gives len s (while_loop n scanE d zero_value p q) v s'"
  shows "gives len s (fn_while n scanE p d) (v, r) s'"
  using assms(5) by (simp add: skipped_fn_while [where scanE = scanE, OF assms(1-4)] gives_return_bind [OF assms(6)])

lemma gives_while_done:
  assumes "gives len s (scanE p d) (k, z) s'" "v_value k = 0"
  shows "gives len s (while_loop (Suc n) scanE d v p q) v s'"
  unfolding while_loop.simps by (rule gives_return_bind [OF assms(1)]) (simp add: assms(2))

lemma gives_while_turn:
  assumes "gives len s (scanE p d) (k, z) sa" "v_value k \<noteq> 0" "gives len sa (scanE q d) (w, z') sb"
    and "gives len sb (while_loop n scanE d w p q) v' sc"
  shows "gives len s (while_loop (Suc n) scanE d v p q) v' sc"
  unfolding while_loop.simps
  apply (rule gives_bind [OF assms(1)], simp add: assms(2))
  by (rule gives_bind [OF assms(3)]) (simp add: assms(4))

text \<open>Once an action was taken, the rest of \<open>prioritize\<close> is skipped.\<close>

lemma prioritize_rest: "prioritize_loop n scanE d True v p = prioritize_loop n scanE (-1) True v p"
  by (induction n arbitrary: p v) (simp_all cong: if_cong)

lemma gives_fn_prioritize:
  assumes "gives len s (prioritize_loop n scanE d False zero_value p) (v, CHR '')'' # r) s'" "ends r"
  shows "gives len s (fn_prioritize n scanE p d) (v, r) s'"
  unfolding fn_prioritize_def
  by (rule gives_return_bind [OF assms(1)]) (use assms(2) in \<open>simp add: expectE_char ends_space\<close>)

lemma gives_last_true:
  assumes "gives len s (scanE p d) (k, CHR '','' # q) s'" "v_value k \<noteq> 0" "\<not> isspace (peek q)"
    and "gives len s' (scanE q d) (v, CHR '')'' # r) s''"
  shows "gives len s (prioritize_loop (Suc n) scanE d False w p) (v, CHR '')'' # r) s''"
  unfolding prioritize_loop.simps simp_thms if_False
  by (rule gives_bind [OF assms(1)]) (use assms(2,3) in \<open>simp add: expectE_char gives_return_bind [OF assms(4)]\<close>)

lemma gives_last_false:
  assumes "gives len s (scanE p d) (k, CHR '','' # q) s'" "v_value k = 0" "\<not> isspace (peek q)"
    and "scanE q (-1) = returnE (v, CHR '')'' # r)"
  shows "gives len s (prioritize_loop (Suc n) scanE d False w p) (w, CHR '')'' # r) s'"
  unfolding prioritize_loop.simps simp_thms if_False
  by (rule gives_return_bind [OF assms(1)]) (use assms(2-4) in \<open>simp add: expectE_char\<close>)

lemma gives_more_true:
  assumes "gives len s (scanE p d) (k, CHR '','' # q) s'" "v_value k \<noteq> 0" "\<not> isspace (peek q)"
    and "gives len s' (scanE q d) (v, CHR '','' # q') s''" "\<not> isspace (peek q')"
    and "prioritize_loop n scanE (-1) True v q' = returnE z"
  shows "gives len s (prioritize_loop (Suc n) scanE d False w p) z s''"
  unfolding prioritize_loop.simps simp_thms if_False
  by (rule gives_bind [OF assms(1)])
    (use assms(2,3,5,6) in \<open>simp add: expectE_char prioritize_rest [of n scanE d] gives_return_bind [OF assms(4)]\<close>)

lemma gives_more_false:
  assumes "gives len s (scanE p d) (k, CHR '','' # q) s'" "v_value k = 0" "\<not> isspace (peek q)"
    and "scanE q (-1) = returnE (v, CHR '','' # q')" "\<not> isspace (peek q')"
    and "gives len s' (prioritize_loop n scanE d False w q') z s''"
  shows "gives len s (prioritize_loop (Suc n) scanE d False w p) z s''"
  unfolding prioritize_loop.simps simp_thms if_False
  by (rule gives_bind [OF assms(1)]) (use assms(2-6) in \<open>simp add: expectE_char\<close>)

lemma gives_unary:
  assumes "gives len s (scanO p d) (v, r) s'" "\<not> isspace (peek p)"
  shows "gives len s (unary f scanO (c # p) d) (v\<lparr>v_value := f (v_value v)\<rparr>, r) s'"
  unfolding unary_def using assms(2) by (simp add: gives_return_bind [OF assms(1)])

lemma gives_paren:
  assumes "gives len s c (v, CHR '')'' # r) s'" "ends r"
  shows "gives len s (bindE c (\<lambda>(v, ptr). bindE (expectE (CHR '')'') ptr) (\<lambda>ptr. returnE (v, ptr)))) (v, r) s'"
  using assms(2) by (simp add: expectE_char ends_space gives_return_bind [OF assms(1)])

lemma gives_name:
  assumes "defs_expand name (e_defs s) = Some x" "gives len (scan_record name s) (scanE x (int d)) (v, z) s'"
  shows "gives len s (expand_definition scanE name start r (int (Suc d))) (v, r) (s'\<lparr>e_scanned := e_scanned s\<rparr>)"
  unfolding gives_on_def
proof (intro allI impI, elim conjE)
  fix e assume e: "ready (e_world e)" "extent (e_world e) = len" "abs_env cells e = s"
  have scan: "ready (e_world (scan_record name e))" "extent (e_world (scan_record name e)) = len"
    "abs_env cells (scan_record name e) = scan_record name s"
    using e by (auto simp: scan_record_def abs_env_def)
  with assms(2) obtain e' where e': "scanE x (int d) (scan_record name e) = (Ret (v, z), e')" "ready (e_world e')"
    "extent (e_world e') = len" "abs_env cells e' = s'" unfolding gives_on_def by blast
  from e(3) assms(1) have "defs_expand name (e_defs e) = Some x" by auto
  with e' show "\<exists>e'. expand_definition scanE name start r (int (Suc d)) e = (Ret (v, r), e') \<and>
      ready (e_world e') \<and> extent (e_world e') = len \<and> abs_env cells e' = s'\<lparr>e_scanned := e_scanned s\<rparr>"
    using e(3) by (auto simp: expand_definition_def bindE_def returnE_def relocate_def abs_env_def)
qed

lemma gives_one:
  assumes "gives len s (scanO p d) (v, r) s'" "expr_ends r"
  shows "gives len s (expression_body scanO scanE p d) (v, r) s'"
  unfolding expression_body_def
  using assms(2) by (simp add: expr_ends_operator gives_return_bind [OF assms(1)])

lemma gives_bin:
  assumes "gives len s (scanO p d) (a, op_text o1 @ q) s'" "operand_start (peek q)"
    and "gives len s' (scanE q d) (b, r) s''" "op_value o1 a b = Some v"
  shows "gives len s (expression_body scanO scanE p d) (v, r) s''"
  unfolding expression_body_def
  apply (rule gives_bind [OF assms(1)], simp add: expression_body_operator [OF assms(2)])
  using assms(4) by (simp add: gives_return_bind [OF assms(3)])

lemma running:
  "runs_operand len d t s v s' \<Longrightarrow> \<forall>\<^sub>F n in sequentially. \<forall>r. ends r \<longrightarrow>
    gives len s (scanOperand net n (operand_text t @ r) (int d)) (v, r) s'"
  "runs len d x s v s' \<Longrightarrow> \<forall>\<^sub>F n in sequentially. \<forall>r. expr_ends r \<longrightarrow>
    gives len s (scanExpression net n (expr_text x @ r) (int d)) (v, r) s'"
  "runs_arms len d p s v s' \<Longrightarrow> \<forall>\<^sub>F m in sequentially. \<forall>n \<ge> m. \<forall>k \<ge> m. \<forall>r.
    gives len s (prioritize_loop k (scanExpression net n) (int d) False zero_value (arms_text p @ CHR '')'' # r))
      (v, CHR '')'' # r) s'"
  "runs_loop len d c x w s v s' \<Longrightarrow> \<forall>\<^sub>F m in sequentially. \<forall>n \<ge> m. \<forall>k \<ge> m. \<forall>q r.
    gives len s (while_loop k (scanExpression net n) (int d) w (expr_text c @ CHR '','' # q)
      (expr_text x @ CHR '')'' # r)) v s'"
proof (induction rule: runs_operand_runs_runs_arms_runs_loop.inducts)
  case (RLit d v s)
  show ?case by (intro eventually_scanOperand) (simp add: operand_body_literal gives_return)
next
  case (RName name s x d v s')
  show ?case
    by (rule eventually_scanOperand, rule eventually_mono [OF RName(4)])
      (auto simp: operand_body_name RName(1) simp del: of_nat_Suc intro!: gives_name [OF RName(2)]
        dest: spec [of _ "[]"])
next
  case (RUnary d t s v s' u)
  show ?case
    by (rule eventually_scanOperand, rule eventually_mono [OF RUnary(2)])
      (simp add: operand_body_unary unop_value_def operand_text_space runs_named(1) [OF RUnary(1)]
        gives_unary [where f = "\<lambda>a. word_of_int (unop_meaning u (uint a))"])
next
  case (RParen d x s v s')
  show ?case
    by (rule eventually_scanOperand, rule eventually_mono [OF RParen(2)])
      (simp add: operand_body_def expr_text_space runs_named(2) [OF RParen(1)] gives_paren)
next
  case (RRead d x s a s' sz)
  show ?case
    by (rule eventually_scanOperand, rule eventually_mono [OF RRead(2)])
      (simp add: operand_calls expr_text_space runs_named(2) [OF RRead(1)] gives_fn_read RRead(3))
next
  case (RWrite d x s a s' y v s'' sz' sz)
  note named = runs_named(2) [OF RWrite(1)] runs_named(2) [OF RWrite(3)]
  show ?case
    by (rule eventually_scanOperand, rule eventually_mono [OF eventually_conj [OF RWrite(2,4)]])
      (auto simp: operand_calls expr_text_space named intro!: gives_fn_write [where s' = s' and a = a and q = "expr_text y @ CHR '')'' # r" and r = r for r] RWrite(5,6))
next
  case (RIfTrue d c s k s' x v s'' y)
  then obtain w where w: "skip_expr y = Some w" by (auto simp: skips_def)
  note named = runs_named(2) [OF RIfTrue(1)] runs_named(2) [OF RIfTrue(3)] skip_named(2) [OF w]
  show ?case
    by (rule eventually_scanOperand, rule eventually_mono [OF eventually_conj [OF RIfTrue(2)
          eventually_conj [OF RIfTrue(4) skipping(2) [where net = net, OF w]]]])
      (auto simp: operand_calls expr_text_space named RIfTrue(5) intro!: gives_fn_if_true [where s' = s' and k = k and w = w and q = "expr_text x @ CHR '','' # expr_text y @ CHR '')'' # r" and q' = "expr_text y @ CHR '')'' # r" and r = r for r])
next
  case (RIfFalse d c s k s' x y v s'')
  then obtain w where w: "skip_expr x = Some w" by (auto simp: skips_def)
  note named = runs_named(2) [OF RIfFalse(1)] runs_named(2) [OF RIfFalse(3)] skip_named(2) [OF w]
  show ?case
    by (rule eventually_scanOperand, rule eventually_mono [OF eventually_conj [OF RIfFalse(2)
          eventually_conj [OF RIfFalse(4) skipping(2) [where net = net, OF w]]]])
      (auto simp: operand_calls expr_text_space named RIfFalse(5) intro!: gives_fn_if_false [where s' = s' and k = k and w = w and q = "expr_text x @ CHR '','' # expr_text y @ CHR '')'' # r" and q' = "expr_text y @ CHR '')'' # r" and r = r for r])
next
  case (RWhenTrue d c s k s' x v s'')
  note named = runs_named(2) [OF RWhenTrue(1)] runs_named(2) [OF RWhenTrue(3)]
  show ?case
    by (rule eventually_scanOperand, rule eventually_mono [OF eventually_conj [OF RWhenTrue(2,4)]])
      (auto simp: operand_calls expr_text_space named RWhenTrue(5) intro!: gives_fn_when_true [where s' = s' and k = k and q = "expr_text x @ CHR '')'' # r" and r = r for r])
next
  case (RWhenFalse d c s k s' x)
  then obtain w where w: "skip_expr x = Some w" by (auto simp: skips_def)
  note named = runs_named(2) [OF RWhenFalse(1)] skip_named(2) [OF w]
  show ?case
    by (rule eventually_scanOperand, rule eventually_mono [OF eventually_conj [OF RWhenFalse(2) skipping(2) [where net = net, OF w]]])
      (auto simp: operand_calls expr_text_space named RWhenFalse(3) intro!: gives_fn_when_false [where k = k and w = w and q = "expr_text x @ CHR '')'' # r" and r = r for r])
next
  case (RPrioritize d p s v s')
  show ?case
    by (rule eventually_scanOperand, rule eventually_mono [OF RPrioritize(2)])
      (auto simp: operand_calls arms_text_space runs_named(3) [OF RPrioritize(1)] intro!: gives_fn_prioritize)
next
  case (RWhile c x d s v s')
  then obtain k w where k: "skip_expr c = Some k" "skip_expr x = Some w" by (auto simp: skips_def)
  show ?case
    by (rule eventually_scanOperand, rule eventually_mono [OF eventually_conj [OF RWhile(4)
          eventually_conj [OF skipping(2) [where net = net, OF k(1)] skipping(2) [where net = net, OF k(2)]]]])
      (auto simp: operand_calls expr_text_space skip_named(2) [OF k(1)] skip_named(2) [OF k(2)] intro!: gives_fn_while [where k = k and w = w and q = "expr_text x @ CHR '')'' # r" and r = r for r])
next
  case (RDef name x d s)
  then obtain w where w: "skip_expr x = Some w" by (auto simp: skips_def)
  show ?case
    by (rule eventually_scanOperand, rule eventually_mono [OF skipping(2) [where net = net, OF w]])
      (auto simp: operand_calls name_space expr_text_space skip_named(2) [OF w] RDef(1,3) intro!: gives_fn_def [where v = w])
next
  case (RSet name d x s v s')
  have lit: "set_expansion v = lit_text (mk_value (v_value v) AS_UNDEFINED)"
    by (simp add: set_expansion_def lit_text_def)
  show ?case unfolding lit [symmetric]
    by (rule eventually_scanOperand, rule eventually_mono [OF RSet(4)])
      (auto simp: operand_calls name_space expr_text_space runs_named(2) [OF RSet(3)] RSet(1,2) intro!: gives_fn_set)
next
  case (RDelay d x s v s')
  show ?case
    by (rule eventually_scanOperand, rule eventually_mono [OF RDelay(2)])
      (auto simp: operand_calls expr_text_space runs_named(2) [OF RDelay(1)] intro!: gives_fn_delay_ms)
next
  case (ROne d t s v s')
  show ?case
    by (rule eventually_scanExpression, rule eventually_mono [OF ROne(2)])
      (simp add: gives_one expr_ends_ends)
next
  case (RBin d t s a s' x b s'' o1 v)
  note start = expr_text_start [OF runs_named(2) [OF RBin(3)]]
  show ?case
    by (rule eventually_scanExpression, rule eventually_mono [OF eventually_conj [OF RBin(2,4)]])
      (auto simp: op_text_ends intro!: gives_bin [where s' = s', OF _ start _ RBin(5)])
next
  case (RLastTrue d c s k s' x v s'')
  note ev = eventually_all_ge_at_top [OF eventually_conj [OF RLastTrue(2,4)]]
  show ?case
  proof (rule eventually_sequentially_Suc [THEN iffD1], rule eventually_mono [OF ev], intro allI impI, goal_cases)
    case (1 m n k' r)
    then obtain k'' where "k' = Suc k''" by (cases k') auto
    with 1 show ?case
      by (auto simp: expr_text_space runs_named(2) [OF RLastTrue(3)] RLastTrue(5)
          simp del: prioritize_loop.simps intro!: gives_last_true [where s' = s' and k = k and q = "expr_text x @ CHR '')'' # r" and r = r for r])
  qed
next
  case (RLastFalse d c s k s' x)
  then obtain w where w: "skip_expr x = Some w" by (auto simp: skips_def)
  note ev = eventually_all_ge_at_top [OF eventually_conj [OF RLastFalse(2) skipping(2) [where net = net, OF w]]]
  show ?case
  proof (rule eventually_sequentially_Suc [THEN iffD1], rule eventually_mono [OF ev], intro allI impI, goal_cases)
    case (1 m n k' r)
    then obtain k'' where "k' = Suc k''" by (cases k') auto
    with 1 show ?case
      by (auto simp: expr_text_space skip_named(2) [OF w] RLastFalse(3)
          simp del: prioritize_loop.simps intro!: gives_last_false [where k = k and v = w and q = "expr_text x @ CHR '')'' # r" and r = r for r])
  qed
next
  case (RMoreTrue d c s k s' x v s'' p)
  then obtain w where w: "skip_arms p True v = Some w" by auto
  then have wv: "w = v" by (induction p arbitrary: v) (auto simp: bind_eq_Some_conv)
  note ev = eventually_conj [OF eventually_all_ge_at_top [OF eventually_conj [OF RMoreTrue(2,4)]] skipping(3) [where net = net, OF w]]
  show ?case
  proof (rule eventually_sequentially_Suc [THEN iffD1], rule eventually_mono [OF ev], intro allI impI, goal_cases)
    case (1 m n k' r)
    then obtain k'' where "k' = Suc k''" by (cases k') auto
    with 1 show ?case
      by (auto simp: wv expr_text_space arms_text_space skip_named(3) [OF w] runs_named(2) [OF RMoreTrue(3)] RMoreTrue(5)
          simp del: prioritize_loop.simps intro!: gives_more_true [where s' = s' and k = k and v = v and z = "(v, CHR '')'' # r)" and q = "expr_text x @ CHR '','' # arms_text p @ CHR '')'' # r" and q' = "arms_text p @ CHR '')'' # r" for r])
  qed
next
  case (RMoreFalse d c s k s' x p v s'')
  then obtain w where w: "skip_expr x = Some w" by (auto simp: skips_def)
  note ev = eventually_conj [OF eventually_all_ge_at_top [OF eventually_conj [OF RMoreFalse(2) skipping(2) [where net = net, OF w]]] RMoreFalse(4)]
  show ?case
  proof (rule eventually_sequentially_Suc [THEN iffD1], rule eventually_mono [OF ev], intro allI impI, goal_cases)
    case (1 m n k' r)
    then obtain k'' where "k' = Suc k''" by (cases k') auto
    with 1 show ?case
      by (auto simp: expr_text_space arms_text_space skip_named(2) [OF w] runs_named(3) [OF RMoreFalse(3)] RMoreFalse(5)
          simp del: prioritize_loop.simps intro!: gives_more_false [where s' = s' and k = k and v = w and q = "expr_text x @ CHR '','' # arms_text p @ CHR '')'' # r" and q' = "arms_text p @ CHR '')'' # r" and z = "(v'', CHR '')'' # r)" for v'' r])
  qed
next
  case (RDone d c s k s' x v)
  note ev = eventually_all_ge_at_top [OF RDone(2)]
  show ?case
  proof (rule eventually_sequentially_Suc [THEN iffD1], rule eventually_mono [OF ev], intro allI impI, goal_cases)
    case (1 m n k' q r)
    then obtain k'' where "k' = Suc k''" by (cases k') auto
    with 1 show ?case
      by (auto simp: RDone(3) simp del: while_loop.simps intro!: gives_while_done [where k = k and z = "CHR '','' # q"])
  qed
next
  case (RTurn d c s k s' x w s'' v' s3 v)
  note ev = eventually_conj [OF eventually_all_ge_at_top [OF eventually_conj [OF RTurn(2,4)]] RTurn(6)]
  show ?case
  proof (rule eventually_sequentially_Suc [THEN iffD1], rule eventually_mono [OF ev], intro allI impI, goal_cases)
    case (1 m n k' q r)
    then obtain k'' where "k' = Suc k''" by (cases k') auto
    with 1 show ?case
      by (auto simp: RTurn(7) simp del: while_loop.simps intro!: gives_while_turn [where k = k and sa = s' and sb = s'' and w = w and z = "CHR '','' # q" and z' = "CHR '')'' # r"])
  qed
qed

lemma running_evaluate:
  assumes "runs len 256 x s v s'"
  shows "\<forall>\<^sub>F n in sequentially. gives len s (evaluate net n (expr_text x)) v s'"
proof (rule eventually_mono [OF running(2) [OF assms]])
  fix n assume "\<forall>r. expr_ends r \<longrightarrow> gives len s (scanExpression net n (expr_text x @ r) (int 256)) (v, r) s'"
  then have "gives len s (scanExpression net n (expr_text x) 256) (v, []) s'" by (auto dest: spec [of _ "[]"])
  then show "gives len s (evaluate net n (expr_text x)) v s'"
    using expr_text_space [OF runs_named(2) [OF assms], of "[]"]
    by (simp add: evaluate_def gives_return_bind)
qed

end

section \<open>Over the server\<close>

text \<open>
  C1. The evaluator, its client, the debug link and the server together implement the meaning
  of expressions: whatever an expression does according to its meaning (operators, reads and
  writes, conditionals, loops, delays, definitions and their expansion), evaluating its text
  does, with every number of steps from some number on: it returns the value, leaves the memory
  of the target and the definitions as the meaning says, and the server ready for the next
  command. A program that redefines a name while the text of that name is being evaluated has no
  meaning: the code frees the text it is reading. \<open>printf\<close> and the preload option are not part of
  this syntax.
\<close>

theorem evaluate_refines_meaning:
  assumes "server_idle (e_world e)"
    and "runs (server_extent (e_world e)) 256 x (abs_env server_cells e) v s'"
  shows "\<exists>N. \<forall>n \<ge> N. \<exists>e'. evaluate server_net n (expr_text x) e = (Ret v, e') \<and>
    server_idle (e_world e') \<and> server_extent (e_world e') = server_extent (e_world e) \<and>
    abs_env server_cells e' = s'"
  using srv_link.running_evaluate [OF assms(2)] assms(1)
  by (auto simp: eventually_sequentially gives_on_def)

text \<open>\<open>set(A,8);while(!readByte(A),writeByte(A,42));readByte(A)\<close>, up to the spelling of literals\<close>

definition demo_name :: operand where
  "demo_name = OName ''A''"

definition demo_loop :: expr where
  "demo_loop = EBin (OSet ''A'' (EOne (OLit (mk_value 8 AS_UNDEFINED)))) OP_SEP
     (EBin (OWhile (EOne (OUnary Not (ORead AS_BYTE (EOne demo_name))))
        (EOne (OWrite AS_BYTE (EOne demo_name) (EOne (OLit (mk_value 42 AS_UNDEFINED)))))) OP_SEP
     (EOne (ORead AS_BYTE (EOne demo_name))))"

lemma demo_name_runs:
  assumes "e_defs s = snd (defs_registerLocal ''A'' (lit_text (mk_value 8 AS_UNDEFINED)) initial_defs)"
  shows "runs len (Suc d) (EOne demo_name) s (mk_value 8 AS_UNDEFINED) s"
proof -
  have "defs_expand ''A'' (e_defs s) = Some (expr_text (EOne (OLit (mk_value 8 AS_UNDEFINED))))"
    unfolding assms by code_simp
  then show ?thesis unfolding demo_name_def
    by (intro ROne runs_unchanged [OF _ _ ROne [OF RLit]]) (simp_all add: name_ok_def ctype_defs)
qed

lemma demo_read_runs:
  assumes "e_defs s = snd (defs_registerLocal ''A'' (lit_text (mk_value 8 AS_UNDEFINED)) initial_defs)"
  shows "runs_operand 64 (Suc d) (ORead AS_BYTE (EOne demo_name)) s (mk_value (ucast (e_world s 8)) AS_BYTE) s"
  using RRead [OF demo_name_runs [OF assms], of AS_BYTE 64 d]
  by (simp add: size_bytes_def valid_access_def be_word_def load_bytes_def)

lemma op_value_sep: "op_value OP_SEP a b = Some b"
  by (simp add: op_value_def)

theorem evaluate_refines_meaning_witness:
  "\<exists>N. \<forall>n \<ge> N. fst (evaluate server_net n (expr_text demo_loop) demo_env) = Ret (mk_value 42 AS_BYTE)"
proof -
  let ?s = "abs_env server_cells demo_env"
  let ?s1 = "set_name ''A'' (lit_text (mk_value 8 AS_UNDEFINED)) ?s"
  let ?s2 = "?s1\<lparr>e_world := (e_world ?s1)(8 := 42)\<rparr>"
  have idle: "server_idle (e_world demo_env)" and ext: "server_extent (e_world demo_env) = 64"
    by (simp_all add: demo_env_def demo_server_idle)
  have defs: "e_defs ?s1 = snd (defs_registerLocal ''A'' (lit_text (mk_value 8 AS_UNDEFINED)) initial_defs)"
    "e_defs ?s2 = snd (defs_registerLocal ''A'' (lit_text (mk_value 8 AS_UNDEFINED)) initial_defs)"
    and world: "e_world ?s1 8 = 0" "e_world ?s2 8 = 42"
    by (simp_all add: set_name_def demo_env_def server_cells_def demo_server_def)
  note r1 = demo_read_runs [OF defs(1), of 255, unfolded world] and r2 = demo_read_runs [OF defs(2), of 255, unfolded world]
  have set: "runs_operand 64 256 (OSet ''A'' (EOne (OLit (mk_value 8 AS_UNDEFINED)))) ?s (mk_value 8 AS_UNDEFINED) ?s1"
    using RSet [where name = "''A''" and s = ?s and s' = ?s and len = 64 and d = 256 and v = "mk_value 8 AS_UNDEFINED", OF _ ROne [OF RLit]]
    by (simp add: name_ok_def ctype_defs text_in_use_def demo_env_def)
  have cond1: "runs 64 256 (EOne (OUnary Not (ORead AS_BYTE (EOne demo_name)))) ?s1 (mk_value 1 AS_BYTE) ?s1"
    using ROne [OF RUnary [OF r1, of Not]] by (simp add: unop_value_def)
  have cond2: "runs 64 256 (EOne (OUnary Not (ORead AS_BYTE (EOne demo_name)))) ?s2 (mk_value 0 AS_BYTE) ?s2"
    using ROne [OF RUnary [OF r2, of Not]] by (simp add: unop_value_def)
  have body: "runs 64 256 (EOne (OWrite AS_BYTE (EOne demo_name) (EOne (OLit (mk_value 42 AS_UNDEFINED))))) ?s1
      (mk_value 42 AS_BYTE) ?s2"
    using ROne [OF RWrite [OF demo_name_runs [OF defs(1), of 64 255] ROne [OF RLit], of _ AS_BYTE "mk_value 42 AS_UNDEFINED"]]
    by (simp add: size_bytes_def valid_access_def store_bytes_Cons)
  have "skips (EOne (OUnary Not (ORead AS_BYTE (EOne demo_name))))"
    "skips (EOne (OWrite AS_BYTE (EOne demo_name) (EOne (OLit (mk_value 42 AS_UNDEFINED)))))"
    by (simp_all add: skips_def demo_name_def name_ok_def ctype_defs)
  from RWhile [OF this RTurn [OF cond1 _ body RDone [OF cond2]]]
  have loop: "runs_operand 64 256 (OWhile (EOne (OUnary Not (ORead AS_BYTE (EOne demo_name))))
      (EOne (OWrite AS_BYTE (EOne demo_name) (EOne (OLit (mk_value 42 AS_UNDEFINED)))))) ?s1 (mk_value 42 AS_BYTE) ?s2"
    by simp
  have "runs 64 256 demo_loop ?s (mk_value 42 AS_BYTE) ?s2"
    unfolding demo_loop_def
    by (rule RBin [OF set RBin [OF loop]], rule ROne) (use r2 in \<open>simp_all add: op_value_sep\<close>)
  from evaluate_refines_meaning [OF idle, unfolded ext, OF this] show ?thesis by (metis fst_conv)
qed

text \<open>
  The text set registers for a value scans back to the same number, but never with the
  access size of the value.
\<close>

theorem set_expansion_loses_size:
  "scanLiteral (set_expansion v) = Some (v\<lparr>v_size := AS_UNDEFINED\<rparr>, [])"
proof -
  have "set_expansion v = lit_text (v\<lparr>v_size := AS_UNDEFINED\<rparr>) @ []"
    by (simp add: set_expansion_def lit_text_def)
  with scanLiteral_text [of "[]" "v\<lparr>v_size := AS_UNDEFINED\<rparr>"] show ?thesis by (simp add: ctype_defs)
qed

end
