(* ===== verification/Parser_Defs.thy ===== *)
theory Parser_Defs
  imports Parser_Programs
begin

text \<open>
  Context masks and definition files (\<open>scanContextMask\<close>, \<open>registerDefinition\<close>,
  \<open>scanDefinition\<close>, \<open>parseMask\<close> and \<open>parseDefs\<close> in \<open>rvd/parser.c\<close>): a file is a list of
  \<open>mask : name { expression }\<close> with comments from \<open>#\<close> to the end of the line. A definition
  whose expression is malformed is reported and skipped, any other error ends the file.
\<close>

section \<open>Context masks\<close>

text \<open>
  \<open>(1 << (v2 + 1)) - (1 << v1)\<close> on \<open>int\<close>, for \<open>v1 <= v2 <= 31\<close>: with \<open>v2\<close> 30 the subtraction
  overflows, with \<open>v2\<close> 31 the shift count is the width of the type.
\<close>

definition mask_range :: "u32 \<Rightarrow> u32 \<Rightarrow> u32 option" where
  "mask_range v1 v2 = (if v2 < 30 then Some (push_bit (unat (v2 + 1)) 1 - push_bit (unat v1) 1) else None)"

definition finish_mask :: "u32 \<Rightarrow> u32 \<Rightarrow> string \<Rightarrow> (u32 \<times> string) res" where
  "finish_mask v1 v2 ptr =
     (case (if v2 < v1 then mask_range v2 v1 else mask_range v1 v2) of
        None \<Rightarrow> Undef | Some m \<Rightarrow> Ret (m, ptr))"

definition scanContextMask :: "string \<Rightarrow> (u32 \<times> string) res" where
  "scanContextMask str =
     (let ptr = scanWhitespace str in
      if starts_with ''all'' ptr then
        (let ptr = scanWhitespace (drop 3 ptr) in
         if isident (peek ptr) then Fail UnexpectedToken ptr else Ret (0xFFFFFFFF, ptr))
      else case scanLiteral ptr of
        None \<Rightarrow> Fail ExpectedLiteralOrAll ptr
      | Some (v1, ptr) \<Rightarrow>
          if v_value v1 > 31 then Fail (ContextOutOfRange (v_value v1)) ptr
          else if starts_with ''..'' ptr then
            (let ptr = scanWhitespace (drop 2 ptr) in
             case scanLiteral ptr of
               None \<Rightarrow> Fail ExpectedLiteral ptr
             | Some (v2, ptr) \<Rightarrow>
                 if v_value v2 > 31 then Fail (ContextOutOfRange (v_value v2)) ptr
                 else finish_mask (v_value v1) (v_value v2) ptr)
          else finish_mask (v_value v1) (v_value v1) ptr)"

definition parseMask :: "string \<Rightarrow> u32 res" where
  "parseMask str =
     (case scanContextMask (scanWhitespace str) of
        Ret (m, ptr) \<Rightarrow> if ptr \<noteq> [] then Fail UnexpectedToken ptr else Ret m
      | Fail err pos \<Rightarrow> Fail err pos | Fatal \<Rightarrow> Fatal | Undef \<Rightarrow> Undef | NoFuel \<Rightarrow> NoFuel)"

section \<open>Definitions\<close>

text \<open>\<open>expansion\<close> is the text up to where the code puts its temporary NUL.\<close>

definition registerDefinition :: "'w net \<Rightarrow> nat \<Rightarrow> u32 \<Rightarrow> string \<Rightarrow> string \<Rightarrow> (unit, 'w) ev" where
  "registerDefinition net n msk def expansion =
     bindE (scanExpression net n expansion (-1)) (\<lambda>(_, ptr).
       if ptr \<noteq> [] then failE ExpectedCloseBrace ptr
       else modifyE (\<lambda>e. e\<lparr>e_defs := snd (defs_register msk def expansion (e_defs e))\<rparr>))"

text \<open>The end of the expansion: \<open>strState\<close> 0 outside strings, 1 inside, 2 after a backslash.\<close>

definition next_strState :: "nat \<Rightarrow> char \<Rightarrow> nat" where
  "next_strState st c =
     (if st = 0 then (if c = CHR 0x22 then 1 else 0)
      else if st = 1 then (if c = CHR 0x22 then 0 else if c = CHR 0x5C then 2 else 1)
      else 1)"

fun scan_expansion :: "nat \<Rightarrow> string \<Rightarrow> string \<times> string" where
  "scan_expansion st [] = ([], [])"
| "scan_expansion st (c # ptr) =
     (if c = CHR ''}'' \<and> st = 0 then ([], c # ptr)
      else (let (x, r) = scan_expansion (next_strState st c) ptr in (c # x, r)))"

text \<open>
  The return values 1 and 2 are \<open>Ret\<close> with the text that is left, and for 2 with the error of
  the expansion, located in the expansion; 0 is \<open>Fail\<close>.
\<close>

type_synonym definition_error = "(scan_error \<times> string) option"

definition try_register :: "(unit, 'w) ev \<Rightarrow> string \<Rightarrow> (definition_error \<times> string, 'w) ev" where
  "try_register m ptr = (\<lambda>e. case m e of
       (Ret _, e') \<Rightarrow> (Ret (None, ptr), e')
     | (Fail err pos, e') \<Rightarrow> (Ret (Some (err, pos), ptr), e')
     | (Fatal, e') \<Rightarrow> (Fatal, e') | (Undef, e') \<Rightarrow> (Undef, e') | (NoFuel, e') \<Rightarrow> (NoFuel, e'))"

definition scanDefinition :: "'w net \<Rightarrow> nat \<Rightarrow> string \<Rightarrow> (definition_error \<times> string, 'w) ev" where
  "scanDefinition net n str =
     bindE (stopE (scanContextMask (scanWhitespace str))) (\<lambda>(msk, ptr).
     bindE (expectE (CHR '':'') ptr) (\<lambda>ptr.
       case scanIdentifier ptr of
         None \<Rightarrow> failE IdentifierExpected ptr
       | Some (definition, ptr) \<Rightarrow>
           bindE (expectE (CHR ''{'') ptr) (\<lambda>ptr.
             let (expansion, ptr) = scan_expansion 0 ptr in
             try_register (registerDefinition net n msk definition expansion) ptr)))"

fun strip_comments :: "bool \<Rightarrow> string \<Rightarrow> string" where
  "strip_comments inComment [] = []"
| "strip_comments inComment (c # ptr) =
     (let inComment = (if c = CHR 0x0A then False else if c = CHR ''#'' then True else inComment)
      in (if inComment then CHR '' '' else c) # strip_comments inComment ptr)"

text \<open>The loop, with a turn per definition; the errors of skipped definitions are collected.\<close>

fun parse_defs_loop ::
  "'w net \<Rightarrow> nat \<Rightarrow> nat \<Rightarrow> (scan_error \<times> string) list \<Rightarrow> string \<Rightarrow> ((scan_error \<times> string) list, 'w) ev" where
  "parse_defs_loop net n 0 errs ptr = stopE NoFuel"
| "parse_defs_loop net n (Suc k) errs ptr =
     (if ptr = [] then returnE errs
      else bindE (scanDefinition net n ptr) (\<lambda>(err, ptr).
        let errs = errs @ (case err of None \<Rightarrow> [] | Some x \<Rightarrow> [x]) in
        if peek ptr = CHR ''}'' then parse_defs_loop net n k errs (scanWhitespace (tl ptr))
        else returnE errs))"

definition parseDefs :: "'w net \<Rightarrow> nat \<Rightarrow> string \<Rightarrow> ((scan_error \<times> string) list, 'w) ev" where
  "parseDefs net n str =
     parse_defs_loop net n (Suc (length str)) [] (scanWhitespace (strip_comments False str))"

section \<open>Masks cover what they name\<close>

lemma mask_range_bits:
  assumes "a \<le> b" and "b < 30"
  shows "mask_range (word_of_nat a) (word_of_nat b) = Some (push_bit (b + 1) 1 - push_bit a 1)"
    and "bit (push_bit (b + 1) 1 - push_bit a (1 :: u32)) i \<longleftrightarrow> a \<le> i \<and> i \<le> b"
proof -
  have u: "unat (word_of_nat b :: u32) = b" "unat (word_of_nat a :: u32) = a"
    using assms by (simp_all add: unsigned_of_nat take_bit_nat_eq_self)
  have "(word_of_nat b :: u32) < 30" unfolding word_less_nat_alt u using assms(2) by simp
  moreover have "unat (word_of_nat b + 1 :: u32) = b + 1"
  proof -
    have "word_of_nat b + 1 = (word_of_nat (Suc b) :: u32)" by simp
    moreover have "unat (word_of_nat (Suc b) :: u32) = Suc b"
      using assms(2) by (simp add: unsigned_of_nat take_bit_nat_eq_self del: of_nat_Suc)
    ultimately show ?thesis by (simp only: Suc_eq_plus1)
  qed
  ultimately show "mask_range (word_of_nat a) (word_of_nat b) = Some (push_bit (b + 1) 1 - push_bit a 1)"
    by (simp add: mask_range_def u)
  have "push_bit (b + 1) 1 - push_bit a (1 :: u32) = push_bit a (mask (b + 1 - a))"
  proof -
    have "(2 :: u32) ^ (b + 1 - a) * 2 ^ a = 2 ^ (b + 1)"
      using assms(1) by (simp only: flip: power_add) simp
    then show ?thesis by (simp only: mask_eq_exp_minus_1 push_bit_eq_mult left_diff_distrib mult_1)
  qed
  then show "bit (push_bit (b + 1) 1 - push_bit a (1 :: u32)) i \<longleftrightarrow> a \<le> i \<and> i \<le> b"
    using assms by (auto simp: bit_simps)
qed

lemma decU_start: "peek (decU v @ r) = CHR ''0'' \<longleftrightarrow> v = 0"
proof (induction v arbitrary: r rule: decU.induct)
  case (1 v)
  have d: "\<forall>d \<in> set [0..<10]. hexdigit d = CHR ''0'' \<longleftrightarrow> d = 0" by code_simp
  show ?case
  proof (cases "v < 10")
    case True
    with d show ?thesis by (simp add: decU.simps [of v])
  next
    case False
    with "1.IH" show ?thesis by (simp add: decU.simps [of v] div_eq_0_iff)
  qed
qed

lemma scanLiteral_decU:
  assumes "ends r"
  shows "scanLiteral (decU v @ r) = Some (mk_value (word_of_nat v) AS_UNDEFINED, r)"
proof -
  have digits: "\<forall>c \<in> set (decU k). isxdigit c \<and> hexval c < 10" for k
    using decU_digits isdigit_isxdigit isdigit_hexval by blast
  have r: "\<not> isxdigit (peek r)" "scanSize r = (AS_UNDEFINED, r)" "\<not> isident (peek r)" "scanWhitespace r = r"
    using assms isxdigit_isident by (auto simp: ends_def scanSize_def ctype_defs)
  obtain c cs where c: "decU v = c # cs" by (cases "decU v") auto
  then have "isdigit c" using decU_digits(1) [of c v] by simp
  show ?thesis
  proof (cases "v = 0")
    case True
    then have "decU v = ''0''" by (simp add: decU.simps [of 0] hexdigit_def)
    moreover have "scanDigits 8 0 r = Some (0, r)" using r(1) by (cases r) auto
    moreover have "isdigit (CHR ''0'')" by (simp add: ctype_defs)
    moreover have "peek r \<noteq> CHR ''x'' \<and> peek r \<noteq> CHR ''b''" using r(3) by (auto simp: ctype_defs)
    ultimately show ?thesis using True r by (simp add: scanLiteral_def scanRadix_def)
  next
    case False
    with decU_start [of v r] c have "c \<noteq> CHR ''0''" by simp
    then have "scanRadix (decU v @ r) = (10, decU v @ r)" by (simp add: scanRadix_def c)
    moreover have "scanDigits 10 0 (decU v @ r) = Some (word_of_nat v, r)"
      using scanDigits_text [OF digits r(1), of 0 v] by (simp add: decU_value)
    ultimately show ?thesis using r \<open>isdigit c\<close> by (simp add: scanLiteral_def c)
  qed
qed

lemma scanContextMask_range:
  assumes "a < 32" and "b < 32" and "ends r"
  shows "scanContextMask (decU a @ ''..'' @ decU b @ r) = finish_mask (word_of_nat a) (word_of_nat b) r"
proof -
  obtain c cs where c: "decU a = c # cs" by (cases "decU a") auto
  then have "isdigit c" using decU_digits(1) [of c a] by simp
  then have c': "\<not> isspace c" "c \<noteq> CHR ''a''" by (auto simp: ctype_defs)
  obtain d ds where d: "decU b = d # ds" by (cases "decU b") auto
  then have "\<not> isspace d" using decU_digits(1) [of d b] by (auto simp: ctype_defs)
  have dots: "ends (''..'' @ s)" for s by (simp add: ends_def ctype_defs)
  have bound: "\<not> (word_of_nat k :: u32) > 31" if "k < 32" for k
    using that by (simp add: word_less_nat_alt unsigned_of_nat take_bit_nat_eq_self)
  have "scanWhitespace (decU a @ s) = decU a @ s" "\<not> starts_with ''all'' (decU a @ s)" for s
    using c' by (simp_all add: c)
  moreover have "scanWhitespace (decU b @ r) = decU b @ r"
    using \<open>\<not> isspace d\<close> by (simp add: d)
  ultimately show ?thesis
    using scanLiteral_decU [OF dots, of a "decU b @ r"] scanLiteral_decU [OF assms(3), of b] assms(1,2)
    by (simp add: scanContextMask_def bound)
qed

lemma finish_mask_range:
  assumes "max a b < 30"
  shows "finish_mask (word_of_nat a) (word_of_nat b) r =
    Ret (push_bit (max a b + 1) 1 - push_bit (min a b) 1, r)"
proof -
  have "(word_of_nat b :: u32) < word_of_nat a \<longleftrightarrow> b < a"
    using assms by (simp add: word_less_nat_alt unsigned_of_nat take_bit_nat_eq_self)
  with mask_range_bits(1) [of a b] mask_range_bits(1) [of b a] assms show ?thesis
    by (auto simp: finish_mask_def max_def min_def simp del: push_bit_Suc)
qed

lemma finish_mask_undefined:
  assumes "30 \<le> max a b" and "a < 32" and "b < 32"
  shows "finish_mask (word_of_nat a) (word_of_nat b) r = Undef"
  using assms
  by (auto simp: finish_mask_def mask_range_def word_less_nat_alt unsigned_of_nat
      take_bit_nat_eq_self max_def split: if_splits)

text \<open>
  C25. A context range selects exactly the contexts between its two numbers, in whichever order
  they are written, as long as both are below 30; with context 30 or 31 the computation of the
  mask overflows and is undefined.
\<close>

theorem parse_mask_range:
  assumes "a < 32" and "b < 32"
  shows "(max a b < 30 \<longrightarrow> (\<exists>m. parseMask (decU a @ ''..'' @ decU b) = Ret m \<and>
      (\<forall>i. bit m i \<longleftrightarrow> min a b \<le> i \<and> i \<le> max a b))) \<and>
    (30 \<le> max a b \<longrightarrow> parseMask (decU a @ ''..'' @ decU b) = Undef)"
proof -
  obtain c cs where c: "decU a = c # cs" by (cases "decU a") auto
  then have "\<not> isspace c" using decU_digits(1) [of c a] by (auto simp: ctype_defs)
  then have "scanWhitespace (decU a @ s) = decU a @ s" for s by (simp add: c)
  moreover have "ends []" by (simp add: ends_def)
  ultimately have "parseMask (decU a @ ''..'' @ decU b) =
      (case finish_mask (word_of_nat a) (word_of_nat b) [] of Ret (m, ptr) \<Rightarrow>
        if ptr \<noteq> [] then Fail UnexpectedToken ptr else Ret m
      | Fail err pos \<Rightarrow> Fail err pos | Fatal \<Rightarrow> Fatal | Undef \<Rightarrow> Undef | NoFuel \<Rightarrow> NoFuel)"
    using scanContextMask_range [OF assms, of "[]"] by (simp add: parseMask_def)
  then show ?thesis
    using finish_mask_range [of a b "[]"] finish_mask_undefined [OF _ assms, of "[]"]
      mask_range_bits(2) [of "min a b" "max a b"]
    by (auto simp del: push_bit_Suc)
qed

theorem parse_mask_range_witness:
  "\<exists>m. parseMask (decU 7 @ ''..'' @ decU 2) = Ret m \<and> bit m 5 \<and> \<not> bit m 8"
proof -
  from parse_mask_range [of 7 2] obtain m where "parseMask (decU 7 @ ''..'' @ decU 2) = Ret m"
    "\<forall>i. bit m i \<longleftrightarrow> 2 \<le> i \<and> i \<le> 7" by auto
  then show ?thesis by auto
qed

section \<open>Definition files\<close>

lemma scanContextMask_suffix:
  assumes "scanContextMask s = Ret (m, r)"
  shows "suffix r s"
proof -
  have drop_space: "suffix (scanWhitespace (drop k p)) p" for k p
    using scanWhitespace_suffix' suffix_drop by (blast intro: suffix_order.trans)
  have lit: "suffix r p" if "scanLiteral p = Some (v, r)" for p v r
    using scanLiteral_suffix [OF that] by (simp add: suffix_order.less_imp_le)
  have fin: "finish_mask a b p = Ret (m, r) \<Longrightarrow> r = p" for a b p
    by (auto simp: finish_mask_def split: option.splits)
  have "suffix r (scanWhitespace s)"
    using assms drop_space [of 3 "scanWhitespace s"]
    by (auto simp: scanContextMask_def Let_def split: if_splits option.splits
        dest!: lit fin) (meson drop_space suffix_order.trans)
  then show ?thesis using scanWhitespace_suffix' [of s] by (rule suffix_order.trans)
qed

lemma scan_expansion_suffix: "scan_expansion st p = (x, r) \<Longrightarrow> p = x @ r"
  by (induction st p arbitrary: x rule: scan_expansion.induct) (auto split: if_splits prod.splits)

lemma try_register_triple:
  "\<lbrakk>triple I N m (\<lambda>_. True) (\<lambda>_. True); Q ptr\<rbrakk> \<Longrightarrow> triple I N (try_register m ptr) (\<lambda>(err, r). Q r) E"
  unfolding triple_def try_register_def by (fastforce split: res.splits prod.splits)

text \<open>For an invariant of the store; every definition takes a part of the text.\<close>

lemma scanDefinition_triple:
  assumes "\<And>m d x e. I e \<Longrightarrow> I (e\<lparr>e_defs := snd (defs_register m d x (e_defs e))\<rparr>)"
    and "N \<or> 2 * length p + 2 \<le> n"
  shows "triple I N (scanDefinition net n p) (\<lambda>(err, r). length r < length p) (\<lambda>_. True)"
proof -
  let ?p = "scanWhitespace p"
  have p: "length ?p \<le> length p" using scanWhitespace_suffix' suffix_length_le by blast
  have mask: "triple I N (stopE (scanContextMask ?p)) (\<lambda>(m, r). length r \<le> length p) (\<lambda>_. True)"
  proof -
    have "scanContextMask ?p \<noteq> NoFuel"
      by (auto simp: scanContextMask_def finish_mask_def Let_def split: option.splits)
    moreover have "scanContextMask ?p = Ret (m, r) \<Longrightarrow> length r \<le> length p" for m r
      using suffix_length_le [OF scanContextMask_suffix] p by (meson order_trans)
    ultimately show ?thesis by (auto simp: triple_def stopE_def split: res.splits)
  qed
  have register: "triple I N (registerDefinition net n m d x) (\<lambda>_. True) (\<lambda>_. True)"
    if "length x \<le> length p" for m d x
  proof -
    have "triple I N (scanExpression net n x (-1)) (\<lambda>_. True) (\<lambda>_. True)"
      using scanners_ok [of "-1" I "\<lambda>_. True" N 0 x n net] assms(2) that
      by (auto simp: need_def elim!: triple_mono)
    moreover have "triple I N (modifyE (\<lambda>e. e\<lparr>e_defs := snd (defs_register m d x (e_defs e))\<rparr>))
        (\<lambda>_. True) (\<lambda>_. True)"
      using assms(1) by (simp add: triple_def modifyE_def)
    ultimately show ?thesis
      unfolding registerDefinition_def by (auto intro!: triple_bind triple_fail)
  qed
  have expect: "triple I N (expectE c q) (\<lambda>r. length r < length q) (\<lambda>_. True)" if "c \<noteq> CHR 0x00" for c q
    using that by (intro triple_expect) (auto dest: suffix_length_less)
  have body: "triple I N (case scan_expansion 0 q of (x, r) \<Rightarrow> try_register (registerDefinition net n m d x) r)
      (\<lambda>(err, r). length r < length p) (\<lambda>_. True)" if "length q < length p" for m d q
  proof -
    obtain x r where x: "scan_expansion 0 q = (x, r)" by force
    with scan_expansion_suffix [OF x] that show ?thesis
      by (auto intro!: try_register_triple register)
  qed
  have name: "length r < length q" if "scanIdentifier q = Some (d, r)" for q d r
    using scanIdentifier_suffix [OF that] by (simp add: suffix_length_less)
  show ?thesis
    unfolding scanDefinition_def Let_def
    by (auto intro!: triple_bind [OF mask] triple_bind [OF expect] body triple_fail
        split: option.split dest!: name)
qed

lemma parse_defs_loop_triple:
  assumes "\<And>m d x e. I e \<Longrightarrow> I (e\<lparr>e_defs := snd (defs_register m d x (e_defs e))\<rparr>)"
  shows "\<lbrakk>length p < k; N \<or> 2 * length p + 2 \<le> n\<rbrakk> \<Longrightarrow>
    triple I N (parse_defs_loop net n k errs p) (\<lambda>_. True) (\<lambda>_. True)"
proof (induction k arbitrary: errs p)
  case (Suc k)
  have skip: "length (scanWhitespace (tl r)) \<le> length r" for r
    using scanWhitespace_suffix' [of "tl r"] suffix_length_le by fastforce
  have "triple I N (parse_defs_loop net n k es (scanWhitespace (tl r))) (\<lambda>_. True) (\<lambda>_. True)"
    if "length r < length p" for es r
    using Suc.prems that skip [of r] by (intro Suc.IH) auto
  then show ?case
    using Suc.prems
    by (auto simp: Let_def intro!: triple_return triple_bind [OF scanDefinition_triple [where I = I, OF assms]])
qed simp

lemma length_strip_comments [simp]: "length (strip_comments b s) = length s"
  by (induction b s rule: strip_comments.induct) (auto simp: Let_def)

lemma parseDefs_triple:
  assumes "\<And>m d x e. I e \<Longrightarrow> I (e\<lparr>e_defs := snd (defs_register m d x (e_defs e))\<rparr>)"
    and "N \<or> 2 * length str + 2 \<le> n"
  shows "triple I N (parseDefs net n str) (\<lambda>_. True) (\<lambda>_. True)"
proof -
  have "length (scanWhitespace (strip_comments False str)) \<le> length str"
    using suffix_length_le [OF scanWhitespace_suffix', of "strip_comments False str"] by simp
  with assms(2) show ?thesis
    unfolding parseDefs_def by (intro parse_defs_loop_triple assms(1)) auto
qed

text \<open>
  C8. Loading a definition file always ends, whatever its text (with two steps per character),
  keeps the store well formed, and touches nothing but the store: no access to the target, no
  preload, no output.
\<close>

theorem parseDefs_terminates_locally:
  assumes "table_wf (e_defs e)" and "2 * length str + 2 \<le> n"
  shows "fst (parseDefs net n str e) \<noteq> NoFuel \<and>
    (\<exists>t. snd (parseDefs net n str e) = e\<lparr>e_defs := t\<rparr> \<and> table_wf t)"
proof -
  let ?I = "\<lambda>e'. \<exists>t. e' = e\<lparr>e_defs := t\<rparr> \<and> table_wf t"
  have "triple ?I False (parseDefs net n str) (\<lambda>_. True) (\<lambda>_. True)"
    by (rule parseDefs_triple) (use assms(2) in \<open>auto simp: defs_register_wf\<close>)
  moreover have "?I e" using assms(1) by (intro exI [of _ "e_defs e"]) simp
  ultimately show ?thesis by (auto simp: triple_def split: res.splits)
qed

theorem parseDefs_terminates_locally_witness:
  "fst (parseDefs server_net 99 ''all: A { 1 } # 2'' demo_env) \<noteq> NoFuel"
  using parseDefs_terminates_locally [OF demo_env_wf(1), of "''all: A { 1 } # 2''" 99 server_net] by simp

section \<open>Printing and loading\<close>

datatype context_set = AllContexts | Contexts nat nat

fun mask_text :: "context_set \<Rightarrow> string" where
  "mask_text AllContexts = ''all''"
| "mask_text (Contexts a b) = decU a @ ''..'' @ decU b"

fun mask_bits :: "context_set \<Rightarrow> u32" where
  "mask_bits AllContexts = 0xFFFFFFFF"
| "mask_bits (Contexts a b) = push_bit (max a b + 1) 1 - push_bit (min a b) 1"

fun context_ok :: "context_set \<Rightarrow> bool" where
  "context_ok AllContexts = True"
| "context_ok (Contexts a b) = (max a b < 30)"

type_synonym definition_entry = "context_set \<times> string \<times> string"

definition definition_text :: "definition_entry \<Rightarrow> string" where
  "definition_text d = (case d of (c, name, x) \<Rightarrow>
     mask_text c @ CHR '':'' # name @ CHR ''{'' # x @ [CHR ''}'', CHR 0x0A])"

definition register_entry :: "definition_entry \<Rightarrow> def_table \<Rightarrow> def_table" where
  "register_entry d t = (case d of (c, name, x) \<Rightarrow> snd (defs_register (mask_bits c) name x t))"

text \<open>
  An entry the file format can hold: an identifier, and an expression the syntax check accepts
  whole. It has no \<open>#\<close>, which starts a comment even in a string, its strings are closed, and a
  closing brace is inside a string.
\<close>

fun contained :: "nat \<Rightarrow> string \<Rightarrow> bool" where
  "contained st [] = (st = 0)"
| "contained st (c # cs) = ((c = CHR ''}'' \<longrightarrow> st \<noteq> 0) \<and> contained (next_strState st c) cs)"

definition entry_ok :: "'w net \<Rightarrow> nat \<Rightarrow> definition_entry \<Rightarrow> bool" where
  "entry_ok net n d \<longleftrightarrow> (case d of (c, name, x) \<Rightarrow>
     context_ok c \<and> name \<noteq> [] \<and> (\<forall>ch \<in> set name. isident ch) \<and> \<not> isdigit (hd name) \<and>
     contained 0 x \<and> CHR ''#'' \<notin> set x \<and> \<not> isspace (peek x) \<and> x \<noteq> [] \<and>
     (\<forall>e. \<exists>v. scanExpression net n x (-1) e = (Ret (v, []), e)))"

lemma strip_comments_id: "CHR ''#'' \<notin> set s \<Longrightarrow> strip_comments False s = s"
  by (induction s) auto

lemma scan_expansion_plain:
  "contained st x \<Longrightarrow> scan_expansion st (x @ CHR ''}'' # r) = (x, CHR ''}'' # r)"
  by (induction st x rule: contained.induct) auto

lemma colon_ends [simp]: "ends (CHR '':'' # r)"
  by (simp add: ends_def ctype_defs)

lemma scanContextMask_text:
  assumes "context_ok c"
  shows "scanContextMask (mask_text c @ CHR '':'' # r) = Ret (mask_bits c, CHR '':'' # r)"
proof (cases c)
  case AllContexts
  have "\<not> isident (CHR '':'')" "\<not> isspace (CHR '':'')" "\<not> isspace (CHR ''a'')" by (simp_all add: ctype_defs)
  then show ?thesis by (simp add: AllContexts scanContextMask_def)
next
  case (Contexts a b)
  with assms scanContextMask_range [of a b "CHR '':'' # r"] finish_mask_range [of a b] show ?thesis
    by simp
qed

lemma mask_text_start: "context_ok c \<Longrightarrow> \<not> isspace (peek (mask_text c @ r)) \<and> mask_text c \<noteq> []"
proof (cases c)
  case (Contexts a b)
  obtain ch cs where ch: "decU a = ch # cs" by (cases "decU a") auto
  then have "isdigit ch" using decU_digits(1) [of ch a] by simp
  then show ?thesis by (auto simp: Contexts ch ctype_defs)
qed (auto simp: ctype_defs)

lemma scanDefinition_text:
  assumes "entry_ok net n (c, name, x)"
  shows "scanDefinition net n (definition_text (c, name, x) @ r) e =
    (Ret (None, CHR ''}'' # CHR 0x0A # r), e\<lparr>e_defs := register_entry (c, name, x) (e_defs e)\<rparr>)"
proof -
  from assms have c: "context_ok c" and name: "name \<noteq> []" "\<forall>ch \<in> set name. isident ch" "\<not> isdigit (hd name)"
    and x: "contained 0 x" "\<not> isspace (peek x)" "x \<noteq> []"
    and check: "\<And>e. \<exists>v. scanExpression net n x (-1) e = (Ret (v, []), e)"
    by (auto simp: entry_ok_def)
  let ?x = "x @ CHR ''}'' # CHR 0x0A # r"
  have id: "scanIdentifier (name @ CHR ''{'' # ?x) = Some (name, CHR ''{'' # ?x)"
    using name by (cases name)
      (auto simp: scanIdentifier_def takeWhile_append2 dropWhile_append2 scanWhitespace_def ctype_defs)
  have sp: "\<not> isspace (peek (name @ s))" "\<not> isspace (peek ?x)" for s
    using name x isspace_not_ident by (cases name; cases x; auto)+
  obtain v where "scanExpression net n x (-1) e = (Ret (v, []), e)" using check by blast
  then have reg: "registerDefinition net n (mask_bits c) name x e =
      (Ret (), e\<lparr>e_defs := register_entry (c, name, x) (e_defs e)\<rparr>)"
    by (simp add: registerDefinition_def bindE_def modifyE_def register_entry_def)
  have "scanDefinition net n (definition_text (c, name, x) @ r) e =
      try_register (registerDefinition net n (mask_bits c) name x) (CHR ''}'' # CHR 0x0A # r) e"
    using scanContextMask_text [OF c] mask_text_start [OF c]
    by (simp add: scanDefinition_def definition_text_def stopE_def bindE_Ret expectE_char sp id
        scan_expansion_plain [OF x(1)])
  then show ?thesis by (simp add: try_register_def reg)
qed

lemma definition_text_plain:
  assumes "entry_ok net n d"
  shows "CHR ''#'' \<notin> set (definition_text d)"
proof -
  obtain c name x where d: "d = (c, name, x)" by (cases d) auto
  have ident: "isident ch \<Longrightarrow> ch \<noteq> CHR ''#''" for ch by (auto simp: ctype_defs)
  have digits: "CHR ''#'' \<notin> set (decU v)" for v
    using decU_digits(2) [of "CHR ''#''" v] ident by blast
  then have "CHR ''#'' \<notin> set (mask_text c)" by (cases c) simp_all
  with assms ident show ?thesis by (auto simp: d entry_ok_def definition_text_def)
qed

lemma parse_defs_loop_text:
  "\<lbrakk>\<forall>d \<in> set ds. entry_ok net n d; length ds < k\<rbrakk> \<Longrightarrow>
    parse_defs_loop net n k errs (concat (map definition_text ds)) e =
      (Ret errs, e\<lparr>e_defs := fold register_entry ds (e_defs e)\<rparr>)"
proof (induction ds arbitrary: k e)
  case Nil
  then show ?case by (cases k) (simp_all add: returnE_def)
next
  case (Cons d ds)
  then obtain k' where k: "k = Suc k'" by (cases k) auto
  obtain c name x where d: "d = (c, name, x)" by (cases d) auto
  let ?r = "concat (map definition_text ds)"
  have ok: "entry_ok net n (c, name, x)" using Cons.prems(1) by (simp add: d)
  have ne: "definition_text d \<noteq> []" by (simp add: d definition_text_def)
  have "\<not> isspace (peek ?r)"
  proof (cases ds)
    case (Cons d' ds')
    with Cons.prems(1) show ?thesis
      using mask_text_start by (cases d') (auto simp: definition_text_def entry_ok_def)
  qed simp
  then have "scanWhitespace (CHR 0x0A # ?r) = ?r"
    by (simp add: scanWhitespace_def [of "_ # _"] ctype_defs flip: scanWhitespace_def)
  with Cons.IH [of k'] Cons.prems ne show ?case
    by (simp add: k d bindE_Ret [OF scanDefinition_text [OF ok]])
qed

text \<open>
  C7. A printed definition file loads to exactly its definitions: every entry is registered for
  exactly its contexts with its expression as written, in the order of the file, with no error.
  The entries are those the format can hold (\<open>entry_ok\<close>): their expressions pass the syntax check,
  have no comment character, close their strings, and have a closing brace in a string only.
\<close>

theorem parse_definition_file:
  assumes "\<forall>d \<in> set ds. entry_ok net n d"
  shows "parseDefs net n (concat (map definition_text ds)) e =
    (Ret [], e\<lparr>e_defs := fold register_entry ds (e_defs e)\<rparr>)"
proof -
  let ?t = "concat (map definition_text ds)"
  have "CHR ''#'' \<notin> set ?t" using assms definition_text_plain by fastforce
  then have strip: "strip_comments False ?t = ?t" by (rule strip_comments_id)
  have start: "\<not> isspace (peek ?t)"
  proof (cases ds)
    case (Cons d' ds')
    with assms show ?thesis
      using mask_text_start by (cases d') (auto simp: definition_text_def entry_ok_def)
  qed simp
  have "length ds \<le> length ?t"
  proof (induction ds)
    case (Cons d ds)
    then show ?case by (cases d) (simp add: definition_text_def)
  qed simp
  then show ?thesis
    using start parse_defs_loop_text [OF assms, of "Suc (length ?t)" "[]" e]
    by (simp add: parseDefs_def strip del: parse_defs_loop.simps)
qed

theorem parse_definition_file_witness:
  "parseDefs server_net 6 ''all:A{1}\<newline>0..3:B{A + 2 }\<newline>'' demo_env =
    (Ret [], demo_env\<lparr>e_defs := snd (defs_register 15 ''B'' ''A + 2 '' (snd (defs_register 0xFFFFFFFF ''A'' ''1'' initial_defs)))\<rparr>)"
proof -
  let ?ds = "[(AllContexts, ''A'', ''1''), (Contexts 0 3, ''B'', ''A + 2 '')]"
  have "\<forall>d \<in> set ?ds. entry_ok server_net 6 d"
    by (simp add: entry_ok_def eval_nat_numeral expression_body_def operand_body_def bindE_def
        returnE_def ctype_defs scanLiteral_def scanRadix_def scanSize_def scanWhitespace_def next_strState_def
        scanIdentifier_def expand_definition_def scanOperator_def operator_table_def Let_def
        zero_value_def hexval_def)
  from parse_definition_file [OF this, of demo_env]
  show ?thesis by (simp add: definition_text_def decU.simps hexdigit_def register_entry_def demo_env_def)
qed

end
