(* ===== verification/Srec.thy ===== *)
theory Srec
  imports Rvsrv_Server
begin

text \<open>
  Motorola S-record files (\<open>rvd/srec.c\<close>): the reader is a state machine over pairs of
  characters that keeps its state between calls, stops where the addresses of the file and of
  the caller disagree, and skips what it does not understand; the writer prints records of at
  most 16 bytes. A file is the list of its remaining characters; reading it does not fail.
  The warnings printed to stdout are collected with their line number.
\<close>

section \<open>The reader\<close>

datatype srec_phase = SRS_RECORD | SRS_COUNT | SRS_ADDRESS | SRS_DATA | SRS_CHECKSUM | SRS_EOL

datatype srec_warning = WarnEof | WarnEol int | WarnNoS int | WarnCharacter int | WarnChecksum int

record srec =
  sr_state :: srec_phase
  addrRemain :: int
  dataRemain :: int
  linesRead :: int
  checksum :: u8
  sr_address :: u32
  fileBytesReadDelta :: int
  isEof :: bool
  warnings :: "srec_warning list"

definition srecReadInit :: srec where
  "srecReadInit = \<lparr>sr_state = SRS_RECORD, addrRemain = 0, dataRemain = 0, linesRead = 0, checksum = 0,
     sr_address = 0, fileBytesReadDelta = 0, isEof = False, warnings = []\<rparr>"

definition srec_warn :: "srec_warning \<Rightarrow> srec \<Rightarrow> srec" where
  "srec_warn w s = s\<lparr>warnings := warnings s @ [w]\<rparr>"

definition unexpected_eol :: "srec \<Rightarrow> srec" where
  "unexpected_eol s = (srec_warn (WarnEol (linesRead s + 1)) s)
     \<lparr>linesRead := linesRead s + 1, sr_state := SRS_RECORD\<rparr>"

definition srec_record :: "char \<Rightarrow> char \<Rightarrow> srec \<Rightarrow> srec" where
  "srec_record c0 c1 s =
     (let s = s\<lparr>checksum := 0\<rparr> in
      if c0 = CHR 0x0A \<or> c1 = CHR 0x0A then unexpected_eol s
      else if c0 \<noteq> CHR ''S'' then (srec_warn (WarnNoS (linesRead s + 1)) s)\<lparr>sr_state := SRS_EOL\<rparr>
      else if c1 = CHR ''1'' then s\<lparr>addrRemain := 2, sr_state := SRS_COUNT\<rparr>
      else if c1 = CHR ''2'' then s\<lparr>addrRemain := 3, sr_state := SRS_COUNT\<rparr>
      else if c1 = CHR ''3'' then s\<lparr>addrRemain := 4, sr_state := SRS_COUNT\<rparr>
      else s\<lparr>sr_state := SRS_EOL\<rparr>)"

text \<open>The hexadecimal digits of a record, upper case only.\<close>

definition srec_nibble :: "char \<Rightarrow> u8 option" where
  "srec_nibble c =
     (if isdigit c then Some (word_of_nat (code c - 48))
      else if 65 \<le> code c \<and> code c \<le> 70 then Some (word_of_nat (code c - 65 + 10)) else None)"

text \<open>A byte of a record: the new state, and the byte when it is data for the buffer.\<close>

definition srec_byte :: "u8 \<Rightarrow> srec \<Rightarrow> srec \<times> u8 option" where
  "srec_byte b s =
     (let (s', d) = (case sr_state s of
          SRS_COUNT \<Rightarrow> (s\<lparr>dataRemain := uint b - 1 - addrRemain s, sr_state := SRS_ADDRESS,
                           sr_address := 0\<rparr>, None)
        | SRS_ADDRESS \<Rightarrow>
            (let s = s\<lparr>sr_address := push_bit 8 (sr_address s) OR ucast b, addrRemain := addrRemain s - 1\<rparr>
             in (if addrRemain s = 0 then s\<lparr>sr_state := SRS_DATA\<rparr> else s, None))
        | SRS_DATA \<Rightarrow>
            (let s = s\<lparr>sr_address := sr_address s + 1, dataRemain := dataRemain s - 1\<rparr>
             in (if dataRemain s = 0 then s\<lparr>sr_state := SRS_CHECKSUM\<rparr> else s, Some b))
        | SRS_CHECKSUM \<Rightarrow>
            ((if b \<noteq> NOT (checksum s) then srec_warn (WarnChecksum (linesRead s + 1)) s else s)
              \<lparr>sr_state := SRS_EOL\<rparr>, None)
        | _ \<Rightarrow> (s, None))
      in (s'\<lparr>checksum := checksum s' + b\<rparr>, d))"

definition srec_pair :: "char \<Rightarrow> char \<Rightarrow> srec \<Rightarrow> srec \<times> u8 option" where
  "srec_pair c0 c1 s =
     (if sr_state s = SRS_RECORD then (srec_record c0 c1 s, None)
      else if c0 = CHR 0x0A \<or> c1 = CHR 0x0A then (unexpected_eol s, None)
      else let bad = (srec_warn (WarnCharacter (linesRead s + 1)) s)\<lparr>sr_state := SRS_EOL\<rparr> in
        case srec_nibble c0 of None \<Rightarrow> (bad, None)
        | Some h \<Rightarrow> (case srec_nibble c1 of None \<Rightarrow> (bad, None)
          | Some l \<Rightarrow> srec_byte (push_bit 4 h OR l) s))"

definition srec_eol :: "char \<Rightarrow> srec \<Rightarrow> srec" where
  "srec_eol c s = (if c = CHR 0x0A then s\<lparr>linesRead := linesRead s + 1, sr_state := SRS_RECORD\<rparr> else s)"

definition srec_end :: "srec \<Rightarrow> srec" where
  "srec_end s = (if sr_state s \<noteq> SRS_RECORD \<and> sr_state s \<noteq> SRS_EOL then srec_warn WarnEof s else s)
     \<lparr>isEof := True\<rparr>"

definition progress :: "int \<Rightarrow> srec \<Rightarrow> srec" where
  "progress n s = s\<lparr>fileBytesReadDelta := fileBytesReadDelta s + n\<rparr>"

text \<open>The loop: free space of the buffer, address of its next byte, bytes read so far.\<close>

function srecRead_loop :: "nat \<Rightarrow> u32 \<Rightarrow> u8 list \<Rightarrow> srec \<Rightarrow> string \<Rightarrow> srec \<times> string \<times> u8 list" where
  "srecRead_loop remain addr buf s f =
     (if remain = 0 \<or> sr_state s = SRS_DATA \<and> addr \<noteq> sr_address s then (s, f, buf)
      else if sr_state s = SRS_EOL then
        (case f of [] \<Rightarrow> (srec_end s, [], buf)
         | c # f' \<Rightarrow> srecRead_loop remain addr buf (srec_eol c (progress 1 s)) f')
      else (case f of
          c0 # c1 # f' \<Rightarrow>
            (case srec_pair c0 c1 (progress 2 s) of
               (s', None) \<Rightarrow> srecRead_loop remain addr buf s' f'
             | (s', Some b) \<Rightarrow> srecRead_loop (remain - 1) (addr + 1) (buf @ [b]) s' f')
        | _ \<Rightarrow> (srec_end s, [], buf)))"
  by pat_completeness auto
termination
  by (relation "measure (\<lambda>(remain, addr, buf, s, f). length f)") auto

declare srecRead_loop.simps [simp del]

definition srecRead :: "nat \<Rightarrow> u32 \<Rightarrow> srec \<Rightarrow> string \<Rightarrow> srec \<times> string \<times> u8 list" where
  "srecRead count addr s f = srecRead_loop count addr [] s f"

definition srecReadProgressDelta :: "srec \<Rightarrow> int \<times> srec" where
  "srecReadProgressDelta s = (fileBytesReadDelta s, s\<lparr>fileBytesReadDelta := 0\<rparr>)"

definition srecReadEof :: "srec \<Rightarrow> bool" where
  "srecReadEof s = isEof s"

definition srecReadExpectedAddress :: "srec \<Rightarrow> u32" where
  "srecReadExpectedAddress s = sr_address s"

section \<open>The writer\<close>

definition addr_size :: "u32 \<Rightarrow> nat" where
  "addr_size a = (if a AND 0xFF000000 \<noteq> 0 then 4 else if a AND 0xFFFF0000 \<noteq> 0 then 3 else 2)"

definition record_type :: "char \<Rightarrow> nat \<Rightarrow> char" where
  "record_type t n =
     (if t \<in> {CHR ''1'', CHR ''2'', CHR ''3''} then char_of (49 + (n - 2))
      else if t \<in> {CHR ''5'', CHR ''6''} then char_of (53 + (n - 2))
      else if t \<in> {CHR ''7'', CHR ''8'', CHR ''9''} then char_of (57 - (n - 2))
      else t)"

text \<open>The bytes of the address, least significant first, as the loop adds them up.\<close>

fun addr_sum :: "nat \<Rightarrow> u32 \<Rightarrow> u8" where
  "addr_sum 0 a = 0"
| "addr_sum (Suc n) a = ucast a + addr_sum n (drop_bit 8 a)"

definition srecWriteRecord :: "char \<Rightarrow> u32 \<Rightarrow> u8 list \<Rightarrow> string" where
  "srecWriteRecord t a bs =
     (let n = addr_size a;
          sum = word_of_nat (length bs + n + 1) + addr_sum n a + sum_list bs in
      CHR ''S'' # record_type t n # hexU 2 (length bs + n + 1) @ hexU (n * 2) (unat a) @
      hex_bytes bs @ hexU 2 (unat (NOT sum)) @ [CHR 0x0D, CHR 0x0A])"

definition srecWriteHeader :: string where
  "srecWriteHeader = srecWriteRecord (CHR ''0'') 0 (map (word_of_nat \<circ> code) ''rvex dump'' @ [0])"

text \<open>The text written for a buffer and the number of bytes taken from it.\<close>

definition srecWrite :: "u8 list \<Rightarrow> u32 \<Rightarrow> string \<times> nat" where
  "srecWrite bs a = (let n = min (length bs) 16 in (srecWriteRecord (CHR ''1'') a (take n bs), n))"

definition srecWriteFooter :: "nat \<Rightarrow> string" where
  "srecWriteFooter records =
     srecWriteRecord (CHR ''5'') (word_of_nat records) [] @ srecWriteRecord (CHR ''7'') 0 []"

section \<open>Reading the bytes of a record\<close>

text \<open>What the records carry along: neither a warning nor the end of the file so far.\<close>

definition quiet :: "srec \<Rightarrow> srec \<Rightarrow> bool" where
  "quiet s s' \<longleftrightarrow> warnings s' = warnings s \<and> isEof s' = isEof s"

lemma quiet_refl [simp]: "quiet s s"
  by (simp add: quiet_def)

lemma quiet_trans: "quiet s s' \<Longrightarrow> quiet s' s'' \<Longrightarrow> quiet s s''"
  by (simp add: quiet_def)

lemma srec_nibble_hexdigit: "d < 16 \<Longrightarrow> srec_nibble (hexdigit d) = Some (word_of_nat d)"
proof -
  have "\<forall>d \<in> set [0..<16]. srec_nibble (hexdigit d) = Some (word_of_nat d)" by code_simp
  then show "d < 16 \<Longrightarrow> srec_nibble (hexdigit d) = Some (word_of_nat d)" by auto
qed

lemma hexdigit_no_newline: "d < 16 \<Longrightarrow> hexdigit d \<noteq> CHR 0x0A"
  using hexdigit_props(4) [of d] by (auto simp: ctype_defs)

lemma loop_stop [simp]: "srecRead_loop 0 addr buf s f = (s, f, buf)"
  by (simp add: srecRead_loop.simps)

lemma loop_byte:
  assumes "remain \<noteq> 0" and "sr_state s \<noteq> SRS_RECORD" and "sr_state s \<noteq> SRS_EOL"
    and "sr_state s = SRS_DATA \<longrightarrow> addr = sr_address s"
  shows "srecRead_loop remain addr buf s (hexU 2 (unat b) @ f) =
    (case srec_byte b (progress 2 s) of
       (s', None) \<Rightarrow> srecRead_loop remain addr buf s' f
     | (s', Some d) \<Rightarrow> srecRead_loop (remain - 1) (addr + 1) (buf @ [d]) s' f)"
proof -
  have "srec_pair (hexdigit (unat b div 16 mod 16)) (hexdigit (unat b mod 16)) (progress 2 s) =
      srec_byte b (progress 2 s)"
    using assms(2) byte_of_nibbles [of b]
    by (simp add: srec_pair_def progress_def srec_nibble_hexdigit hexdigit_no_newline)
  then show ?thesis
    using assms(1,3,4)
    by (subst srecRead_loop.simps) (cases "sr_state s = SRS_DATA"; simp add: hexU_2)
qed

lemma loop_address:
  "\<lbrakk>sr_state s = SRS_ADDRESS; addrRemain s = int (length as); as \<noteq> []; remain \<noteq> 0\<rbrakk> \<Longrightarrow>
    \<exists>s'. srecRead_loop remain addr buf s (hex_bytes as @ f) = srecRead_loop remain addr buf s' f \<and>
      sr_state s' = SRS_DATA \<and> dataRemain s' = dataRemain s \<and>
      sr_address s' = foldl (\<lambda>a b. push_bit 8 a OR ucast b) (sr_address s) as \<and>
      checksum s' = checksum s + sum_list as \<and> quiet s s'"
proof (induction as arbitrary: s)
  case (Cons b as)
  obtain s1 where s1: "srec_byte b (progress 2 s) = (s1, None)" "addrRemain s1 = int (length as)"
    "sr_state s1 = (if as = [] then SRS_DATA else SRS_ADDRESS)" "dataRemain s1 = dataRemain s"
    "sr_address s1 = push_bit 8 (sr_address s) OR ucast b" "checksum s1 = checksum s + b" "quiet s s1"
    using Cons.prems(1,2) by (auto simp: srec_byte_def progress_def Let_def quiet_def)
  have step: "srecRead_loop remain addr buf s (hex_bytes (b # as) @ f) =
      srecRead_loop remain addr buf s1 (hex_bytes as @ f)"
    using loop_byte [of remain s addr buf b "hex_bytes as @ f"] Cons.prems(1,4) by (simp add: s1(1))
  show ?case
  proof (cases "as = []")
    case True
    with step s1 show ?thesis by (intro exI [of _ s1]) (simp add: ac_simps)
  next
    case False
    with Cons.IH [of s1] s1 Cons.prems(4) obtain s' where
      "srecRead_loop remain addr buf s1 (hex_bytes as @ f) = srecRead_loop remain addr buf s' f"
      "sr_state s' = SRS_DATA" "dataRemain s' = dataRemain s1"
      "sr_address s' = foldl (\<lambda>a b. push_bit 8 a OR ucast b) (sr_address s1) as"
      "checksum s' = checksum s1 + sum_list as" "quiet s1 s'" by auto
    with step s1 show ?thesis
      by (intro exI [of _ s']) (auto simp: ac_simps intro: quiet_trans)
  qed
qed simp

lemma loop_data:
  "\<lbrakk>sr_state s = SRS_DATA; sr_address s = addr; dataRemain s = int (length ds + r);
    ds \<noteq> []; length ds \<le> remain\<rbrakk> \<Longrightarrow>
    \<exists>s'. srecRead_loop remain addr buf s (hex_bytes ds @ f) =
        srecRead_loop (remain - length ds) (addr + word_of_nat (length ds)) (buf @ ds) s' f \<and>
      sr_state s' = (if r = 0 then SRS_CHECKSUM else SRS_DATA) \<and> dataRemain s' = int r \<and>
      sr_address s' = addr + word_of_nat (length ds) \<and>
      checksum s' = checksum s + sum_list ds \<and> quiet s s'"
proof (induction ds arbitrary: s addr buf remain)
  case (Cons b ds)
  obtain s1 where s1: "srec_byte b (progress 2 s) = (s1, Some b)" "dataRemain s1 = int (length ds + r)"
    "sr_state s1 = (if length ds + r = 0 then SRS_CHECKSUM else SRS_DATA)"
    "sr_address s1 = addr + 1" "checksum s1 = checksum s + b" "quiet s s1"
    using Cons.prems(1-3)
    by (cases "length ds + r = 0") (auto simp: srec_byte_def progress_def Let_def quiet_def)
  have step: "srecRead_loop remain addr buf s (hex_bytes (b # ds) @ f) =
      srecRead_loop (remain - 1) (addr + 1) (buf @ [b]) s1 (hex_bytes ds @ f)"
    using loop_byte [of remain s addr buf b "hex_bytes ds @ f"] Cons.prems by (auto simp: s1(1))
  show ?case
  proof (cases "ds = []")
    case True
    with step s1 show ?thesis by (intro exI [of _ s1]) simp
  next
    case False
    moreover have "length ds \<le> remain - 1" using Cons.prems(5) by simp
    ultimately obtain s' where
      "srecRead_loop (remain - 1) (addr + 1) (buf @ [b]) s1 (hex_bytes ds @ f) =
        srecRead_loop (remain - 1 - length ds) (addr + 1 + word_of_nat (length ds)) ((buf @ [b]) @ ds) s' f"
      "sr_state s' = (if r = 0 then SRS_CHECKSUM else SRS_DATA)" "dataRemain s' = int r"
      "sr_address s' = addr + 1 + word_of_nat (length ds)"
      "checksum s' = checksum s1 + sum_list ds" "quiet s1 s'"
      using Cons.IH [of s1 "addr + 1" "remain - 1" "buf @ [b]"] s1 by auto
    with step s1 show ?thesis
      by (intro exI [of _ s']) (auto simp: ac_simps intro: quiet_trans)
  qed
qed simp

abbreviation crlf :: string where
  "crlf \<equiv> [CHR 0x0D, CHR 0x0A]"

text \<open>In \<open>SRS_EOL\<close> everything up to the newline is skipped.\<close>

lemma loop_eol:
  "\<lbrakk>sr_state s = SRS_EOL; remain \<noteq> 0; CHR 0x0A \<notin> set x\<rbrakk> \<Longrightarrow>
    \<exists>s'. srecRead_loop remain addr buf s (x @ CHR 0x0A # f) = srecRead_loop remain addr buf s' f \<and>
      sr_state s' = SRS_RECORD \<and> sr_address s' = sr_address s \<and> quiet s s'"
proof (induction x arbitrary: s)
  case Nil
  let ?s = "srec_eol (CHR 0x0A) (progress 1 s)"
  from Nil have "srecRead_loop remain addr buf s (CHR 0x0A # f) = srecRead_loop remain addr buf ?s f"
    by (subst srecRead_loop.simps) simp
  then show ?case by (intro exI [of _ ?s]) (simp add: srec_eol_def progress_def quiet_def)
next
  case (Cons c x)
  let ?s = "srec_eol c (progress 1 s)"
  have s: "?s = progress 1 s" using Cons.prems(3) by (auto simp: srec_eol_def)
  have step: "srecRead_loop remain addr buf s ((c # x) @ CHR 0x0A # f) =
      srecRead_loop remain addr buf (progress 1 s) (x @ CHR 0x0A # f)"
    using Cons.prems by (subst srecRead_loop.simps) (simp add: s)
  from Cons.IH [of "progress 1 s"] Cons.prems obtain s' where
    "srecRead_loop remain addr buf (progress 1 s) (x @ CHR 0x0A # f) = srecRead_loop remain addr buf s' f"
    "sr_state s' = SRS_RECORD" "sr_address s' = sr_address s" "quiet (progress 1 s) s'"
    by (auto simp: progress_def)
  with step show ?case by (intro exI [of _ s']) (auto simp: quiet_def progress_def)
qed

lemma loop_checksum:
  assumes "sr_state s = SRS_CHECKSUM" and "remain \<noteq> 0"
  shows "\<exists>s'. srecRead_loop remain addr buf s (hexU 2 (unat (NOT (checksum s))) @ crlf @ f) =
      srecRead_loop remain addr buf s' f \<and> sr_state s' = SRS_RECORD \<and> sr_address s' = sr_address s \<and> quiet s s'"
proof -
  obtain s1 where s1: "srec_byte (NOT (checksum s)) (progress 2 s) = (s1, None)" "sr_state s1 = SRS_EOL"
    "sr_address s1 = sr_address s" "quiet s s1"
    using assms(1) by (auto simp: srec_byte_def progress_def Let_def quiet_def)
  have "srecRead_loop remain addr buf s (hexU 2 (unat (NOT (checksum s))) @ crlf @ f) =
      srecRead_loop remain addr buf s1 (crlf @ f)"
    using loop_byte [of remain s addr buf "NOT (checksum s)" "crlf @ f"] assms by (simp add: s1(1))
  with loop_eol [OF s1(2) assms(2), of "[CHR 0x0D]" addr buf f] s1 show ?thesis
    by (auto intro: quiet_trans)
qed

text \<open>A whole line that is not a data record.\<close>

lemma loop_skip:
  assumes "sr_state s = SRS_RECORD" and "remain \<noteq> 0"
    and "t \<notin> {CHR ''1'', CHR ''2'', CHR ''3'', CHR 0x0A}" and "CHR 0x0A \<notin> set x"
  shows "\<exists>s'. srecRead_loop remain addr buf s (CHR ''S'' # t # x @ CHR 0x0A # f) =
      srecRead_loop remain addr buf s' f \<and> sr_state s' = SRS_RECORD \<and> sr_address s' = sr_address s \<and> quiet s s'"
proof -
  let ?s = "srec_record (CHR ''S'') t (progress 2 s)"
  have s: "sr_state ?s = SRS_EOL" "sr_address ?s = sr_address s" "quiet s ?s"
    using assms(3) by (auto simp: srec_record_def Let_def progress_def quiet_def)
  have "srecRead_loop remain addr buf s (CHR ''S'' # t # x @ CHR 0x0A # f) =
      srecRead_loop remain addr buf ?s (x @ CHR 0x0A # f)"
    using assms(1,2) by (subst srecRead_loop.simps) (simp add: srec_pair_def progress_def)
  with loop_eol [OF s(1) assms(2,4), of addr buf f] s show ?thesis
    by (auto intro: quiet_trans)
qed

section \<open>Reading written files\<close>

lemma addr_sum_bytes: "addr_sum n a = sum_list (word_bytes n a)"
  by (induction n arbitrary: a) (simp_all add: ac_simps)

lemma addr_size_cases: "addr_size a = 2 \<or> addr_size a = 3 \<or> addr_size a = 4"
  by (simp add: addr_size_def)

lemma addr_size_fits: "be_word (word_bytes (addr_size a) a) = a"
proof -
  have split: "a = (a AND m) OR (a AND NOT m)" for m by (rule bit_word_eqI) (auto simp: bit_simps)
  have "(NOT 0xFF000000 :: u32) = mask 24" "(NOT 0xFFFF0000 :: u32) = mask 16"
    by (simp_all add: mask_eq_exp_minus_1)
  then have "a AND 0xFF000000 = 0 \<Longrightarrow> take_bit 24 a = a" "a AND 0xFFFF0000 = 0 \<Longrightarrow> take_bit 16 a = a"
    using split [of "0xFF000000"] split [of "0xFFFF0000"] by (simp_all add: take_bit_eq_mask)
  then show ?thesis by (simp add: be_word_bytes addr_size_def take_bit_word_eq_self)
qed

lemma record_types [simp]:
  "record_type (CHR ''1'') 2 = CHR ''1''" "record_type (CHR ''1'') 3 = CHR ''2''"
  "record_type (CHR ''1'') 4 = CHR ''3''" "record_type (CHR ''0'') n = CHR ''0''"
  "record_type (CHR ''5'') 2 = CHR ''5''" "record_type (CHR ''5'') 3 = CHR ''6''"
  "record_type (CHR ''5'') 4 = CHR ''7''" "record_type (CHR ''7'') 2 = CHR ''9''"
  by (code_simp, code_simp, code_simp, simp add: record_type_def, code_simp+)

lemma loop_header:
  assumes "sr_state s = SRS_RECORD" and "remain \<noteq> 0" and "length ds \<le> 250"
  shows "\<exists>s'. srecRead_loop remain addr buf s (srecWriteRecord (CHR ''1'') a ds @ f) =
      srecRead_loop remain addr buf s'
        (hex_bytes ds @ hexU 2 (unat (NOT (checksum s' + sum_list ds))) @ crlf @ f) \<and>
    sr_state s' = SRS_DATA \<and> dataRemain s' = int (length ds) \<and> sr_address s' = a \<and>
    checksum s' = word_of_nat (length ds + addr_size a + 1) + addr_sum (addr_size a) a \<and> quiet s s'"
proof -
  let ?n = "addr_size a" and ?cnt = "word_of_nat (length ds + addr_size a + 1) :: u8"
  let ?sum = "?cnt + addr_sum ?n a + sum_list ds"
  let ?s1 = "srec_record (CHR ''S'') (record_type (CHR ''1'') ?n) (progress 2 s)"
  let ?f = "hex_bytes ds @ hexU 2 (unat (NOT ?sum)) @ crlf @ f"
  have n: "?n = 2 \<or> ?n = 3 \<or> ?n = 4" by (rule addr_size_cases)
  then have cnt: "unat ?cnt = length ds + ?n + 1"
    using assms(3) unsigned_of_nat [of "length ds + ?n + 1", where 'b = 8 and 'a = nat]
    by (auto simp: take_bit_nat_eq_self)
  have s1: "sr_state ?s1 = SRS_COUNT" "addrRemain ?s1 = int ?n" "checksum ?s1 = 0" "quiet s ?s1"
    using n by (auto simp: srec_record_def Let_def progress_def quiet_def)
  have written: "srecWriteRecord (CHR ''1'') a ds @ f = CHR ''S'' # record_type (CHR ''1'') ?n #
      hexU 2 (unat ?cnt) @ hex_bytes (word_bytes ?n a) @ ?f"
    unfolding cnt by (simp add: srecWriteRecord_def Let_def mult.commute [of _ 2] hexU_word_bytes)
  have "srecRead_loop remain addr buf s (srecWriteRecord (CHR ''1'') a ds @ f) =
      srecRead_loop remain addr buf ?s1 (hexU 2 (unat ?cnt) @ hex_bytes (word_bytes ?n a) @ ?f)"
    unfolding written using assms(1,2) by (subst srecRead_loop.simps) (simp add: srec_pair_def progress_def)
  also obtain s2 where s2: "srec_byte ?cnt (progress 2 ?s1) = (s2, None)" "sr_state s2 = SRS_ADDRESS"
    "addrRemain s2 = int (length (word_bytes ?n a))" "sr_address s2 = 0" "checksum s2 = ?cnt"
    "dataRemain s2 = int (length ds)" "quiet ?s1 s2"
    using s1 cnt by (auto simp: srec_byte_def progress_def Let_def quiet_def uint_nat)
  have "srecRead_loop remain addr buf ?s1 (hexU 2 (unat ?cnt) @ hex_bytes (word_bytes ?n a) @ ?f) =
      srecRead_loop remain addr buf s2 (hex_bytes (word_bytes ?n a) @ ?f)"
    using loop_byte [of remain ?s1 addr buf ?cnt "hex_bytes (word_bytes ?n a) @ ?f"] assms(2) s1(1)
    unfolding s2(1) by simp
  also have "word_bytes ?n a \<noteq> []" using n length_word_bytes [of ?n a] by force
  with loop_address [OF s2(2,3) _ assms(2), of addr buf ?f] obtain s3 where
    s3: "srecRead_loop remain addr buf s2 (hex_bytes (word_bytes ?n a) @ ?f) = srecRead_loop remain addr buf s3 ?f"
    "sr_state s3 = SRS_DATA" "dataRemain s3 = int (length ds)" "sr_address s3 = a"
    "checksum s3 = ?cnt + addr_sum ?n a" "quiet s2 s3"
    using s2(4-6) addr_size_fits [of a] by (auto simp: be_word_def addr_sum_bytes)
  note s3(1)
  finally show ?thesis
    using s1(4) s2(7) s3(2-6) by (intro exI [of _ s3]) (auto intro: quiet_trans)
qed

text \<open>The data records of consecutive chunks, and where in such a file a reader can be.\<close>

fun srec_text :: "u32 \<Rightarrow> u8 list list \<Rightarrow> string" where
  "srec_text a [] = []"
| "srec_text a (ds # dss) = srecWriteRecord (CHR ''1'') a ds @ srec_text (a + word_of_nat (length ds)) dss"

definition chunks :: "u8 list list \<Rightarrow> bool" where
  "chunks dss \<longleftrightarrow> (\<forall>ds \<in> set dss. ds \<noteq> [] \<and> length ds \<le> 250)"

definition srec_at :: "string \<Rightarrow> srec \<Rightarrow> string \<Rightarrow> u32 \<Rightarrow> u8 list \<Rightarrow> bool" where
  "srec_at tail s f a bs \<longleftrightarrow> (\<exists>d dss. chunks dss \<and> bs = d @ concat dss \<and>
     (sr_state s = SRS_RECORD \<and> d = [] \<and> f = srec_text a dss @ tail \<or>
      sr_state s = SRS_DATA \<and> d \<noteq> [] \<and> sr_address s = a \<and> dataRemain s = int (length d) \<and>
        f = hex_bytes d @ hexU 2 (unat (NOT (checksum s + sum_list d))) @ crlf @
          srec_text (a + word_of_nat (length d)) dss @ tail \<or>
      sr_state s = SRS_CHECKSUM \<and> d = [] \<and> sr_address s = a \<and>
        f = hexU 2 (unat (NOT (checksum s))) @ crlf @ srec_text a dss @ tail))"

text \<open>The rest of a file that holds no more data.\<close>

definition srec_tail :: "string \<Rightarrow> bool" where
  "srec_tail t \<longleftrightarrow> (\<forall>s remain addr buf. sr_state s = SRS_RECORD \<longrightarrow> remain \<noteq> 0 \<longrightarrow>
     (\<exists>s'. srecRead_loop remain addr buf s t = (s', [], buf) \<and> isEof s' \<and>
        warnings s' = warnings s \<and> sr_address s' = sr_address s))"

text \<open>What a call delivers from such a position, when the addresses agree.\<close>

definition reads :: "string \<Rightarrow> srec \<Rightarrow> u32 \<Rightarrow> u8 list \<Rightarrow> nat \<Rightarrow> u8 list \<Rightarrow> srec \<times> string \<times> u8 list \<Rightarrow> bool" where
  "reads tail s a bs remain buf r \<longleftrightarrow> (case r of (s', f', buf') \<Rightarrow>
     buf' = buf @ take remain bs \<and> warnings s' = warnings s \<and>
     sr_address s' = a + word_of_nat (min remain (length bs)) \<and>
     (if remain \<le> length bs
      then srec_at tail s' f' (a + word_of_nat remain) (drop remain bs) \<and> isEof s' = isEof s
      else isEof s' \<and> f' = []))"

lemma chunks_Cons [simp]: "chunks (ds # dss) \<longleftrightarrow> ds \<noteq> [] \<and> length ds \<le> 250 \<and> chunks dss"
  by (auto simp: chunks_def)

lemma chunks_Nil [simp]: "chunks []"
  by (simp add: chunks_def)

lemma read_within_record:
  assumes d: "chunks dss" "sr_state s = SRS_DATA" "sr_address s = a" "dataRemain s = int (length d)"
    "f = hex_bytes d @ hexU 2 (unat (NOT (checksum s + sum_list d))) @ crlf @
        srec_text (a + word_of_nat (length d)) dss @ tail"
    and "d \<noteq> []" and "remain \<le> length d"
  shows "reads tail s a (d @ concat dss) remain buf (srecRead_loop remain a buf s f)"
proof (cases "remain = 0")
  case True
  with d assms(6) show ?thesis by (auto simp: reads_def srec_at_def)
next
  case False
  let ?d1 = "take remain d" and ?d2 = "drop remain d"
  let ?T = "hexU 2 (unat (NOT (checksum s + sum_list d))) @ crlf @
        srec_text (a + word_of_nat (length d)) dss @ tail"
  have len: "length ?d1 = remain" "dataRemain s = int (length ?d1 + length ?d2)" "?d1 \<noteq> []"
    using assms(6,7) d(4) False by auto
  from loop_data [OF d(2,3) len(2,3), of remain buf "hex_bytes ?d2 @ ?T"] len(1) obtain s' where
    s': "srecRead_loop remain a buf s (hex_bytes ?d1 @ hex_bytes ?d2 @ ?T) = (s', hex_bytes ?d2 @ ?T, buf @ ?d1)"
    "sr_state s' = (if length ?d2 = 0 then SRS_CHECKSUM else SRS_DATA)" "dataRemain s' = int (length ?d2)"
    "sr_address s' = a + word_of_nat remain" "checksum s' = checksum s + sum_list ?d1" "quiet s s'"
    by auto
  have f: "f = hex_bytes ?d1 @ hex_bytes ?d2 @ ?T"
    unfolding d(5) by (simp flip: append_assoc hex_bytes_simps(3))
  have sum: "checksum s + sum_list d = checksum s' + sum_list ?d2"
    unfolding s'(5) by (simp add: add.assoc flip: sum_list_append)
  have addr: "a + word_of_nat (length d) = (a + word_of_nat remain) + word_of_nat (length ?d2)"
    using assms(7) by (simp add: add.assoc flip: of_nat_add)
  have T: "?T = hexU 2 (unat (NOT (checksum s' + sum_list ?d2))) @ crlf @
      srec_text (a + word_of_nat remain + word_of_nat (length ?d2)) dss @ tail"
    by (simp only: sum addr)
  have "srec_at tail s' (hex_bytes ?d2 @ ?T) (a + word_of_nat remain) (?d2 @ concat dss)"
    unfolding T srec_at_def using s'(2-4) d(1)
    by (intro exI [of _ ?d2] exI [of _ dss]) (cases "?d2 = []"; simp)
  then show ?thesis
    unfolding f s'(1) using s'(4,6) assms(7) by (auto simp: reads_def quiet_def)
qed

lemma read_past_record:
  assumes "sr_state s = SRS_DATA" "sr_address s = a" "dataRemain s = int (length d)" "d \<noteq> []"
    and "length d < remain"
  shows "\<exists>s'. srecRead_loop remain a buf s
      (hex_bytes d @ hexU 2 (unat (NOT (checksum s + sum_list d))) @ crlf @ f) =
      srecRead_loop (remain - length d) (a + word_of_nat (length d)) (buf @ d) s' f \<and>
    sr_state s' = SRS_RECORD \<and> sr_address s' = a + word_of_nat (length d) \<and> quiet s s'"
proof -
  let ?a = "a + word_of_nat (length d)"
  let ?T = "hexU 2 (unat (NOT (checksum s + sum_list d))) @ crlf @ f"
  from loop_data [OF assms(1,2), of d 0 remain buf ?T] assms(3-5) obtain s1 where
    s1: "srecRead_loop remain a buf s (hex_bytes d @ ?T) = srecRead_loop (remain - length d) ?a (buf @ d) s1 ?T"
    "sr_state s1 = SRS_CHECKSUM" "sr_address s1 = ?a" "checksum s1 = checksum s + sum_list d" "quiet s s1"
    by auto
  have "remain - length d \<noteq> 0" using assms(5) by simp
  from loop_checksum [OF s1(2) this, of ?a "buf @ d" f] obtain s' where
    "srecRead_loop (remain - length d) ?a (buf @ d) s1 ?T = srecRead_loop (remain - length d) ?a (buf @ d) s' f"
    "sr_state s' = SRS_RECORD" "sr_address s' = sr_address s1" "quiet s1 s'"
    unfolding s1(4) by blast
  with s1 show ?thesis by (intro exI [of _ s']) (auto intro: quiet_trans)
qed

lemma read_from_data:
  assumes "srec_tail tail"
  shows "\<lbrakk>chunks dss; d \<noteq> []; sr_state s = SRS_DATA; sr_address s = a; dataRemain s = int (length d);
      f = hex_bytes d @ hexU 2 (unat (NOT (checksum s + sum_list d))) @ crlf @
        srec_text (a + word_of_nat (length d)) dss @ tail\<rbrakk> \<Longrightarrow>
    reads tail s a (d @ concat dss) remain buf (srecRead_loop remain a buf s f)"
proof (induction dss arbitrary: d s a f remain buf)
  case Nil
  show ?case
  proof (cases "remain \<le> length d")
    case True
    with Nil show ?thesis by (intro read_within_record) auto
  next
    case False
    with read_past_record [of s a d remain buf tail] Nil obtain s' where
      s': "srecRead_loop remain a buf s f =
        srecRead_loop (remain - length d) (a + word_of_nat (length d)) (buf @ d) s' tail"
      "sr_state s' = SRS_RECORD" "sr_address s' = a + word_of_nat (length d)" "quiet s s'" by auto
    from assms [unfolded srec_tail_def, rule_format, OF s'(2), of "remain - length d"] False obtain s2 where
      "srecRead_loop (remain - length d) (a + word_of_nat (length d)) (buf @ d) s' tail = (s2, [], buf @ d)"
      "isEof s2" "warnings s2 = warnings s'" "sr_address s2 = sr_address s'" by (metis diff_is_0_eq)
    with s' False show ?thesis by (simp add: reads_def quiet_def)
  qed
next
  case (Cons d' dss)
  show ?case
  proof (cases "remain \<le> length d")
    case True
    with Cons.prems show ?thesis by (intro read_within_record) auto
  next
    case False
    let ?a = "a + word_of_nat (length d)" and ?r = "remain - length d"
    let ?g = "srec_text (?a + word_of_nat (length d')) dss @ tail"
    from read_past_record [of s a d remain buf "srec_text ?a (d' # dss) @ tail"] Cons.prems False obtain s' where
      s': "srecRead_loop remain a buf s f = srecRead_loop ?r ?a (buf @ d) s' (srec_text ?a (d' # dss) @ tail)"
      "sr_state s' = SRS_RECORD" "sr_address s' = ?a" "quiet s s'" by auto
    from loop_header [OF s'(2), of ?r d' ?a "buf @ d" ?a ?g] Cons.prems(1) False obtain s2 where
      s2: "srecRead_loop ?r ?a (buf @ d) s' (srec_text ?a (d' # dss) @ tail) =
        srecRead_loop ?r ?a (buf @ d) s2 (hex_bytes d' @ hexU 2 (unat (NOT (checksum s2 + sum_list d'))) @ crlf @ ?g)"
      "sr_state s2 = SRS_DATA" "dataRemain s2 = int (length d')" "sr_address s2 = ?a" "quiet s' s2" by auto
    have ih: "reads tail s2 ?a (d' @ concat dss) ?r (buf @ d) (srecRead_loop remain a buf s f)"
      unfolding s'(1) s2(1) using Cons.prems(1) s2(2-4) by (intro Cons.IH) auto
    have w: "word_of_nat remain = (word_of_nat (length d) + word_of_nat ?r :: u32)"
      using False by (simp flip: of_nat_add)
    have m: "word_of_nat (min remain (length (d @ concat (d' # dss)))) =
        (word_of_nat (length d) + word_of_nat (min ?r (length (d' @ concat dss))) :: u32)"
    proof -
      have "min remain (length (d @ concat (d' # dss))) = length d + min ?r (length (d' @ concat dss))"
        using False by (auto simp: min_def)
      then show ?thesis by (simp only: of_nat_add)
    qed
    have le: "remain \<le> length (d @ concat (d' # dss)) \<longleftrightarrow> ?r \<le> length (d' @ concat dss)"
      using False by auto
    have parts: "take remain (d @ concat (d' # dss)) = d @ take ?r (d' @ concat dss)"
      "drop remain (d @ concat (d' # dss)) = drop ?r (d' @ concat dss)"
      using False by simp_all
    obtain s3 f3 b3 where r: "srecRead_loop remain a buf s f = (s3, f3, b3)" by (cases "srecRead_loop remain a buf s f")
    show ?thesis
      using ih s'(4) s2(5)
      unfolding reads_def r prod.case w m le parts quiet_def add.assoc append_assoc
      by (simp cong: if_cong)
  qed
qed

text \<open>From every position before data the reader gets to the data.\<close>

lemma read_to_data:
  assumes "srec_at tail s f a bs" and "bs \<noteq> []" and "remain \<noteq> 0"
  shows "\<exists>s' d dss. srecRead_loop remain addr buf s f = srecRead_loop remain addr buf s'
      (hex_bytes d @ hexU 2 (unat (NOT (checksum s' + sum_list d))) @ crlf @
        srec_text (a + word_of_nat (length d)) dss @ tail) \<and>
    chunks dss \<and> d \<noteq> [] \<and> bs = d @ concat dss \<and> sr_state s' = SRS_DATA \<and> sr_address s' = a \<and>
    dataRemain s' = int (length d) \<and> quiet s s'"
proof -
  have from_record: ?thesis if r: "chunks dss" "bs = concat dss" "sr_state s1 = SRS_RECORD" "quiet s s1"
    "srecRead_loop remain addr buf s f = srecRead_loop remain addr buf s1 (srec_text a dss @ tail)" for s1 dss
  proof (cases dss)
    case (Cons ds dss')
    with loop_header [OF r(3) assms(3), of ds addr buf a "srec_text (a + word_of_nat (length ds)) dss' @ tail"] r
    obtain s' where
      "srecRead_loop remain addr buf s f = srecRead_loop remain addr buf s'
        (hex_bytes ds @ hexU 2 (unat (NOT (checksum s' + sum_list ds))) @ crlf @
          srec_text (a + word_of_nat (length ds)) dss' @ tail)"
      "sr_state s' = SRS_DATA" "dataRemain s' = int (length ds)" "sr_address s' = a" "quiet s1 s'"
      by auto
    with r(1,2,4) show ?thesis
      by (intro exI [of _ s'] exI [of _ ds] exI [of _ dss']) (auto simp: Cons intro: quiet_trans)
  qed (use r(2) assms(2) in simp)
  from assms(1) obtain d dss where p: "chunks dss" "bs = d @ concat dss"
    "sr_state s = SRS_RECORD \<and> d = [] \<and> f = srec_text a dss @ tail \<or>
      sr_state s = SRS_DATA \<and> d \<noteq> [] \<and> sr_address s = a \<and> dataRemain s = int (length d) \<and>
        f = hex_bytes d @ hexU 2 (unat (NOT (checksum s + sum_list d))) @ crlf @
          srec_text (a + word_of_nat (length d)) dss @ tail \<or>
      sr_state s = SRS_CHECKSUM \<and> d = [] \<and> sr_address s = a \<and>
        f = hexU 2 (unat (NOT (checksum s))) @ crlf @ srec_text a dss @ tail"
    unfolding srec_at_def by blast
  from p(3) show ?thesis
  proof (elim disjE conjE)
    assume "sr_state s = SRS_RECORD" "d = []" "f = srec_text a dss @ tail"
    with p show ?thesis by (intro from_record [of dss s]) auto
  next
    assume "sr_state s = SRS_DATA" "d \<noteq> []" "sr_address s = a" "dataRemain s = int (length d)"
      "f = hex_bytes d @ hexU 2 (unat (NOT (checksum s + sum_list d))) @ crlf @
          srec_text (a + word_of_nat (length d)) dss @ tail"
    with p show ?thesis by (intro exI [of _ s] exI [of _ d] exI [of _ dss]) simp
  next
    assume c: "sr_state s = SRS_CHECKSUM" "d = []"
      "f = hexU 2 (unat (NOT (checksum s))) @ crlf @ srec_text a dss @ tail"
    from loop_checksum [OF c(1) assms(3), of addr buf "srec_text a dss @ tail"] p c(2) show ?thesis
      unfolding c(3) [symmetric] by (elim exE conjE) (rule from_record [of dss]; simp)
  qed
qed

lemma read_at:
  assumes "srec_tail tail" and "srec_at tail s f a bs" and "bs \<noteq> []" and "remain \<noteq> 0"
  shows "reads tail s a bs remain buf (srecRead_loop remain a buf s f)"
proof -
  from read_to_data [OF assms(2-4), of a buf] obtain s' d dss where
    s': "srecRead_loop remain a buf s f = srecRead_loop remain a buf s'
      (hex_bytes d @ hexU 2 (unat (NOT (checksum s' + sum_list d))) @ crlf @
        srec_text (a + word_of_nat (length d)) dss @ tail)"
    "chunks dss" "d \<noteq> []" "bs = d @ concat dss" "sr_state s' = SRS_DATA" "sr_address s' = a"
    "dataRemain s' = int (length d)" "quiet s s'" by blast
  have "reads tail s' a bs remain buf (srecRead_loop remain a buf s f)"
    unfolding s'(1,4) using s'(2-7) by (intro read_from_data assms(1)) auto
  with s'(8) show ?thesis by (auto simp: reads_def quiet_def split: prod.splits)
qed

lemma read_elsewhere:
  assumes "srec_at tail s f a bs" and "bs \<noteq> []" and "remain \<noteq> 0" and "addr \<noteq> a"
  shows "\<exists>s' f'. srecRead_loop remain addr buf s f = (s', f', buf) \<and> srec_at tail s' f' a bs \<and>
    sr_address s' = a \<and> quiet s s'"
proof -
  from read_to_data [OF assms(1-3), of addr buf] obtain s' d dss where
    s': "srecRead_loop remain addr buf s f = srecRead_loop remain addr buf s'
      (hex_bytes d @ hexU 2 (unat (NOT (checksum s' + sum_list d))) @ crlf @
        srec_text (a + word_of_nat (length d)) dss @ tail)"
    "chunks dss" "d \<noteq> []" "bs = d @ concat dss" "sr_state s' = SRS_DATA" "sr_address s' = a"
    "dataRemain s' = int (length d)" "quiet s s'" by blast
  let ?f = "hex_bytes d @ hexU 2 (unat (NOT (checksum s' + sum_list d))) @ crlf @
        srec_text (a + word_of_nat (length d)) dss @ tail"
  have "srecRead_loop remain addr buf s' ?f = (s', ?f, buf)"
    using s'(5,6) assms(3,4) by (subst srecRead_loop.simps) simp
  moreover have "srec_at tail s' ?f a bs"
    unfolding srec_at_def using s' by (intro exI [of _ d] exI [of _ dss]) simp
  ultimately show ?thesis using s' by (intro exI [of _ s'] exI [of _ ?f]) simp
qed

lemma read_end:
  assumes "srec_tail tail" and "srec_at tail s f a []" and "remain \<noteq> 0"
  shows "\<exists>s'. srecRead_loop remain addr buf s f = (s', [], buf) \<and> isEof s' \<and> warnings s' = warnings s"
proof -
  have tail: ?thesis if "sr_state s1 = SRS_RECORD" "quiet s s1"
    "srecRead_loop remain addr buf s f = srecRead_loop remain addr buf s1 tail" for s1
  proof -
    from assms(1) [unfolded srec_tail_def, rule_format, OF that(1) assms(3)] that(2,3)
    show ?thesis by (metis quiet_def)
  qed
  from assms(2) obtain dss where p: "chunks dss" "concat dss = []"
    "sr_state s = SRS_RECORD \<and> f = srec_text a dss @ tail \<or>
      sr_state s = SRS_CHECKSUM \<and> f = hexU 2 (unat (NOT (checksum s))) @ crlf @ srec_text a dss @ tail"
    unfolding srec_at_def by auto
  then have "dss = []" by (cases dss) auto
  with p(3) have "sr_state s = SRS_RECORD \<and> f = tail \<or>
      sr_state s = SRS_CHECKSUM \<and> f = hexU 2 (unat (NOT (checksum s))) @ crlf @ tail" by simp
  then show ?thesis
  proof (elim disjE conjE)
    assume c: "sr_state s = SRS_CHECKSUM" "f = hexU 2 (unat (NOT (checksum s))) @ crlf @ tail"
    from loop_checksum [OF c(1) assms(3), of addr buf tail] show ?thesis
      unfolding c(2) [symmetric] by (elim exE conjE) (rule tail; simp)
  qed (rule tail [of s]; simp)
qed

section \<open>Header and footer\<close>

lemma no_newline:
  "CHR 0x0A \<notin> set (hexU n v)" "CHR 0x0A \<notin> set (hex_bytes bs)"
proof -
  show h: "CHR 0x0A \<notin> set (hexU n v)" for n v
    using hexU_xdigits [of "CHR 0x0A" n v] by (auto simp: ctype_defs)
  show "CHR 0x0A \<notin> set (hex_bytes bs)" using h by (induction bs) auto
qed

lemma loop_other_record:
  assumes "sr_state s = SRS_RECORD" and "remain \<noteq> 0"
    and "record_type t (addr_size a) \<notin> {CHR ''1'', CHR ''2'', CHR ''3'', CHR 0x0A}"
  shows "\<exists>s'. srecRead_loop remain addr buf s (srecWriteRecord t a bs @ f) =
      srecRead_loop remain addr buf s' f \<and> sr_state s' = SRS_RECORD \<and> sr_address s' = sr_address s \<and> quiet s s'"
  using loop_skip [OF assms, of "hexU 2 (length bs + addr_size a + 1) @ hexU (addr_size a * 2) (unat a) @
      hex_bytes bs @ hexU 2 (unat (NOT (word_of_nat (length bs + addr_size a + 1) +
        addr_sum (addr_size a) a + sum_list bs))) @ [CHR 0x0D]" addr buf f]
  by (simp add: srecWriteRecord_def Let_def no_newline)

lemma footer_tail: "srec_tail (srecWriteFooter n)"
  unfolding srec_tail_def
proof (intro allI impI)
  fix s :: srec and remain :: nat and addr buf
  assume s: "sr_state s = SRS_RECORD" and r: "remain \<noteq> 0"
  have z: "addr_size 0 = 2" by (simp add: addr_size_def)
  have "record_type (CHR ''5'') (addr_size a) \<notin> {CHR ''1'', CHR ''2'', CHR ''3'', CHR 0x0A}" for a
    using addr_size_cases [of a] by auto
  from loop_other_record [OF s r this, of addr buf "word_of_nat n" "[]" "srecWriteRecord (CHR ''7'') 0 []"]
  obtain s1 where s1: "srecRead_loop remain addr buf s (srecWriteFooter n) =
      srecRead_loop remain addr buf s1 (srecWriteRecord (CHR ''7'') 0 [])"
    "sr_state s1 = SRS_RECORD" "sr_address s1 = sr_address s" "quiet s s1"
    unfolding srecWriteFooter_def by blast
  have "record_type (CHR ''7'') (addr_size 0) \<notin> {CHR ''1'', CHR ''2'', CHR ''3'', CHR 0x0A}"
    by (simp add: z)
  from loop_other_record [OF s1(2) r this, of addr buf "[]" "[]"] obtain s2 where
    s2: "srecRead_loop remain addr buf s1 (srecWriteRecord (CHR ''7'') 0 []) = srecRead_loop remain addr buf s2 []"
    "sr_state s2 = SRS_RECORD" "sr_address s2 = sr_address s1" "quiet s1 s2" by auto
  have "srecRead_loop remain addr buf s2 [] = (srec_end s2, [], buf)"
    using s2(2) r by (subst srecRead_loop.simps) simp
  with s1 s2 show "\<exists>s'. srecRead_loop remain addr buf s (srecWriteFooter n) = (s', [], buf) \<and> isEof s' \<and>
      warnings s' = warnings s \<and> sr_address s' = sr_address s"
    by (auto simp: srec_end_def quiet_def)
qed

lemma loop_file_header:
  assumes "sr_state s = SRS_RECORD" and "remain \<noteq> 0"
  shows "\<exists>s'. srecRead_loop remain addr buf s (srecWriteHeader @ f) =
      srecRead_loop remain addr buf s' f \<and> sr_state s' = SRS_RECORD \<and> sr_address s' = sr_address s \<and> quiet s s'"
  unfolding srecWriteHeader_def by (rule loop_other_record [OF assms]) simp

text \<open>
  C9. Writing data to an S-record file in records of any sizes and reading the file back gives
  the data, at the address it was written for, up to the end of the file and without a warning;
  the header and the footer do not disturb the reader.
\<close>

theorem srec_roundtrip:
  assumes "chunks dss" and "dss \<noteq> []" and "length (concat dss) < count"
  shows "\<exists>s. srecRead count a srecReadInit (srecWriteHeader @ srec_text a dss @ srecWriteFooter n) =
      (s, [], concat dss) \<and> srecReadEof s \<and> warnings s = []"
proof -
  have c: "count \<noteq> 0" "concat dss \<noteq> []" using assms by (cases dss; auto)+
  have init: "sr_state srecReadInit = SRS_RECORD" "warnings srecReadInit = []"
    by (simp_all add: srecReadInit_def)
  from loop_file_header [OF init(1) c(1), of a "[]" "srec_text a dss @ srecWriteFooter n"] obtain s1 where
    s1: "srecRead_loop count a [] srecReadInit (srecWriteHeader @ srec_text a dss @ srecWriteFooter n) =
      srecRead_loop count a [] s1 (srec_text a dss @ srecWriteFooter n)"
    "sr_state s1 = SRS_RECORD" "quiet srecReadInit s1" by blast
  have "srec_at (srecWriteFooter n) s1 (srec_text a dss @ srecWriteFooter n) a (concat dss)"
    unfolding srec_at_def using assms(1) s1(2) by (intro exI [of _ "[]"] exI [of _ dss]) simp
  from read_at [OF footer_tail this c(2,1), of "[]"] assms(3) init(2) s1
  show ?thesis
    by (auto simp: srecRead_def srecReadEof_def reads_def quiet_def)
qed

theorem srec_roundtrip_witness:
  "\<exists>s. srecRead 4096 0x00FF0000 srecReadInit (srecWriteHeader @ srec_text 0x00FF0000 [[1, 2, 3], [4]] @
      srecWriteFooter 2) = (s, [], [1, 2, 3, 4]) \<and> warnings s = []"
  using srec_roundtrip [of "[[1, 2, 3], [4]]" 4096 "0x00FF0000" 2] by auto

text \<open>
  A data record without data is misread: the reader takes the checksum of the record for a
  byte of data, at the address of the record.
\<close>

theorem srec_empty_record_yields_checksum:
  assumes "sr_state s = SRS_RECORD"
  shows "\<exists>s'. srecRead 1 a s (srecWriteRecord (CHR ''1'') a [] @ f) =
    (s', crlf @ f, [NOT (word_of_nat (addr_size a + 1) + addr_sum (addr_size a) a)])"
proof -
  let ?sum = "word_of_nat (addr_size a + 1) + addr_sum (addr_size a) a"
  from loop_header [OF assms, of 1 "[]" a "[]" a f] obtain s' where
    s': "srecRead_loop 1 a [] s (srecWriteRecord (CHR ''1'') a [] @ f) =
      srecRead_loop 1 a [] s' (hexU 2 (unat (NOT (checksum s'))) @ crlf @ f)"
    "sr_state s' = SRS_DATA" "sr_address s' = a" "checksum s' = ?sum" by auto
  obtain s1 where "srec_byte (NOT ?sum) (progress 2 s') = (s1, Some (NOT ?sum))"
    using s'(2) by (auto simp: srec_byte_def progress_def Let_def)
  moreover have "srecRead_loop 1 a [] s' (hexU 2 (unat (NOT (checksum s'))) @ crlf @ f) =
      (case srec_byte (NOT ?sum) (progress 2 s') of
         (s', None) \<Rightarrow> srecRead_loop 1 a [] s' (crlf @ f)
       | (s', Some d) \<Rightarrow> srecRead_loop (1 - 1) (a + 1) ([] @ [d]) s' (crlf @ f))"
    unfolding s'(4) by (rule loop_byte) (use s'(2,3) in simp_all)
  ultimately show ?thesis
    unfolding srecRead_def s'(1) by simp
qed

theorem srec_empty_record_yields_checksum_witness:
  "\<exists>s'. srecRead 1 0 srecReadInit (srecWriteRecord (CHR ''1'') 0 [] @ []) = (s', crlf, [0xFC])"
proof -
  have "NOT (word_of_nat (addr_size 0 + 1) + addr_sum (addr_size 0) 0) = (0xFC :: u8)"
    by code_simp
  moreover have "sr_state srecReadInit = SRS_RECORD" by (simp add: srecReadInit_def)
  ultimately show ?thesis
    using srec_empty_record_yields_checksum [of srecReadInit 0 "[]"]
    by (simp only: append_Nil2 simp_thms)
qed

end
