(* ===== verification/Fifo.thy ===== *)
theory Fifo
  imports Prelude
begin

text \<open>
  The contract of the first-in first-out stores of the server: the ring buffers of the serial
  port and the linked operation queues. A store holds a list; \<open>stored x\<close> is what is kept of a
  value that is pushed.
\<close>

locale fifo =
  fixes ok :: "'q \<Rightarrow> bool"
    and contents :: "'q \<Rightarrow> 'a list"
    and accepts :: "'q \<Rightarrow> bool"
    and stored :: "'b \<Rightarrow> 'a"
    and push :: "'b \<Rightarrow> 'q \<Rightarrow> 'q"
    and front :: "'q \<Rightarrow> 'a option"
    and pop :: "'q \<Rightarrow> 'q"
  assumes push_ok: "\<lbrakk>ok q; accepts q\<rbrakk> \<Longrightarrow> ok (push x q)"
    and push_contents: "\<lbrakk>ok q; accepts q\<rbrakk> \<Longrightarrow> contents (push x q) = contents q @ [stored x]"
    and front_contents: "ok q \<Longrightarrow> front q = (case contents q of [] \<Rightarrow> None | x # _ \<Rightarrow> Some x)"
    and pop_ok: "ok q \<Longrightarrow> ok (pop q)"
    and pop_contents: "ok q \<Longrightarrow> contents (pop q) = tl (contents q)"
begin

lemma front_None: "ok q \<Longrightarrow> front q = None \<longleftrightarrow> contents q = []"
  by (simp add: front_contents split: list.split)

lemma front_Some: "ok q \<Longrightarrow> front q = Some x \<Longrightarrow> contents q = x # contents (pop q)"
  by (auto simp: front_contents pop_contents split: list.splits)

lemma pop_Cons: "\<lbrakk>ok q; contents q = x # xs\<rbrakk> \<Longrightarrow> front q = Some x \<and> ok (pop q) \<and> contents (pop q) = xs"
  by (simp add: front_contents pop_ok pop_contents)

lemma pop_all: "ok q \<Longrightarrow> ok ((pop ^^ n) q) \<and> contents ((pop ^^ n) q) = drop n (contents q)"
  by (induction n) (auto simp: pop_ok pop_contents drop_Suc tl_drop)

text \<open>Pushing a list, as long as there is room for each of it.\<close>

lemma push_all:
  assumes "\<And>q ys. \<lbrakk>ok q; contents q = contents q0 @ ys; length ys < length xs\<rbrakk> \<Longrightarrow> accepts q" and "ok q0"
  shows "ok (fold push xs q0) \<and> contents (fold push xs q0) = contents q0 @ map stored xs"
proof -
  have "ok (fold push us q0) \<and> contents (fold push us q0) = contents q0 @ map stored us"
    if "xs = us @ vs" for us vs
    using that
  proof (induction us arbitrary: vs rule: rev_induct)
    case (snoc u us)
    then have q: "ok (fold push us q0)" "contents (fold push us q0) = contents q0 @ map stored us" by auto
    with assms(1) [OF q] snoc.prems have "accepts (fold push us q0)" by simp
    with q show ?case by (simp add: push_ok push_contents)
  qed (simp add: assms(2))
  from this [of xs "[]"] show ?thesis by simp
qed

end

end
