(* ===== verification/Serial.thy ===== *)
theory Serial
  imports Fifo
begin

text \<open>
  The serial port of the server (\<open>rvsrv/serial.c\<close>): one byte stream to the processor carries
  the bytes of the application and the packets of the debug protocol. Control characters select
  the stream, an escape character complements the byte after it. Each direction of each stream
  has a ring buffer of 256 shorts.

  The port itself delivers chunks of bytes and takes bytes: \<open>read\<close> is a parameter of
  \<open>serial_update\<close>, \<open>write\<close> is taken to accept everything. Opening and closing the port are
  system calls and not modelled.
\<close>

section \<open>Ring buffers\<close>

definition SERIAL_BUFFER_SIZE :: nat where
  "SERIAL_BUFFER_SIZE = 256"

record ring =
  ring_data :: "int list"
  readPtr :: nat
  writePtr :: nat
  ring_count :: nat

text \<open>The conversion to \<open>short\<close> when a value is stored.\<close>

definition to_short :: "int \<Rightarrow> int" where
  "to_short d = signed_take_bit 15 d"

definition ringBufFull :: "ring \<Rightarrow> bool" where
  "ringBufFull buf \<longleftrightarrow> ring_count buf \<ge> SERIAL_BUFFER_SIZE"

definition ringBufEmpty :: "ring \<Rightarrow> bool" where
  "ringBufEmpty buf \<longleftrightarrow> ring_count buf = 0"

definition wrap_ptr :: "nat \<Rightarrow> nat" where
  "wrap_ptr p = (if p \<ge> SERIAL_BUFFER_SIZE then 0 else p)"

definition ringBufPush :: "int \<Rightarrow> ring \<Rightarrow> int \<times> ring" where
  "ringBufPush d buf =
     (if ringBufFull buf then (-1, buf)
      else (0, buf\<lparr>ring_data := (ring_data buf)[writePtr buf := to_short d],
                   writePtr := wrap_ptr (writePtr buf + 1), ring_count := ring_count buf + 1\<rparr>))"

definition ringBufPop :: "ring \<Rightarrow> int \<times> ring" where
  "ringBufPop buf =
     (if ringBufEmpty buf then (-1, buf)
      else (ring_data buf ! readPtr buf,
            buf\<lparr>readPtr := wrap_ptr (readPtr buf + 1), ring_count := ring_count buf - 1\<rparr>))"

definition ringBufReset :: "ring \<Rightarrow> ring" where
  "ringBufReset buf = buf\<lparr>readPtr := 0, writePtr := 0, ring_count := 0\<rparr>"

text \<open>A static variable before \<open>serial_open\<close> resets it.\<close>

definition zero_ring :: ring where
  "zero_ring = \<lparr>ring_data = replicate SERIAL_BUFFER_SIZE 0, readPtr = 0, writePtr = 0, ring_count = 0\<rparr>"

subsection \<open>A ring buffer is a bounded queue\<close>

definition ring_ok :: "ring \<Rightarrow> bool" where
  "ring_ok b \<longleftrightarrow> length (ring_data b) = 256 \<and> readPtr b < 256 \<and> ring_count b \<le> 256 \<and>
     writePtr b = (readPtr b + ring_count b) mod 256"

definition ring_contents :: "ring \<Rightarrow> int list" where
  "ring_contents b = map (\<lambda>i. ring_data b ! ((readPtr b + i) mod 256)) [0..<ring_count b]"

lemma ring_contents_length [simp]: "length (ring_contents b) = ring_count b"
  by (simp add: ring_contents_def)

lemma ringBufEmpty_contents: "ringBufEmpty b \<longleftrightarrow> ring_contents b = []"
  by (simp add: ringBufEmpty_def ring_contents_def)

lemma wrap_ptr_mod: "p < 256 \<Longrightarrow> wrap_ptr (p + 1) = (p + 1) mod 256"
  by (auto simp: wrap_ptr_def SERIAL_BUFFER_SIZE_def mod_Suc)

lemma ring_push:
  assumes "ring_ok b" and "\<not> ringBufFull b"
  shows "ring_ok (snd (ringBufPush d b)) \<and>
    ring_contents (snd (ringBufPush d b)) = ring_contents b @ [to_short d]"
proof -
  from assms have b: "length (ring_data b) = 256" "readPtr b < 256" "ring_count b < 256"
    "writePtr b = (readPtr b + ring_count b) mod 256"
    by (auto simp: ring_ok_def ringBufFull_def SERIAL_BUFFER_SIZE_def)
  have other: "(readPtr b + i) mod 256 \<noteq> writePtr b" if "i < ring_count b" for i
  proof
    assume "(readPtr b + i) mod 256 = writePtr b"
    then have "i mod 256 = ring_count b mod 256" unfolding b(4) by (simp add: mod_add_left_eq nat_mod_eq_iff)
    with that b(3) show False by simp
  qed
  have "ring_contents (snd (ringBufPush d b)) = map (\<lambda>i. (ring_data b)[writePtr b := to_short d] ! ((readPtr b + i) mod 256))
      ([0..<ring_count b] @ [ring_count b])"
    using assms(2) by (simp add: ringBufPush_def ring_contents_def)
  also have "\<dots> = ring_contents b @ [to_short d]"
  proof -
    have "map (\<lambda>i. (ring_data b)[writePtr b := to_short d] ! ((readPtr b + i) mod 256)) [0..<ring_count b] = ring_contents b"
      unfolding ring_contents_def by (rule map_cong [OF refl]) (simp add: other [THEN not_sym])
    moreover have "(ring_data b)[writePtr b := to_short d] ! ((readPtr b + ring_count b) mod 256) = to_short d"
      unfolding b(4) by (simp add: b(1))
    ultimately show ?thesis by simp
  qed
  finally have "ring_contents (snd (ringBufPush d b)) = ring_contents b @ [to_short d]" .
  moreover have "ring_ok (snd (ringBufPush d b))"
    using assms(2) b by (simp add: ring_ok_def ringBufPush_def wrap_ptr_mod [unfolded Suc_eq_plus1 [symmetric]] mod_Suc_eq)
  ultimately show ?thesis by simp
qed

lemma ring_pop:
  assumes "ring_ok b" and "\<not> ringBufEmpty b"
  shows "ring_ok (snd (ringBufPop b)) \<and> ring_contents b = fst (ringBufPop b) # ring_contents (snd (ringBufPop b))"
proof -
  from assms have b: "length (ring_data b) = 256" "readPtr b < 256" "ring_count b \<le> 256" "0 < ring_count b"
    "writePtr b = (readPtr b + ring_count b) mod 256"
    by (auto simp: ring_ok_def ringBufEmpty_def)
  then obtain k where k: "ring_count b = Suc k" by (cases "ring_count b") auto
  have "ring_contents b = map (\<lambda>i. ring_data b ! ((readPtr b + i) mod 256)) (0 # map Suc [0..<k])"
    by (simp add: ring_contents_def k map_Suc_upt upt_conv_Cons del: upt_Suc)
  also have "\<dots> = fst (ringBufPop b) # ring_contents (snd (ringBufPop b))"
    using assms(2) b(2)
    by (simp add: ringBufPop_def ring_contents_def k wrap_ptr_mod [unfolded Suc_eq_plus1 [symmetric]] mod_add_left_eq mod_Suc_eq)
  finally have "ring_contents b = fst (ringBufPop b) # ring_contents (snd (ringBufPop b))" .
  moreover have "ring_ok (snd (ringBufPop b))"
    using assms(2) b by (simp add: ring_ok_def ringBufPop_def k wrap_ptr_mod [unfolded Suc_eq_plus1 [symmetric]])
      (metis add_Suc mod_add_left_eq)
  ultimately show ?thesis by simp
qed

interpretation ring_fifo: fifo ring_ok ring_contents "\<lambda>b. \<not> ringBufFull b" to_short
  "\<lambda>d b. snd (ringBufPush d b)" "\<lambda>b. if ringBufEmpty b then None else Some (fst (ringBufPop b))"
  "\<lambda>b. snd (ringBufPop b)"
proof
  fix q assume q: "ring_ok q"
  have empty: "snd (ringBufPop q) = q" if "ringBufEmpty q" using that by (simp add: ringBufPop_def)
  show "ring_ok (snd (ringBufPop q))"
    using ring_pop [OF q] empty q by (cases "ringBufEmpty q") auto
  show "ring_contents (snd (ringBufPop q)) = tl (ring_contents q)"
    using ring_pop [OF q] empty by (cases "ringBufEmpty q") (auto simp: ringBufEmpty_contents)
  show "(if ringBufEmpty q then None else Some (fst (ringBufPop q))) =
      (case ring_contents q of [] \<Rightarrow> None | x # _ \<Rightarrow> Some x)"
    using ring_pop [OF q] by (auto simp: ringBufEmpty_contents split: list.split)
qed (use ring_push in auto)

section \<open>Receiving\<close>

definition CHAR_SEL_APP :: u8 where "CHAR_SEL_APP = 0xFE"
definition CHAR_SEL_DEBUG :: u8 where "CHAR_SEL_DEBUG = 0xFD"
definition CHAR_ESCAPE :: u8 where "CHAR_ESCAPE = 0xFC"

lemmas control_chars = CHAR_SEL_APP_def CHAR_SEL_DEBUG_def CHAR_ESCAPE_def

text \<open>
  The static variables of the unit. \<open>rx_pending\<close> is the part of the raw receive buffer that is
  not routed yet (\<open>buf[bufPtr..bufSize)\<close>), \<open>tx_raw\<close> the raw transmit buffer and \<open>wire\<close> what was
  written to the port so far. The selected stream is \<open>True\<close> for the debug stream.
\<close>

record serial =
  appRxBuf :: ring
  appTxBuf :: ring
  debugRxBuf :: ring
  debugTxBuf :: ring
  rx_pending :: "u8 list"
  rx_debug :: bool
  rx_escaping :: bool
  debugPacketTerminated :: bool
  tx_raw :: "u8 list"
  wire :: "u8 list"
  packetBuf :: "u8 list"
  packetBufSize :: nat
  packetBufDelay :: nat
  packetReady :: bool
  tx_delay :: nat
  tx_debug :: bool

definition initial_serial :: serial where
  "initial_serial = \<lparr>appRxBuf = zero_ring, appTxBuf = zero_ring, debugRxBuf = zero_ring, debugTxBuf = zero_ring,
     rx_pending = [], rx_debug = False, rx_escaping = False, debugPacketTerminated = True,
     tx_raw = [], wire = [], packetBuf = [], packetBufSize = 0, packetBufDelay = 0, packetReady = False,
     tx_delay = 0, tx_debug = False\<rparr>"

text \<open>\<open>serial_open\<close> resets the rings and nothing else.\<close>

definition serial_open_rings :: "serial \<Rightarrow> serial" where
  "serial_open_rings s = s\<lparr>appRxBuf := ringBufReset (appRxBuf s), appTxBuf := ringBufReset (appTxBuf s),
     debugRxBuf := ringBufReset (debugRxBuf s), debugTxBuf := ringBufReset (debugTxBuf s)\<rparr>"

definition select_stream :: "bool \<Rightarrow> serial \<Rightarrow> serial" where
  "select_stream dbg s =
     (let s = (if \<not> debugPacketTerminated s
               then s\<lparr>debugRxBuf := snd (ringBufPush 256 (debugRxBuf s)), debugPacketTerminated := True\<rparr>
               else s)
      in s\<lparr>rx_debug := dbg\<rparr>)"

definition route_data :: "u8 \<Rightarrow> serial \<Rightarrow> serial" where
  "route_data b s =
     (let b = (if rx_escaping s then NOT b else b); s = s\<lparr>rx_escaping := False\<rparr> in
      if \<not> rx_debug s then s\<lparr>appRxBuf := snd (ringBufPush (uint b) (appRxBuf s))\<rparr>
      else s\<lparr>debugRxBuf := snd (ringBufPush (uint b) (debugRxBuf s)), debugPacketTerminated := False\<rparr>)"

definition route_byte :: "u8 \<Rightarrow> serial \<Rightarrow> serial" where
  "route_byte b s =
     (if b = CHAR_SEL_APP then select_stream False s
      else if b = CHAR_SEL_DEBUG then select_stream True s
      else if b = CHAR_ESCAPE then s\<lparr>rx_escaping := True\<rparr>
      else route_data b s)"

text \<open>Routing stops when one of the destination buffers is full.\<close>

fun route :: "u8 list \<Rightarrow> serial \<Rightarrow> serial" where
  "route [] s = s\<lparr>rx_pending := []\<rparr>"
| "route (b # bs) s =
     (if ringBufFull (appRxBuf s) \<or> ringBufFull (debugRxBuf s) then s\<lparr>rx_pending := b # bs\<rparr>
      else route bs (route_byte b s))"

text \<open>
  The parameter is what \<open>read\<close> returns when the port is ready (\<open>None\<close>: not ready, the empty
  list: end of file or an error). New data is taken only when the raw buffer is drained.
\<close>

definition serial_update :: "u8 list option \<Rightarrow> serial \<Rightarrow> int \<times> serial" where
  "serial_update rd s =
     (case (if rx_pending s = [] then rd else None) of
        Some [] \<Rightarrow> (-1, s)
      | Some bytes \<Rightarrow> (0, route bytes s)
      | None \<Rightarrow> (0, route (rx_pending s) s))"

definition serial_receive :: "(serial \<Rightarrow> ring) \<Rightarrow> ((ring \<Rightarrow> ring) \<Rightarrow> serial \<Rightarrow> serial) \<Rightarrow> serial \<Rightarrow> int \<times> serial" where
  "serial_receive get upd s =
     (if ringBufEmpty (get s) then (-1, s)
      else (let (d, r) = ringBufPop (get s) in (d, upd (\<lambda>_. r) s)))"

definition serial_appReceive :: "serial \<Rightarrow> int \<times> serial" where
  "serial_appReceive s =
     (let (d, s') = serial_receive appRxBuf appRxBuf_update s in
      (if ringBufEmpty (appRxBuf s) then d else d AND 0xFF, s'))"

definition serial_debugReceive :: "serial \<Rightarrow> int \<times> serial" where
  "serial_debugReceive s = serial_receive debugRxBuf debugRxBuf_update s"

section \<open>Sending\<close>

text \<open>A negative value asks for a flush of the raw buffer.\<close>

definition bufferedWriteRaw :: "int \<Rightarrow> serial \<Rightarrow> serial" where
  "bufferedWriteRaw d s =
     (let s = (if length (tx_raw s) \<ge> SERIAL_BUFFER_SIZE \<or> d < 0
               then s\<lparr>wire := wire s @ tx_raw s, tx_raw := []\<rparr> else s)
      in if d \<ge> 0 then s\<lparr>tx_raw := tx_raw s @ [word_of_int d]\<rparr> else s)"

definition bufferedWriteData :: "int \<Rightarrow> serial \<Rightarrow> serial" where
  "bufferedWriteData d s =
     (let b = (word_of_int d :: u8) in
      if b = CHAR_SEL_APP \<or> b = CHAR_SEL_DEBUG \<or> b = CHAR_ESCAPE
      then bufferedWriteRaw (uint (NOT b)) (bufferedWriteRaw (uint CHAR_ESCAPE) s)
      else bufferedWriteRaw (uint b) s)"

text \<open>
  One character taken from the debug buffer. The packet buffer holds 32 bytes, its size counts on;
  the delay and the size are never negative.
\<close>

definition collect_char :: "int \<Rightarrow> serial \<Rightarrow> serial" where
  "collect_char d s =
     (if d < 256 then
        s\<lparr>packetBuf := (if packetBufSize s < 32 then packetBuf s @ [word_of_int d] else packetBuf s),
          packetBufSize := packetBufSize s + 1\<rparr>
      else if packetBufSize s \<le> 32 then
        s\<lparr>packetBufDelay := nat (d - 256), packetReady := True, tx_delay := tx_delay s - (packetBufSize s + 1)\<rparr>
      else s\<lparr>packetBufSize := 0, packetBuf := []\<rparr>)"

definition pop_debugTx :: "serial \<Rightarrow> int \<times> serial" where
  "pop_debugTx s = (let (d, r) = ringBufPop (debugTxBuf s) in (d, s\<lparr>debugTxBuf := r\<rparr>))"

definition pop_appTx :: "serial \<Rightarrow> int \<times> serial" where
  "pop_appTx s = (let (d, r) = ringBufPop (appTxBuf s) in (d, s\<lparr>appTxBuf := r\<rparr>))"

lemma ringBufPop_count: "\<not> ringBufEmpty b \<Longrightarrow> ring_count (snd (ringBufPop b)) < ring_count b"
  by (simp add: ringBufPop_def ringBufEmpty_def)

lemma collect_char_frame [simp]: "debugTxBuf (collect_char d s) = debugTxBuf s" "appTxBuf (collect_char d s) = appTxBuf s"
  by (simp_all add: collect_char_def)

function read_packet :: "serial \<Rightarrow> serial" where
  "read_packet s =
     (if \<not> ringBufEmpty (debugTxBuf s) \<and> \<not> packetReady s
      then (let (d, s') = pop_debugTx s in read_packet (collect_char d s')) else s)"
  by auto
termination
  by (relation "measure (\<lambda>s. ring_count (debugTxBuf s))")
    (auto simp: pop_debugTx_def Let_def ringBufPop_count split: prod.splits dest!: ringBufPop_count)

definition switch_to_app :: "serial \<Rightarrow> serial" where
  "switch_to_app s =
     (if tx_debug s
      then (let s = bufferedWriteRaw (uint CHAR_SEL_APP) s in s\<lparr>tx_debug := False, tx_delay := tx_delay s - 1\<rparr>)
      else s)"

lemma write_frame [simp]:
  "debugTxBuf (bufferedWriteRaw d s) = debugTxBuf s" "appTxBuf (bufferedWriteRaw d s) = appTxBuf s"
  "debugTxBuf (bufferedWriteData d s) = debugTxBuf s" "appTxBuf (bufferedWriteData d s) = appTxBuf s"
  by (simp_all add: bufferedWriteRaw_def bufferedWriteData_def Let_def)

lemma switch_to_app_frame [simp]:
  "debugTxBuf (switch_to_app s) = debugTxBuf s" "appTxBuf (switch_to_app s) = appTxBuf s"
  by (simp_all add: switch_to_app_def Let_def)

function send_app :: "serial \<Rightarrow> serial" where
  "send_app s =
     (if \<not> ringBufEmpty (appTxBuf s) \<and> (tx_delay s \<noteq> 0 \<or> \<not> packetReady s)
      then (let (d, s') = pop_appTx (switch_to_app s); s'' = bufferedWriteData d s' in
            send_app (s''\<lparr>tx_delay := tx_delay s'' - 1\<rparr>)) else s)"
  by auto
termination
  by (relation "measure (\<lambda>s. ring_count (appTxBuf s))")
    (auto simp: pop_appTx_def Let_def ringBufPop_count split: prod.splits dest!: ringBufPop_count)

text \<open>Pad with characters that select the application stream.\<close>

function pad :: "serial \<Rightarrow> serial" where
  "pad s =
     (if packetReady s \<and> tx_delay s \<noteq> 0
      then (let s' = bufferedWriteRaw (uint CHAR_SEL_APP) s in pad (s'\<lparr>tx_debug := False, tx_delay := tx_delay s' - 1\<rparr>))
      else s)"
  by auto
termination
  by (relation "measure tx_delay") (auto simp: bufferedWriteRaw_def Let_def)

definition send_packet :: "serial \<Rightarrow> serial" where
  "send_packet s =
     (if packetReady s then
       (let s = pad s;
            s = (if \<not> tx_debug s then (bufferedWriteRaw (uint CHAR_SEL_DEBUG) s)\<lparr>tx_debug := True\<rparr> else s);
            s = fold (\<lambda>b. bufferedWriteData (uint b)) (take (packetBufSize s) (packetBuf s)) s;
            s = s\<lparr>tx_delay := packetBufDelay s, packetReady := False, packetBufSize := 0, packetBuf := []\<rparr>;
            s = (if \<not> ringBufEmpty (debugTxBuf s)
                 then (bufferedWriteRaw (uint CHAR_SEL_DEBUG) s)\<lparr>tx_debug := True\<rparr>
                 else (bufferedWriteRaw (uint CHAR_SEL_APP) s)\<lparr>tx_debug := False\<rparr>)
        in s\<lparr>tx_delay := tx_delay s - 1\<rparr>)
      else s)"

declare read_packet.simps [simp del] send_app.simps [simp del] pad.simps [simp del]

subsection \<open>Both loops of \<open>serial_flush\<close> make progress\<close>

lemma read_packet_frame [simp]: "appTxBuf (read_packet s) = appTxBuf s"
  by (induction s rule: read_packet.induct) (subst read_packet.simps, simp add: pop_debugTx_def Let_def split: prod.split)

lemma read_packet_count: "ring_count (debugTxBuf (read_packet s)) \<le> ring_count (debugTxBuf s)"
proof (induction s rule: read_packet.induct)
  case (1 s)
  show ?case
  proof (cases "\<not> ringBufEmpty (debugTxBuf s) \<and> \<not> packetReady s")
    case True
    then show ?thesis
      using 1 [OF True refl prod.collapse] ringBufPop_count [of "debugTxBuf s"]
      by (subst read_packet.simps) (simp add: pop_debugTx_def case_prod_beta)
  qed (subst read_packet.simps, auto)
qed

lemma read_packet_progress:
  assumes "\<not> ringBufEmpty (debugTxBuf s)" "\<not> packetReady s"
  shows "ring_count (debugTxBuf (read_packet s)) < ring_count (debugTxBuf s)"
  using assms ringBufPop_count [of "debugTxBuf s"]
    read_packet_count [of "collect_char (fst (pop_debugTx s)) (snd (pop_debugTx s))"]
  by (subst read_packet.simps) (simp add: pop_debugTx_def case_prod_beta)

lemma read_packet_drains: "ringBufEmpty (debugTxBuf (read_packet s)) \<or> packetReady (read_packet s)"
proof (induction s rule: read_packet.induct)
  case (1 s)
  then show ?case by (subst (1 2) read_packet.simps) (auto split: prod.split)
qed

lemma read_packet_ready: "packetReady s \<Longrightarrow> read_packet s = s"
  by (subst read_packet.simps) simp

lemma write_ready [simp]:
  "packetReady (bufferedWriteRaw d s) = packetReady s" "packetReady (bufferedWriteData d s) = packetReady s"
  by (simp_all add: bufferedWriteRaw_def bufferedWriteData_def Let_def)

lemma switch_to_app_ready [simp]: "packetReady (switch_to_app s) = packetReady s"
  by (simp add: switch_to_app_def Let_def)

lemma send_app_frame [simp]: "debugTxBuf (send_app s) = debugTxBuf s" "packetReady (send_app s) = packetReady s"
  by (induction s rule: send_app.induct, subst send_app.simps, simp add: pop_appTx_def Let_def split: prod.split)+

lemma send_app_count: "ring_count (appTxBuf (send_app s)) \<le> ring_count (appTxBuf s)"
proof (induction s rule: send_app.induct)
  case (1 s)
  show ?case
  proof (cases "\<not> ringBufEmpty (appTxBuf s) \<and> (tx_delay s \<noteq> 0 \<or> \<not> packetReady s)")
    case True
    then show ?thesis
      using 1 [OF True refl prod.collapse refl] ringBufPop_count [of "appTxBuf s"]
      by (subst send_app.simps) (simp add: pop_appTx_def case_prod_beta Let_def)
  qed (subst send_app.simps, auto)
qed

lemma send_app_drains: "\<not> packetReady s \<Longrightarrow> ringBufEmpty (appTxBuf (send_app s))"
proof (induction s rule: send_app.induct)
  case (1 s)
  then show ?case by (subst send_app.simps) (auto simp: pop_appTx_def Let_def split: prod.split)
qed

lemma pad_frame [simp]: "debugTxBuf (pad s) = debugTxBuf s" "appTxBuf (pad s) = appTxBuf s"
  by (induction s rule: pad.induct, subst pad.simps, simp add: Let_def)+

lemma fold_write_frame [simp]:
  "debugTxBuf (fold (\<lambda>b. bufferedWriteData (uint b)) bs s) = debugTxBuf s"
  "appTxBuf (fold (\<lambda>b. bufferedWriteData (uint b)) bs s) = appTxBuf s"
  by (induction bs arbitrary: s) simp_all

lemma send_packet_frame [simp]:
  "debugTxBuf (send_packet s) = debugTxBuf s" "appTxBuf (send_packet s) = appTxBuf s" "\<not> packetReady (send_packet s)"
  by (simp_all add: send_packet_def Let_def)

lemma flush_progress:
  assumes "\<not> ringBufEmpty (appTxBuf s) \<or> \<not> ringBufEmpty (debugTxBuf s)"
  shows "ring_count (appTxBuf (send_app (read_packet s))) + ring_count (debugTxBuf (read_packet s)) <
    ring_count (appTxBuf s) + ring_count (debugTxBuf s) + of_bool (packetReady s)"
proof (cases "packetReady s")
  case True
  then show ?thesis using send_app_count [of s] by (simp add: read_packet_ready)
next
  case False
  show ?thesis
  proof (cases "ringBufEmpty (debugTxBuf s)")
    case True
    then have r: "read_packet s = s" by (subst read_packet.simps) simp
    from assms True send_app_drains [OF False] show ?thesis by (simp add: r ringBufEmpty_def False)
  next
    case False
    with read_packet_progress [OF this \<open>\<not> packetReady s\<close>] send_app_count [of "read_packet s"] \<open>\<not> packetReady s\<close>
    show ?thesis by simp
  qed
qed

function flush_loop :: "serial \<Rightarrow> serial" where
  "flush_loop s =
     (if \<not> ringBufEmpty (appTxBuf s) \<or> \<not> ringBufEmpty (debugTxBuf s)
      then flush_loop (send_packet (send_app (read_packet s))) else s)"
  by auto
termination
  by (relation "measure (\<lambda>s. ring_count (appTxBuf s) + ring_count (debugTxBuf s) + of_bool (packetReady s))")
    (use flush_progress in auto)

declare flush_loop.simps [simp del]

definition serial_flush :: "serial \<Rightarrow> serial" where
  "serial_flush s = bufferedWriteRaw (-1) (flush_loop s)"

definition serial_appSend :: "int \<Rightarrow> serial \<Rightarrow> serial" where
  "serial_appSend d s =
     (let s = (if ringBufFull (appTxBuf s) then serial_flush s else s)
      in s\<lparr>appTxBuf := snd (ringBufPush (d AND 0xFF) (appTxBuf s))\<rparr>)"

definition serial_debugSend :: "int \<Rightarrow> serial \<Rightarrow> serial" where
  "serial_debugSend d s =
     (let s = (if ringBufFull (debugTxBuf s) then serial_flush s else s)
      in s\<lparr>debugTxBuf := snd (ringBufPush d (debugTxBuf s))\<rparr>)"

text \<open>Sending leaves the receive buffers alone.\<close>

abbreviation rx_half :: "serial \<Rightarrow> ring \<times> ring" where
  "rx_half s \<equiv> (appRxBuf s, debugRxBuf s)"

lemma write_rx: "rx_half (bufferedWriteRaw d s) = rx_half s" "rx_half (bufferedWriteData d s) = rx_half s"
  "rx_half (fold (\<lambda>b. bufferedWriteData (uint b)) bs s) = rx_half s" "rx_half (collect_char d s) = rx_half s"
  for bs :: "u8 list"
proof -
  show w: "rx_half (bufferedWriteRaw d s) = rx_half s" "rx_half (bufferedWriteData d s) = rx_half s" for d s
    by (simp_all add: bufferedWriteRaw_def bufferedWriteData_def Let_def)
  show "rx_half (fold (\<lambda>b. bufferedWriteData (uint b)) bs s) = rx_half s"
    by (induction bs arbitrary: s) (use w in simp_all)
qed (simp add: collect_char_def)

lemma read_packet_rx: "rx_half (read_packet s) = rx_half s"
  by (induction s rule: read_packet.induct)
    (subst (1 2) read_packet.simps, use write_rx in \<open>simp add: pop_debugTx_def Let_def split: prod.split\<close>)

lemma send_app_rx: "rx_half (send_app s) = rx_half s"
  by (induction s rule: send_app.induct)
    (subst (1 2) send_app.simps, use write_rx in \<open>simp add: pop_appTx_def switch_to_app_def Let_def split: prod.split\<close>)

lemma pad_rx: "rx_half (pad s) = rx_half s"
  by (induction s rule: pad.induct) (subst (1 2) pad.simps, use write_rx in \<open>simp add: Let_def\<close>)

lemma send_packet_rx: "rx_half (send_packet s) = rx_half s"
  using write_rx pad_rx [of s] by (simp add: send_packet_def Let_def)

lemma flush_loop_rx: "rx_half (flush_loop s) = rx_half s"
  by (induction s rule: flush_loop.induct)
    (subst (1 2) flush_loop.simps, use read_packet_rx send_app_rx send_packet_rx in simp)

lemma serial_debugSend_rx: "debugRxBuf (serial_debugSend d s) = debugRxBuf s"
  using flush_loop_rx [of s] write_rx(1) [of "-1" "flush_loop s"] by (simp add: serial_debugSend_def serial_flush_def Let_def)

section \<open>What the other end makes of the stream\<close>

text \<open>
  The demultiplexer as a function of the whole stream: the selected stream, the escape flag,
  whether the last packet was terminated, and what came out of either stream so far, with 256
  after each packet.
\<close>

record demux =
  dm_debug :: bool
  dm_escaping :: bool
  dm_terminated :: bool
  dm_app :: "int list"
  dm_packets :: "int list"

definition initial_demux :: demux where
  "initial_demux = \<lparr>dm_debug = False, dm_escaping = False, dm_terminated = True, dm_app = [], dm_packets = []\<rparr>"

definition demux_select :: "bool \<Rightarrow> demux \<Rightarrow> demux" where
  "demux_select dbg m = m\<lparr>dm_debug := dbg, dm_terminated := True,
     dm_packets := dm_packets m @ (if dm_terminated m then [] else [256])\<rparr>"

definition demux_data :: "u8 \<Rightarrow> demux \<Rightarrow> demux" where
  "demux_data b m =
     (if dm_debug m then m\<lparr>dm_packets := dm_packets m @ [uint b], dm_terminated := False\<rparr>
      else m\<lparr>dm_app := dm_app m @ [uint b]\<rparr>)"

definition demux_byte :: "u8 \<Rightarrow> demux \<Rightarrow> demux" where
  "demux_byte b m =
     (if b = CHAR_SEL_APP then demux_select False m
      else if b = CHAR_SEL_DEBUG then demux_select True m
      else if b = CHAR_ESCAPE then m\<lparr>dm_escaping := True\<rparr>
      else demux_data (if dm_escaping m then NOT b else b) (m\<lparr>dm_escaping := False\<rparr>))"

subsection \<open>Receiving is demultiplexing\<close>

definition received :: "serial \<Rightarrow> demux" where
  "received s = \<lparr>dm_debug = rx_debug s, dm_escaping = rx_escaping s, dm_terminated = debugPacketTerminated s,
     dm_app = ring_contents (appRxBuf s), dm_packets = ring_contents (debugRxBuf s)\<rparr>"

definition rx_ok :: "serial \<Rightarrow> bool" where
  "rx_ok s \<longleftrightarrow> ring_ok (appRxBuf s) \<and> ring_ok (debugRxBuf s)"

lemma to_short_id: "0 \<le> d \<Longrightarrow> d < 32768 \<Longrightarrow> to_short d = d"
  unfolding to_short_def by (rule signed_take_bit_int_eq_self) simp_all

lemma to_short_byte [simp]: "to_short (uint (b :: u8)) = uint b" "to_short 256 = 256"
  using uint_lt2p [of b] by (simp_all add: to_short_id)

lemma route_byte_received:
  assumes "rx_ok s" and "\<not> ringBufFull (appRxBuf s)" and "\<not> ringBufFull (debugRxBuf s)"
  shows "rx_ok (route_byte b s) \<and> received (route_byte b s) = demux_byte b (received s)"
  using assms ring_push [of "appRxBuf s"] ring_push [of "debugRxBuf s"]
  by (auto simp: route_byte_def select_stream_def route_data_def demux_byte_def demux_select_def demux_data_def
      received_def rx_ok_def Let_def)

lemma route_byte_count:
  "ring_count (appRxBuf (route_byte b s)) \<le> ring_count (appRxBuf s) + 1"
  "ring_count (debugRxBuf (route_byte b s)) \<le> ring_count (debugRxBuf s) + 1"
  by (auto simp: route_byte_def select_stream_def route_data_def ringBufPush_def Let_def)

text \<open>All bytes are routed when there is room, or else those up to the first full buffer.\<close>

lemma route_received:
  assumes "rx_ok s"
  shows "\<exists>n. rx_ok (route bs s) \<and> received (route bs s) = fold demux_byte (take n bs) (received s) \<and>
    rx_pending (route bs s) = drop n bs \<and>
    (drop n bs \<noteq> [] \<longrightarrow> ringBufFull (appRxBuf (route bs s)) \<or> ringBufFull (debugRxBuf (route bs s)))"
  using assms
proof (induction bs arbitrary: s)
  case Nil
  then show ?case by (auto simp: received_def rx_ok_def)
next
  case (Cons b bs)
  show ?case
  proof (cases "ringBufFull (appRxBuf s) \<or> ringBufFull (debugRxBuf s)")
    case True
    with Cons.prems show ?thesis by (intro exI [of _ 0]) (auto simp: received_def rx_ok_def)
  next
    case False
    with route_byte_received [OF Cons.prems] have r: "rx_ok (route_byte b s)"
      "received (route_byte b s) = demux_byte b (received s)" by auto
    from Cons.IH [OF r(1)] obtain n where "rx_ok (route bs (route_byte b s)) \<and>
      received (route bs (route_byte b s)) = fold demux_byte (take n bs) (received (route_byte b s)) \<and>
      rx_pending (route bs (route_byte b s)) = drop n bs \<and> (drop n bs \<noteq> [] \<longrightarrow>
        ringBufFull (appRxBuf (route bs (route_byte b s))) \<or> ringBufFull (debugRxBuf (route bs (route_byte b s))))"
      by blast
    with False r(2) show ?thesis by (intro exI [of _ "Suc n"]) simp
  qed
qed

subsection \<open>Sending is multiplexing\<close>

definition sent :: "serial \<Rightarrow> u8 list" where
  "sent s = wire s @ tx_raw s"

text \<open>What the other end has after everything written so far, the raw buffer included.\<close>

definition peer :: "serial \<Rightarrow> demux" where
  "peer s = fold demux_byte (sent s) initial_demux"

definition in_sync :: "serial \<Rightarrow> bool" where
  "in_sync s \<longleftrightarrow> dm_debug (peer s) = tx_debug s \<and> \<not> dm_escaping (peer s) \<and> dm_terminated (peer s)"

lemma peer_raw [simp]: "peer (bufferedWriteRaw (uint b) s) = demux_byte b (peer s)"
  by (simp add: bufferedWriteRaw_def peer_def sent_def Let_def)

lemma peer_raw_flush [simp]: "peer (bufferedWriteRaw (-1) s) = peer s"
  by (simp add: bufferedWriteRaw_def peer_def sent_def Let_def)

lemma peer_simps [simp]:
  "peer (s\<lparr>tx_delay := x\<rparr>) = peer s" "peer (s\<lparr>tx_debug := b\<rparr>) = peer s" "peer (s\<lparr>appTxBuf := r\<rparr>) = peer s"
  "peer (s\<lparr>debugTxBuf := r\<rparr>) = peer s" "peer (s\<lparr>packetBuf := p\<rparr>) = peer s" "peer (s\<lparr>packetBufSize := n\<rparr>) = peer s"
  "peer (s\<lparr>packetReady := b\<rparr>) = peer s" "peer (s\<lparr>packetBufDelay := n\<rparr>) = peer s"
  by (simp_all add: peer_def sent_def)

lemma not_control:
  "b = CHAR_SEL_APP \<or> b = CHAR_SEL_DEBUG \<or> b = CHAR_ESCAPE \<Longrightarrow>
    NOT b \<noteq> CHAR_SEL_APP \<and> NOT b \<noteq> CHAR_SEL_DEBUG \<and> NOT b \<noteq> CHAR_ESCAPE"
  by (elim disjE) (simp_all add: control_chars)

lemma peer_data:
  assumes "\<not> dm_escaping (peer s)"
  shows "peer (bufferedWriteData d s) = demux_data (word_of_int d) (peer s)"
proof (cases "(word_of_int d :: u8) = CHAR_SEL_APP \<or> (word_of_int d :: u8) = CHAR_SEL_DEBUG \<or> (word_of_int d :: u8) = CHAR_ESCAPE")
  case True
  have "demux_byte CHAR_ESCAPE (peer s) = (peer s)\<lparr>dm_escaping := True\<rparr>"
    by (simp add: demux_byte_def control_chars)
  moreover have "demux_byte (NOT b) ((peer s)\<lparr>dm_escaping := True\<rparr>) = demux_data b (peer s)"
    if "b = CHAR_SEL_APP \<or> b = CHAR_SEL_DEBUG \<or> b = CHAR_ESCAPE" for b
    using not_control [OF that] assms by (simp add: demux_byte_def) (cases "peer s", simp)
  ultimately show ?thesis using True by (simp add: bufferedWriteData_def Let_def)
next
  case False
  with assms show ?thesis
    by (simp add: bufferedWriteData_def Let_def demux_byte_def) (cases "peer s", simp)
qed

text \<open>The packets that a stretch of the debug buffer completes; \<open>p\<close> and \<open>n\<close> are the packet so far.\<close>

definition framed :: "u8 list \<Rightarrow> int list" where
  "framed p = (if p = [] then [] else map uint p @ [256])"

fun completed :: "u8 list \<Rightarrow> nat \<Rightarrow> int list \<Rightarrow> int list" where
  "completed p n [] = []"
| "completed p n (d # ds) =
     (if d < 256 then completed (if n < 32 then p @ [word_of_int d] else p) (n + 1) ds
      else (if n \<le> 32 then framed p else []) @ completed [] 0 ds)"

text \<open>What has reached the other end together with what is still on its way to it,
  and with characters \<open>ds\<close> that are still to be sent.\<close>

definition app_total :: "serial \<Rightarrow> int list" where
  "app_total s = dm_app (peer s) @ map (\<lambda>d. uint (word_of_int d :: u8)) (ring_contents (appTxBuf s))"

definition debug_total :: "int list \<Rightarrow> serial \<Rightarrow> int list" where
  "debug_total ds s = dm_packets (peer s) @
     (if packetReady s then framed (packetBuf s) @ completed [] 0 (ring_contents (debugTxBuf s) @ ds)
      else completed (packetBuf s) (packetBufSize s) (ring_contents (debugTxBuf s) @ ds))"

definition tx_ok :: "serial \<Rightarrow> bool" where
  "tx_ok s \<longleftrightarrow> ring_ok (appTxBuf s) \<and> ring_ok (debugTxBuf s) \<and> in_sync s \<and>
     length (packetBuf s) = min 32 (packetBufSize s) \<and> (packetReady s \<longrightarrow> packetBufSize s \<le> 32)"

lemma pop_ring:
  assumes "ring_ok b" "\<not> ringBufEmpty b"
  obtains "ring_ok (snd (ringBufPop b))" "ring_contents b = fst (ringBufPop b) # ring_contents (snd (ringBufPop b))"
  using ring_pop [OF assms] by blast

lemma collect_char_ok:
  assumes "tx_ok s" "\<not> packetReady s" "\<not> ringBufEmpty (debugTxBuf s)"
  defines "s' \<equiv> collect_char (fst (pop_debugTx s)) (snd (pop_debugTx s))"
  shows "tx_ok s' \<and> app_total s' = app_total s \<and> debug_total ds s' = debug_total ds s"
proof -
  from assms(1) have "ring_ok (debugTxBuf s)" by (simp add: tx_ok_def)
  from pop_ring [OF this assms(3)] obtain d r where d: "ringBufPop (debugTxBuf s) = (d, r)" "ring_ok r"
    "ring_contents (debugTxBuf s) = d # ring_contents r" by (metis prod.collapse)
  show ?thesis
    using assms(1,2) d
    by (auto simp: s'_def tx_ok_def app_total_def debug_total_def collect_char_def pop_debugTx_def in_sync_def)
qed

lemma read_packet_ok:
  "tx_ok s \<Longrightarrow> tx_ok (read_packet s) \<and> app_total (read_packet s) = app_total s \<and>
    debug_total ds (read_packet s) = debug_total ds s"
proof (induction s rule: read_packet.induct)
  case (1 s)
  show ?case
  proof (cases "\<not> ringBufEmpty (debugTxBuf s) \<and> \<not> packetReady s")
    case True
    with collect_char_ok [OF 1(2)] 1(1) [OF True prod.collapse] show ?thesis
      by (subst (1 2 3) read_packet.simps) (simp add: case_prod_beta)
  qed (use 1(2) in \<open>subst (1 2 3) read_packet.simps, auto\<close>)
qed

lemma switch_to_app_ok:
  assumes "tx_ok s"
  shows "tx_ok (switch_to_app s) \<and> app_total (switch_to_app s) = app_total s \<and>
    debug_total ds (switch_to_app s) = debug_total ds s \<and> \<not> tx_debug (switch_to_app s)"
proof -
  have "demux_byte CHAR_SEL_APP m = demux_select False m" for m by (simp add: demux_byte_def)
  with assms show ?thesis
    by (auto simp: switch_to_app_def tx_ok_def in_sync_def app_total_def debug_total_def Let_def demux_select_def)
      (simp_all add: bufferedWriteRaw_def Let_def)
qed

lemma write_fields [simp]:
  "tx_debug (bufferedWriteRaw d s) = tx_debug s" "packetBuf (bufferedWriteRaw d s) = packetBuf s"
  "packetBufSize (bufferedWriteRaw d s) = packetBufSize s" "tx_delay (bufferedWriteRaw d s) = tx_delay s"
  "tx_debug (bufferedWriteData d s) = tx_debug s" "packetBuf (bufferedWriteData d s) = packetBuf s"
  "packetBufSize (bufferedWriteData d s) = packetBufSize s" "tx_delay (bufferedWriteData d s) = tx_delay s"
  by (simp_all add: bufferedWriteRaw_def bufferedWriteData_def Let_def)

lemma send_app_byte_ok:
  assumes "tx_ok s" "\<not> tx_debug s" "\<not> ringBufEmpty (appTxBuf s)"
  defines "s' \<equiv> bufferedWriteData (fst (pop_appTx s)) (snd (pop_appTx s))"
  shows "tx_ok s' \<and> app_total s' = app_total s \<and> debug_total ds s' = debug_total ds s"
proof -
  from assms(1) have "ring_ok (appTxBuf s)" by (simp add: tx_ok_def)
  from pop_ring [OF this assms(3)] obtain d r where d: "ringBufPop (appTxBuf s) = (d, r)" "ring_ok r"
    "ring_contents (appTxBuf s) = d # ring_contents r" by (metis prod.collapse)
  have "peer s' = demux_data (word_of_int d) (peer s)"
    using assms(1) by (simp add: s'_def d(1) pop_appTx_def peer_data tx_ok_def in_sync_def)
  then show ?thesis
    using assms(1,2) d
    by (auto simp: s'_def tx_ok_def in_sync_def app_total_def debug_total_def pop_appTx_def demux_data_def)
qed

lemma tx_delay_ok [simp]:
  "tx_ok (s\<lparr>tx_delay := n\<rparr>) = tx_ok s" "app_total (s\<lparr>tx_delay := n\<rparr>) = app_total s"
  "debug_total ds (s\<lparr>tx_delay := n\<rparr>) = debug_total ds s"
  by (simp_all add: tx_ok_def in_sync_def app_total_def debug_total_def)

lemma send_app_ok:
  "tx_ok s \<Longrightarrow> tx_ok (send_app s) \<and> app_total (send_app s) = app_total s \<and> debug_total ds (send_app s) = debug_total ds s"
proof (induction s rule: send_app.induct)
  case (1 s)
  show ?case
  proof (cases "\<not> ringBufEmpty (appTxBuf s) \<and> (tx_delay s \<noteq> 0 \<or> \<not> packetReady s)")
    case True
    note sw = switch_to_app_ok [OF 1(2)]
    note step = send_app_byte_ok [of "switch_to_app s"]
    show ?thesis
      using True sw step 1(1) [OF True refl prod.collapse refl]
      by (subst (1 2 3) send_app.simps) (simp add: case_prod_beta Let_def)
  qed (use 1(2) in \<open>subst (1 2 3) send_app.simps, auto\<close>)
qed

lemma pad_ok:
  "tx_ok s \<Longrightarrow> tx_ok (pad s) \<and> app_total (pad s) = app_total s \<and> debug_total ds (pad s) = debug_total ds s \<and>
    packetReady (pad s) = packetReady s"
proof (induction s rule: pad.induct)
  case (1 s)
  let ?s = "(bufferedWriteRaw (uint CHAR_SEL_APP) s)\<lparr>tx_debug := False\<rparr>"
  have "demux_byte CHAR_SEL_APP m = demux_select False m" for m by (simp add: demux_byte_def)
  then have "tx_ok ?s \<and> app_total ?s = app_total s \<and> debug_total ds ?s = debug_total ds s"
    using 1(2) by (auto simp: tx_ok_def in_sync_def app_total_def debug_total_def demux_select_def)
  with 1 show ?case by (subst (1 2 3 4) pad.simps) (simp add: Let_def)
qed

lemma demux_select_twice [simp]: "dm_terminated m \<Longrightarrow> demux_select b m = m\<lparr>dm_debug := b\<rparr>"
  by (simp add: demux_select_def)

lemma peer_bytes:
  fixes p :: "u8 list"
  assumes "\<not> dm_escaping (peer s)" "dm_debug (peer s)"
  shows "peer (fold (\<lambda>b. bufferedWriteData (uint b)) p s) =
    (peer s)\<lparr>dm_packets := dm_packets (peer s) @ map uint p, dm_terminated := dm_terminated (peer s) \<and> p = []\<rparr>"
  using assms
proof (induction p arbitrary: s)
  case (Cons b p)
  have "peer (bufferedWriteData (uint b) s) =
      (peer s)\<lparr>dm_packets := dm_packets (peer s) @ [uint b], dm_terminated := False\<rparr>"
    using Cons.prems by (simp add: peer_data demux_data_def ucast_id)
  with Cons show ?case by simp
qed simp

lemma fold_write_fields [simp]:
  "packetReady (fold (\<lambda>b. bufferedWriteData (uint b)) p s) = packetReady s"
  "tx_debug (fold (\<lambda>b. bufferedWriteData (uint b)) p s) = tx_debug s"
  by (induction p arbitrary: s) simp_all

lemma send_packet_ok:
  assumes "tx_ok s"
  shows "tx_ok (send_packet s) \<and> app_total (send_packet s) = app_total s \<and> debug_total ds (send_packet s) = debug_total ds s"
proof (cases "packetReady s")
  case True
  let ?s1 = "pad s"
  define s2 where "s2 = (if \<not> tx_debug ?s1 then (bufferedWriteRaw (uint CHAR_SEL_DEBUG) ?s1)\<lparr>tx_debug := True\<rparr> else ?s1)"
  from pad_ok [OF assms] True have s1: "tx_ok ?s1" "app_total ?s1 = app_total s" "debug_total ds ?s1 = debug_total ds s"
    "packetReady ?s1" by auto
  have dbg: "demux_byte CHAR_SEL_DEBUG m = demux_select True m" "demux_byte CHAR_SEL_APP m = demux_select False m" for m
    by (simp_all add: demux_byte_def control_chars)
  have s2: "tx_ok s2" "app_total s2 = app_total s" "debug_total ds s2 = debug_total ds s" "packetReady s2"
    "tx_debug s2" "dm_debug (peer s2)"
    using s1 unfolding s2_def by (auto simp: tx_ok_def in_sync_def app_total_def debug_total_def dbg)
  define s3 where "s3 = fold (\<lambda>b. bufferedWriteData (uint b)) (take (packetBufSize s2) (packetBuf s2)) s2"
  have all: "take (packetBufSize s2) (packetBuf s2) = packetBuf s2"
    using s2(1,4) by (simp add: tx_ok_def)
  have p3: "peer s3 = (peer s2)\<lparr>dm_packets := dm_packets (peer s2) @ map uint (packetBuf s2),
      dm_terminated := packetBuf s2 = []\<rparr>"
    unfolding s3_def all using s2(1,6) by (subst peer_bytes) (auto simp: tx_ok_def in_sync_def)
  have frame3: "debugTxBuf s3 = debugTxBuf s2" "appTxBuf s3 = appTxBuf s2" "tx_debug s3"
    using s2(5) unfolding s3_def by simp_all
  have "send_packet s =
      (let s = s3\<lparr>tx_delay := packetBufDelay s3, packetReady := False, packetBufSize := 0, packetBuf := []\<rparr>;
           s = (if \<not> ringBufEmpty (debugTxBuf s)
                then (bufferedWriteRaw (uint CHAR_SEL_DEBUG) s)\<lparr>tx_debug := True\<rparr>
                else (bufferedWriteRaw (uint CHAR_SEL_APP) s)\<lparr>tx_debug := False\<rparr>)
       in s\<lparr>tx_delay := tx_delay s - 1\<rparr>)"
    using True unfolding send_packet_def Let_def s3_def s2_def by simp
  then show ?thesis
    unfolding s2(2,3) [symmetric]
    using s2(1,4) frame3 p3
    by (simp add: Let_def tx_ok_def in_sync_def app_total_def debug_total_def framed_def dbg demux_select_def
        del: demux_select_twice)
next
  case False
  with assms show ?thesis by (simp add: send_packet_def)
qed

lemma flush_loop_ok:
  "tx_ok s \<Longrightarrow> tx_ok (flush_loop s) \<and> app_total (flush_loop s) = app_total s \<and>
    debug_total ds (flush_loop s) = debug_total ds s \<and>
    ring_contents (appTxBuf (flush_loop s)) = [] \<and> ring_contents (debugTxBuf (flush_loop s)) = []"
proof (induction s rule: flush_loop.induct)
  case (1 s)
  note r = read_packet_ok [OF 1(2)]
  note a = send_app_ok [OF conjunct1 [OF r]]
  note p = send_packet_ok [OF conjunct1 [OF a]]
  show ?case
  proof (cases "\<not> ringBufEmpty (appTxBuf s) \<or> \<not> ringBufEmpty (debugTxBuf s)")
    case True
    with 1(1) [OF True conjunct1 [OF p]] r a p show ?thesis by (subst (1 2 3 4 5) flush_loop.simps) simp
  next
    case False
    with 1(2) show ?thesis by (subst (1 2 3 4 5) flush_loop.simps) (simp add: ringBufEmpty_contents)
  qed
qed

lemma serial_flush_ok:
  assumes "tx_ok s"
  shows "tx_ok (serial_flush s) \<and> app_total (serial_flush s) = app_total s \<and>
    debug_total ds (serial_flush s) = debug_total ds s \<and>
    ring_contents (appTxBuf (serial_flush s)) = [] \<and> ring_contents (debugTxBuf (serial_flush s)) = []"
proof -
  have "tx_ok (bufferedWriteRaw (-1) s) = tx_ok s" "app_total (bufferedWriteRaw (-1) s) = app_total s"
    "debug_total ds (bufferedWriteRaw (-1) s) = debug_total ds s" for s
    by (simp_all add: tx_ok_def in_sync_def app_total_def debug_total_def)
  with flush_loop_ok [OF assms] show ?thesis by (simp add: serial_flush_def)
qed

lemma flush_loop_idle: "\<not> packetReady s \<Longrightarrow> \<not> packetReady (flush_loop s)"
proof (induction s rule: flush_loop.induct)
  case (1 s)
  then show ?case by (subst flush_loop.simps) auto
qed

lemma serial_flush_idle: "\<not> packetReady s \<Longrightarrow> \<not> packetReady (serial_flush s)" "tx_raw (serial_flush s) = []"
  using flush_loop_idle by (simp_all add: serial_flush_def) (simp add: bufferedWriteRaw_def Let_def)

lemma empty_not_full: "ring_contents b = [] \<Longrightarrow> \<not> ringBufFull b"
  using ring_contents_length [of b] by (simp add: ringBufFull_def SERIAL_BUFFER_SIZE_def del: ring_contents_length)

lemma to_short_low_byte: "uint (word_of_int (to_short (d AND 0xFF)) :: u8) = uint (word_of_int d :: u8)"
proof -
  have "d AND 0xFF = take_bit 8 d" by (simp add: take_bit_eq_mask mask_eq_exp_minus_1)
  moreover have "take_bit 8 d < 256" using take_bit_int_less_exp [of 8 d] by simp
  ultimately have "to_short (d AND 0xFF) = take_bit 8 d" by (simp add: to_short_id)
  then show ?thesis by (simp add: unsigned_of_int)
qed

lemma serial_appSend_ok:
  assumes "tx_ok s" "\<not> packetReady s"
  shows "tx_ok (serial_appSend d s) \<and> \<not> packetReady (serial_appSend d s) \<and>
    app_total (serial_appSend d s) = app_total s @ [uint (word_of_int d :: u8)] \<and>
    debug_total ds (serial_appSend d s) = debug_total ds s"
proof -
  define s' where "s' = (if ringBufFull (appTxBuf s) then serial_flush s else s)"
  have s': "tx_ok s'" "app_total s' = app_total s" "debug_total ds s' = debug_total ds s" "\<not> packetReady s'"
    "\<not> ringBufFull (appTxBuf s')"
    using serial_flush_ok [OF assms(1)] serial_flush_idle(1) assms empty_not_full by (auto simp: s'_def)
  from s'(1) have "ring_ok (appTxBuf s')" by (simp add: tx_ok_def)
  from ring_push [OF this s'(5), of "d AND 0xFF"] s'(1-4) show ?thesis
    unfolding serial_appSend_def Let_def s'_def [symmetric]
    by (simp add: tx_ok_def in_sync_def app_total_def debug_total_def to_short_low_byte flip: append_assoc)
qed

lemma serial_debugSend_ok:
  assumes "tx_ok s" "\<not> packetReady s"
  shows "tx_ok (serial_debugSend d s) \<and> \<not> packetReady (serial_debugSend d s) \<and>
    app_total (serial_debugSend d s) = app_total s \<and>
    debug_total ds (serial_debugSend d s) = debug_total (to_short d # ds) s"
proof -
  define s' where "s' = (if ringBufFull (debugTxBuf s) then serial_flush s else s)"
  have s': "tx_ok s'" "app_total s' = app_total s" "debug_total (to_short d # ds) s' = debug_total (to_short d # ds) s"
    "\<not> packetReady s'" "\<not> ringBufFull (debugTxBuf s')"
    using serial_flush_ok [OF assms(1)] serial_flush_idle(1) assms empty_not_full by (auto simp: s'_def)
  from s'(1) have "ring_ok (debugTxBuf s')" by (simp add: tx_ok_def)
  from ring_push [OF this s'(5), of d] s'(1-4) show ?thesis
    unfolding serial_debugSend_def Let_def s'_def [symmetric]
    by (simp add: tx_ok_def in_sync_def app_total_def debug_total_def)
qed

text \<open>Bytes and debug characters in the order in which the server sends them.\<close>

datatype send = SendApp int | SendDebug int

fun do_send :: "send \<Rightarrow> serial \<Rightarrow> serial" where
  "do_send (SendApp d) = serial_appSend d"
| "do_send (SendDebug d) = serial_debugSend d"

fun app_bytes :: "send list \<Rightarrow> int list" where
  "app_bytes [] = []"
| "app_bytes (SendApp d # es) = uint (word_of_int d :: u8) # app_bytes es"
| "app_bytes (SendDebug d # es) = app_bytes es"

fun debug_chars :: "send list \<Rightarrow> int list" where
  "debug_chars [] = []"
| "debug_chars (SendApp d # es) = debug_chars es"
| "debug_chars (SendDebug d # es) = to_short d # debug_chars es"

lemma sends_ok:
  "\<lbrakk>tx_ok s; \<not> packetReady s\<rbrakk> \<Longrightarrow> tx_ok (fold do_send es s) \<and> \<not> packetReady (fold do_send es s) \<and>
    app_total (fold do_send es s) = app_total s @ app_bytes es \<and>
    debug_total [] (fold do_send es s) = debug_total (debug_chars es) s"
proof (induction es arbitrary: s)
  case (Cons e es)
  then show ?case
    using serial_appSend_ok [OF Cons.prems] serial_debugSend_ok [OF Cons.prems] by (cases e) auto
qed simp

lemma initial_serial_ok: "tx_ok initial_serial" "\<not> packetReady initial_serial" "peer initial_serial = initial_demux"
  by (simp_all add: tx_ok_def in_sync_def initial_serial_def zero_ring_def ring_ok_def SERIAL_BUFFER_SIZE_def
      peer_def sent_def initial_demux_def)

lemma initial_totals: "app_total initial_serial = []" "debug_total ds initial_serial = completed [] 0 ds"
  by (simp_all add: app_total_def debug_total_def initial_serial_ok initial_demux_def)
    (simp_all add: initial_serial_def zero_ring_def ring_contents_def)

lemma flushed_wire:
  "dm_app (fold demux_byte (wire (serial_flush (fold do_send es initial_serial))) initial_demux) = app_bytes es \<and>
   dm_packets (fold demux_byte (wire (serial_flush (fold do_send es initial_serial))) initial_demux) =
     completed [] 0 (debug_chars es)"
proof -
  let ?s = "serial_flush (fold do_send es initial_serial)"
  note a = sends_ok [OF initial_serial_ok(1,2), of es]
  note f = serial_flush_ok [OF conjunct1 [OF a], of "[]"]
  have "peer ?s = fold demux_byte (wire ?s) initial_demux"
    using serial_flush_idle(2) by (simp add: peer_def sent_def)
  moreover have "app_total ?s = app_bytes es" "debug_total [] ?s = completed [] 0 (debug_chars es)"
    using a f by (simp_all add: initial_totals)
  ultimately show ?thesis
    using f serial_flush_idle(1) a by (simp add: app_total_def debug_total_def)
qed

text \<open>
  C27. Nothing is lost or reordered on the way out: after any sequence of sends to either stream
  and a flush, everything is on the wire, and the other end that demultiplexes the wire has the
  bytes of the application in order, and the completed debug packets of at most 32 bytes in
  order, each followed by one end marker.
\<close>

theorem serial_flush_delivers:
  "dm_app (fold demux_byte (wire (serial_flush (fold do_send es initial_serial))) initial_demux) = app_bytes es \<and>
   dm_packets (fold demux_byte (wire (serial_flush (fold do_send es initial_serial))) initial_demux) =
     completed [] 0 (debug_chars es)"
  by (rule flushed_wire)

text \<open>
  C28. The receiver implements the demultiplexer: it routes a prefix of the chunk it read, up to
  the first byte that finds a receive buffer full, keeps the rest for the next call, and takes no
  new data before that rest is routed.
\<close>

theorem serial_update_refines_demux:
  assumes "rx_ok s" and "bytes \<noteq> []"
  shows "\<exists>n s'. serial_update (Some bytes) s = (0, s') \<and> rx_ok s' \<and>
    (let todo = (if rx_pending s = [] then bytes else rx_pending s) in
      received s' = fold demux_byte (take n todo) (received s) \<and> rx_pending s' = drop n todo \<and>
      (n < length todo \<longrightarrow> ringBufFull (appRxBuf s') \<or> ringBufFull (debugRxBuf s')))"
proof -
  let ?todo = "if rx_pending s = [] then bytes else rx_pending s"
  from route_received [OF assms(1), of ?todo] obtain n where
    n: "rx_ok (route ?todo s)" "received (route ?todo s) = fold demux_byte (take n ?todo) (received s)"
      "rx_pending (route ?todo s) = drop n ?todo"
      "drop n ?todo \<noteq> [] \<longrightarrow> ringBufFull (appRxBuf (route ?todo s)) \<or> ringBufFull (debugRxBuf (route ?todo s))"
    by blast
  have "serial_update (Some bytes) s = (0, route ?todo s)"
    using assms(2) by (cases bytes) (auto simp: serial_update_def)
  with n show ?thesis by (intro exI [of _ n] exI [of _ "route ?todo s"]) (auto simp: Let_def)
qed

lemma route_all:
  assumes "rx_ok s" "ring_count (appRxBuf s) + length bs \<le> 256" "ring_count (debugRxBuf s) + length bs \<le> 256"
  shows "received (route bs s) = fold demux_byte bs (received s)"
  using assms
proof (induction bs arbitrary: s)
  case Nil
  then show ?case by (simp add: received_def)
next
  case (Cons b bs)
  then have "\<not> ringBufFull (appRxBuf s)" "\<not> ringBufFull (debugRxBuf s)"
    by (auto simp: ringBufFull_def SERIAL_BUFFER_SIZE_def)
  with route_byte_received [OF Cons.prems(1)] route_byte_count [of b s] Cons.prems Cons.IH [of "route_byte b s"]
  show ?case by simp
qed

lemma link_received:
  assumes "rx_ok r" "received r = initial_demux" "rx_pending r = []"
    and "W = wire (serial_flush (fold do_send es initial_serial))" "0 < length W" "length W \<le> 256"
  shows "ring_contents (appRxBuf (route W r)) = app_bytes es \<and>
    ring_contents (debugRxBuf (route W r)) = completed [] 0 (debug_chars es)"
proof -
  have "ring_contents (appRxBuf r) = []" "ring_contents (debugRxBuf r) = []"
    using assms(2) by (simp_all add: received_def initial_demux_def)
  then have "ring_count (appRxBuf r) = 0" "ring_count (debugRxBuf r) = 0"
    using ring_contents_length by (metis list.size(3))+
  with route_all [OF assms(1), of W] assms(2,6) have "received (route W r) = fold demux_byte W initial_demux" by simp
  moreover have "dm_app (fold demux_byte W initial_demux) = app_bytes es"
    "dm_packets (fold demux_byte W initial_demux) = completed [] 0 (debug_chars es)"
    using flushed_wire [of es] by (simp_all add: assms(4))
  ultimately show ?thesis
    by (simp add: received_def) (metis demux.select_convs(4,5))
qed

text \<open>
  Round trip over the wire: what one end sends and flushes, an end that has received nothing
  yet receives in one read of the port, as long as it is at most 256 characters on the wire.
\<close>

theorem serial_link_roundtrip:
  assumes "rx_ok r" "received r = initial_demux" "rx_pending r = []"
    and "W = wire (serial_flush (fold do_send es initial_serial))" "0 < length W" "length W \<le> 256"
  shows "\<exists>r'. serial_update (Some W) r = (0, r') \<and> ring_contents (appRxBuf r') = app_bytes es \<and>
    ring_contents (debugRxBuf r') = completed [] 0 (debug_chars es)"
proof -
  have "serial_update (Some W) r = (0, route W r)"
    using assms(3,5) by (cases W) (auto simp: serial_update_def)
  with link_received [OF assms] show ?thesis by blast
qed

lemma demo_wire:
  "wire (serial_flush (fold do_send [SendApp 0xFE, SendDebug 0xA1, SendDebug 256] initial_serial)) =
    [0xFD, 0xA1, 0xFE, 0xFC, 0x01]"
  by code_simp

theorem serial_update_refines_demux_witness:
  "\<exists>s'. serial_update (Some [0xFD, 0x41, 0xFE]) initial_serial = (0, s') \<and> rx_ok s'"
proof -
  have "rx_ok initial_serial"
    by (simp add: rx_ok_def initial_serial_def zero_ring_def ring_ok_def SERIAL_BUFFER_SIZE_def)
  from serial_update_refines_demux [OF this, of "[0xFD, 0x41, 0xFE]"] show ?thesis by auto
qed

theorem serial_link_roundtrip_witness:
  "\<exists>r'. serial_update (Some [0xFD, 0xA1, 0xFE, 0xFC, 0x01]) initial_serial = (0, r') \<and>
    ring_contents (appRxBuf r') = [0xFE] \<and> ring_contents (debugRxBuf r') = [0xA1, 256]"
proof -
  have "rx_ok initial_serial" "received initial_serial = initial_demux" "rx_pending initial_serial = []"
    by (simp_all add: rx_ok_def initial_serial_def zero_ring_def ring_ok_def SERIAL_BUFFER_SIZE_def
        received_def initial_demux_def ring_contents_def)
  from serial_link_roundtrip [OF this demo_wire [symmetric]] show ?thesis
    by (simp add: to_short_id framed_def)
qed

end
