(* ===== verification/Debug_Packets.thy ===== *)
theory Debug_Packets
  imports Serial
begin

text \<open>
  The packets of the debug protocol (\<open>rvsrv/uart/debugCommands.c\<close>): a command code with a
  4-bit sequence number, up to 30 bytes of payload and a CRC, ended by the marker 256 of the
  serial layer. The theory holds the functions that receive and transmit a packet, the frames a
  receiver is meant to accept, and that \<open>receivePacket\<close> accepts exactly those.
\<close>

text \<open>\<open>pk_data\<close> is the array of 30 bytes, of which \<open>pk_len\<close> are used.\<close>

record packet =
  commandCode :: u8
  pk_data :: "u8 list"
  pk_crc :: u8
  pk_len :: nat

definition CRC_POLYNOMIAL :: u8 where
  "CRC_POLYNOMIAL = 0x07"

definition crc_bit :: "u8 \<Rightarrow> nat \<Rightarrow> u8 \<Rightarrow> u8" where
  "crc_bit d i crc =
     (let b = (bit crc 7 \<noteq> bit d i); crc = push_bit 1 crc in if b then crc XOR CRC_POLYNOMIAL else crc)"

definition updateCrc :: "u8 \<Rightarrow> u8 \<Rightarrow> u8" where
  "updateCrc d crc = fold (crc_bit d) [7, 6, 5, 4, 3, 2, 1, 0] crc"

definition crcPacket :: "packet \<Rightarrow> u8" where
  "crcPacket p = fold updateCrc (take (pk_len p) (pk_data p)) (updateCrc (commandCode p) 0)"

definition getPacketSequence :: "packet \<Rightarrow> nat" where
  "getPacketSequence p = unat (commandCode p AND 0x0F)"

definition setPacketSequence :: "nat \<Rightarrow> packet \<Rightarrow> packet" where
  "setPacketSequence n p = p\<lparr>commandCode := (commandCode p AND 0xF0) OR (word_of_nat n AND 0x0F)\<rparr>"

text \<open>
  The static receive buffer of \<open>receivePacket\<close>: the first 32 bytes of the packet so far and its
  length.
\<close>

record rx_buffer =
  rxb_bytes :: "u8 list"
  rxb_len :: nat

definition rx_append :: "int \<Rightarrow> rx_buffer \<Rightarrow> rx_buffer" where
  "rx_append d b = b\<lparr>rxb_bytes := (if rxb_len b < 32 then rxb_bytes b @ [word_of_int d] else rxb_bytes b),
     rxb_len := rxb_len b + 1\<rparr>"

definition rx_clear :: rx_buffer where
  "rx_clear = \<lparr>rxb_bytes = [], rxb_len = 0\<rparr>"

text \<open>Bytes of the array behind the payload keep what they were.\<close>

definition assemble :: "rx_buffer \<Rightarrow> packet \<Rightarrow> packet" where
  "assemble b p =
     (let n = rxb_len b - 2; payload = take n (drop 1 (rxb_bytes b)) in
      \<lparr>commandCode = rxb_bytes b ! 0, pk_data = payload @ drop n (pk_data p),
       pk_crc = rxb_bytes b ! (rxb_len b - 1), pk_len = n\<rparr>)"

text \<open>The loop over the characters the serial port has; \<open>None\<close> is the return value 0.\<close>

function receivePacket :: "packet \<Rightarrow> rx_buffer \<Rightarrow> serial \<Rightarrow> (packet option \<times> packet) \<times> rx_buffer \<times> serial" where
  "receivePacket p b s =
     (if ringBufEmpty (debugRxBuf s) then ((None, p), b, s)
      else (let (d, s') = serial_debugReceive s in
        if d < 0 then ((None, p), b, s')
        else if d > 255 then
          (if rxb_len b < 2 \<or> rxb_len b > 32 then receivePacket p rx_clear s'
           else (let p' = assemble b p in
             if crcPacket p' = pk_crc p' then ((Some p', p'), rx_clear, s')
             else receivePacket p' rx_clear s'))
        else receivePacket p (rx_append d b) s'))"
  by auto
termination
  by (relation "measure (\<lambda>(p, b, s). ring_count (debugRxBuf s))")
    (auto simp: serial_debugReceive_def serial_receive_def Let_def split: if_splits prod.splits
      dest!: ringBufPop_count)

declare receivePacket.simps [simp del]

definition packet_chars :: "packet \<Rightarrow> int list" where
  "packet_chars p = uint (commandCode p) # map uint (take (pk_len p) (pk_data p)) @ [uint (pk_crc p), 256]"

definition transmitPacket :: "packet \<Rightarrow> serial \<Rightarrow> packet \<times> serial" where
  "transmitPacket p s =
     (let p = p\<lparr>pk_crc := crcPacket p\<rparr> in (p, fold serial_debugSend (packet_chars p) s))"

lemma receivePacket_count:
  "ring_count (debugRxBuf (snd (snd (receivePacket p b s)))) \<le> ring_count (debugRxBuf s) \<and>
   (fst (fst (receivePacket p b s)) \<noteq> None \<longrightarrow>
     ring_count (debugRxBuf (snd (snd (receivePacket p b s)))) < ring_count (debugRxBuf s))"
proof (induction p b s rule: receivePacket.induct)
  case (1 p b s)
  show ?case
  proof (cases "ringBufEmpty (debugRxBuf s)")
    case True
    then show ?thesis by (subst (1 2 3) receivePacket.simps) simp
  next
    case False
    obtain d s' where ds: "serial_debugReceive s = (d, s')" by force
    then have c: "ring_count (debugRxBuf s') < ring_count (debugRxBuf s)"
      using False ringBufPop_count [OF False]
      by (auto simp: serial_debugReceive_def serial_receive_def split: prod.splits)
    note ih = 1 [OF False ds [symmetric]]
    consider "d < 0" | "0 \<le> d" "d \<le> 255" | "d > 255" "rxb_len b < 2 \<or> rxb_len b > 32"
      | "d > 255" "\<not> (rxb_len b < 2 \<or> rxb_len b > 32)" by linarith
    then show ?thesis
    proof cases
      case 1
      with c False ds show ?thesis by (subst (1 2 3) receivePacket.simps) simp
    next
      case 2
      with c False ds ih(3) [OF refl] show ?thesis by (subst (1 2 3) receivePacket.simps) auto
    next
      case 3
      with c False ds ih(1) [OF refl] show ?thesis by (subst (1 2 3) receivePacket.simps) auto
    next
      case 4
      with c False ds ih(2) [OF refl _ _ _ refl] show ?thesis by (subst (1 2 3) receivePacket.simps) (auto simp: Let_def)
    qed
  qed
qed

section \<open>The checksum\<close>

text \<open>
  The bits of the data reach the register as if they had been added to it at the start, and
  clocking the register is injective; so the CRC after a byte determines the byte.
\<close>

lemma crc_bit_alt: "crc_bit d i c = push_bit 1 c XOR (if bit c 7 \<noteq> bit d i then CRC_POLYNOMIAL else 0)"
  by (simp add: crc_bit_def Let_def)

lemma crc_bit_shift:
  assumes "k < 8"
  shows "crc_bit 0 j (c XOR push_bit k d) = crc_bit d (7 - k) c XOR push_bit (Suc k) d"
proof -
  have "bit (c XOR push_bit k d) 7 \<noteq> bit (0 :: u8) j \<longleftrightarrow> bit c 7 \<noteq> bit d (7 - k)"
    using assms by (simp add: bit_xor_iff bit_push_bit_iff)
  moreover have "push_bit 1 (c XOR push_bit k d) = push_bit 1 c XOR push_bit (Suc k) d"
    by (simp only: push_bit_xor push_bit_push_bit) simp
  ultimately show ?thesis unfolding crc_bit_alt by (simp only: xor.assoc xor.commute xor.left_commute)
qed

lemma crc_bits_shift:
  "n \<le> 8 \<Longrightarrow> fold (crc_bit 0) (map ((-) 7) [0..<n]) (c XOR d) =
    fold (crc_bit d) (map ((-) 7) [0..<n]) c XOR push_bit n d"
  by (induction n) (auto simp: crc_bit_shift)

lemma updateCrc_absorb: "updateCrc d c = updateCrc 0 (c XOR d)"
proof -
  have z: "push_bit 8 d = 0" by (rule bit_word_eqI) (simp add: bit_push_bit_iff)
  have bits: "map ((-) 7) [0..<8] = [7, 6, 5, 4, 3, 2, 1, 0 :: nat]" by code_simp
  from crc_bits_shift [of 8 c d, unfolded bits, OF order_refl] show ?thesis
    by (simp only: updateCrc_def z xor.right_neutral)
qed

lemma xor_cancel: "a XOR k = b XOR k \<longleftrightarrow> a = b" "k XOR a = k XOR b \<longleftrightarrow> a = b" for a b k :: u8
  by (metis xor.assoc xor.right_neutral xor_self_eq, metis xor.assoc xor.left_neutral xor_self_eq)

lemma crc_bit_inj: "crc_bit d i a = crc_bit d i b \<Longrightarrow> a = b"
proof -
  assume eq: "crc_bit d i a = crc_bit d i b"
  have "bit (crc_bit d i c) 0 \<longleftrightarrow> bit c 7 \<noteq> bit d i" for c
    unfolding crc_bit_alt bit_xor_iff bit_push_bit_iff by (simp add: CRC_POLYNOMIAL_def)
  with eq have "bit a 7 = bit b 7" by metis
  with eq have p: "push_bit 1 a = push_bit 1 b" by (simp only: crc_bit_alt xor_cancel)
  have "bit a n = bit b n" if "n < 7" for n
    using arg_cong [OF p, of "\<lambda>w. bit w (Suc n)"] that unfolding bit_push_bit_iff by simp
  with \<open>bit a 7 = bit b 7\<close> have "bit a n = bit b n" if "n < 8" for n
    using that by (cases "n = 7") auto
  then show "a = b" by (intro bit_word_eqI) simp
qed

lemma updateCrc_inj: "updateCrc d a = updateCrc d b \<longleftrightarrow> a = b"
  by (auto simp: updateCrc_def dest!: crc_bit_inj)

lemma updateCrc_inj_data: "updateCrc c a = updateCrc d a \<longleftrightarrow> c = d"
  by (subst (1 2) updateCrc_absorb) (simp only: updateCrc_inj xor_cancel)

lemma fold_updateCrc_inj: "fold updateCrc bs a = fold updateCrc bs b \<longleftrightarrow> a = b"
  by (induction bs arbitrary: a b) (auto simp: updateCrc_inj)

text \<open>A byte string is a frame when its last byte is the CRC of the others.\<close>

definition good_frame :: "u8 list \<Rightarrow> bool" where
  "good_frame bs \<longleftrightarrow> 2 \<le> length bs \<and> length bs \<le> 32 \<and> fold updateCrc (butlast bs) 0 = last bs"

lemma changed_byte_is_detected:
  assumes "good_frame bs" "i < length bs" "x \<noteq> bs ! i"
  shows "\<not> good_frame (bs[i := x])"
proof (cases "i = length bs - 1")
  case True
  with assms(2) have "butlast (bs[i := x]) = butlast bs" "last (bs[i := x]) = x"
    by (cases bs rule: rev_cases; simp)+
  moreover have "last bs \<noteq> x"
    using assms(2,3) True by (cases bs rule: rev_cases) auto
  ultimately show ?thesis using assms(1) by (auto simp: good_frame_def)
next
  case False
  with assms(2) have i: "i < length (butlast bs)" by simp
  then have "butlast (bs[i := x]) = take i (butlast bs) @ x # drop (Suc i) (butlast bs)"
    using False by (simp only: butlast_list_update if_False upd_conv_take_nth_drop)
  moreover have "butlast bs = take i (butlast bs) @ bs ! i # drop (Suc i) (butlast bs)"
    using i id_take_nth_drop nth_butlast by metis
  ultimately obtain us vs where e: "butlast (bs[i := x]) = us @ x # vs" "butlast bs = us @ bs ! i # vs" by blast
  have "fold updateCrc (butlast (bs[i := x])) 0 \<noteq> fold updateCrc (butlast bs) 0"
    unfolding e using assms(3) by (simp add: fold_updateCrc_inj updateCrc_inj_data)
  moreover have "last (bs[i := x]) = last bs"
    using assms(2) False by (cases bs rule: rev_cases) (auto simp: list_update_append)
  ultimately show ?thesis using assms(1) by (simp add: good_frame_def)
qed

section \<open>What a receiver is meant to accept\<close>

text \<open>
  The first good frame of a stretch of characters: the bytes up to it, that is, the marker, the
  bytes of an unfinished frame, and the characters behind it.
\<close>

fun next_frame :: "u8 list \<Rightarrow> int list \<Rightarrow> u8 list option \<times> u8 list \<times> int list" where
  "next_frame bs [] = (None, bs, [])"
| "next_frame bs (d # ds) =
     (if d \<le> 255 then next_frame (bs @ [word_of_int d]) ds
      else if good_frame bs then (Some bs, [], ds) else next_frame [] ds)"

text \<open>All good frames, and what a packet and a frame have in common.\<close>

fun frames :: "u8 list \<Rightarrow> int list \<Rightarrow> u8 list list" where
  "frames bs [] = []"
| "frames bs (d # ds) =
     (if d \<le> 255 then frames (bs @ [word_of_int d]) ds
      else (if good_frame bs then [bs] else []) @ frames [] ds)"

text \<open>The bytes behind the last marker.\<close>

fun leftover :: "u8 list \<Rightarrow> int list \<Rightarrow> u8 list" where
  "leftover bs [] = bs"
| "leftover bs (d # ds) = (if d \<le> 255 then leftover (bs @ [word_of_int d]) ds else leftover [] ds)"

lemma next_frame_frames:
  "next_frame bs ds = (f, bs', ds') \<Longrightarrow>
    frames bs ds = (case f of None \<Rightarrow> [] | Some fs \<Rightarrow> fs # frames bs' ds') \<and> leftover bs ds = leftover bs' ds' \<and>
    (f = None \<longrightarrow> ds' = []) \<and>
    (f \<noteq> None \<longrightarrow> bs' = []) \<and> length ds' \<le> length ds \<and> set ds' \<subseteq> set ds"
  by (induction bs ds rule: next_frame.induct) (auto split: if_splits option.splits)

definition frame_view :: "u8 list \<Rightarrow> u8 \<times> u8 list" where
  "frame_view f = (hd f, butlast (tl f))"

definition buffered :: "rx_buffer \<Rightarrow> u8 list \<Rightarrow> bool" where
  "buffered b bs \<longleftrightarrow> rxb_len b = length bs \<and> rxb_bytes b = take 32 bs"

text \<open>The packet a frame carries, in an array whose other bytes are as before.\<close>

definition packet_of :: "u8 list \<Rightarrow> packet \<Rightarrow> packet" where
  "packet_of bs p =
     \<lparr>commandCode = hd bs, pk_data = butlast (tl bs) @ drop (length bs - 2) (pk_data p),
      pk_crc = last bs, pk_len = length bs - 2\<rparr>"

lemma frame_split: "2 \<le> length bs \<Longrightarrow> \<exists>c ds x. bs = c # ds @ [x]"
  by (cases bs; cases "tl bs" rule: rev_cases) auto

lemma assemble_packet_of:
  assumes "buffered b bs" "2 \<le> length bs" "length bs \<le> 32"
  shows "assemble b p = packet_of bs p"
proof -
  from assms have b: "rxb_len b = length bs" "rxb_bytes b = bs" by (simp_all add: buffered_def)
  obtain c ds x where bs: "bs = c # ds @ [x]" using frame_split [OF assms(2)] by blast
  show ?thesis
    unfolding assemble_def packet_of_def b by (simp add: bs Let_def)
qed

lemma crc_packet_of:
  assumes "2 \<le> length bs"
  shows "crcPacket (packet_of bs p) = fold updateCrc (butlast bs) 0"
proof -
  obtain c ds x where bs: "bs = c # ds @ [x]" using frame_split [OF assms] by blast
  show ?thesis by (simp add: crcPacket_def packet_of_def bs)
qed

lemma buffered_clear: "buffered rx_clear []"
  by (simp add: buffered_def rx_clear_def)

lemma buffered_append: "buffered b bs \<Longrightarrow> buffered (rx_append d b) (bs @ [word_of_int d])"
  by (auto simp: buffered_def rx_append_def)

lemma length_packet_of: "2 \<le> length bs \<Longrightarrow> length bs \<le> 32 \<Longrightarrow> length (pk_data p) = 30 \<Longrightarrow>
    length (pk_data (packet_of bs p)) = 30"
  by (simp add: packet_of_def)

lemma receive_step:
  assumes "ring_ok (debugRxBuf s)" "ring_contents (debugRxBuf s) = d # ds"
  obtains r where "\<not> ringBufEmpty (debugRxBuf s)" "serial_debugReceive s = (d, s\<lparr>debugRxBuf := r\<rparr>)"
    "ring_ok r" "ring_contents r = ds"
proof
  show e: "\<not> ringBufEmpty (debugRxBuf s)" using assms(2) by (simp add: ringBufEmpty_contents)
  let ?r = "snd (ringBufPop (debugRxBuf s))"
  show "ring_ok ?r" "ring_contents ?r = ds" using ring_pop [OF assms(1) e] assms(2) by auto
  show "serial_debugReceive s = (d, s\<lparr>debugRxBuf := ?r\<rparr>)"
    using ring_pop [OF assms(1) e] assms(2) e
    by (simp add: serial_debugReceive_def serial_receive_def case_prod_beta)
qed

lemma receivePacket_next_frame:
  assumes "ring_ok (debugRxBuf s)" "\<forall>d \<in> set (ring_contents (debugRxBuf s)). 0 \<le> d"
    and "buffered b bs" "length (pk_data p) = 30"
    and "next_frame bs (ring_contents (debugRxBuf s)) = (f, bs', ds')"
  shows "\<exists>p' b' r. receivePacket p b s = ((map_option (\<lambda>_. p') f, p'), b', s\<lparr>debugRxBuf := r\<rparr>) \<and>
    ring_ok r \<and> ring_contents r = ds' \<and> buffered b' bs' \<and> length (pk_data p') = 30 \<and>
    (case f of None \<Rightarrow> True | Some fs \<Rightarrow> \<exists>q. p' = packet_of fs q \<and> good_frame fs)"
  using assms
proof (induction "ring_contents (debugRxBuf s)" arbitrary: p b bs s)
  case Nil
  then have "receivePacket p b s = ((None, p), b, s)"
    by (subst receivePacket.simps) (simp add: ringBufEmpty_contents)
  with Nil show ?case by (intro exI [of _ p] exI [of _ b] exI [of _ "debugRxBuf s"]) auto
next
  case (Cons d ds)
  from receive_step [OF Cons.prems(1) Cons.hyps(2) [symmetric]] obtain r where
    r: "\<not> ringBufEmpty (debugRxBuf s)" "serial_debugReceive s = (d, s\<lparr>debugRxBuf := r\<rparr>)" "ring_ok r" "ring_contents r = ds"
    by blast
  have d: "0 \<le> d" "\<forall>d \<in> set (ring_contents r). 0 \<le> d"
    using Cons.prems(2) r(4) by (simp_all flip: Cons.hyps(2))
  note nf = Cons.prems(5) [folded Cons.hyps(2), simplified next_frame.simps, folded r(4)]
  have ih: "\<exists>p' b' r'. receivePacket p1 b1 (s\<lparr>debugRxBuf := r\<rparr>) = ((map_option (\<lambda>_. p') f, p'), b', s\<lparr>debugRxBuf := r'\<rparr>) \<and>
      ring_ok r' \<and> ring_contents r' = ds' \<and> buffered b' bs' \<and> length (pk_data p') = 30 \<and>
      (case f of None \<Rightarrow> True | Some fs \<Rightarrow> \<exists>q. p' = packet_of fs q \<and> good_frame fs)"
    if "buffered b1 bs1" "length (pk_data p1) = 30" "next_frame bs1 (ring_contents r) = (f, bs', ds')" for p1 b1 bs1
    using Cons.hyps(1) [of "s\<lparr>debugRxBuf := r\<rparr>" b1 bs1 p1] r(3,4) d(2) that by simp
  have len: "rxb_len b = length bs" using Cons.prems(3) by (simp add: buffered_def)
  consider "d \<le> 255" | "d > 255" "length bs < 2 \<or> length bs > 32" | "d > 255" "2 \<le> length bs" "length bs \<le> 32" by linarith
  then show ?case
  proof cases
    case 1
    with r d have "receivePacket p b s = receivePacket p (rx_append d b) (s\<lparr>debugRxBuf := r\<rparr>)"
      by (subst receivePacket.simps) simp
    with ih [OF buffered_append [OF Cons.prems(3)] Cons.prems(4)] nf 1 show ?thesis by simp
  next
    case 2
    with r d len have "receivePacket p b s = receivePacket p rx_clear (s\<lparr>debugRxBuf := r\<rparr>)"
      by (subst receivePacket.simps) auto
    with ih [OF buffered_clear Cons.prems(4)] nf 2 show ?thesis by (auto simp: good_frame_def)
  next
    case 3
    let ?q = "packet_of bs p"
    have q: "length (pk_data ?q) = 30" "assemble b p = ?q"
      using 3 Cons.prems(3,4) by (simp_all add: length_packet_of assemble_packet_of)
    have "crcPacket ?q = pk_crc ?q \<longleftrightarrow> good_frame bs"
      using 3 by (simp add: crc_packet_of good_frame_def) (simp add: packet_of_def)
    with r d len 3 q(2) have *: "receivePacket p b s = (if good_frame bs then ((Some ?q, ?q), rx_clear, s\<lparr>debugRxBuf := r\<rparr>)
        else receivePacket ?q rx_clear (s\<lparr>debugRxBuf := r\<rparr>))"
      by (subst receivePacket.simps) (simp add: Let_def)
    show ?thesis
    proof (cases "good_frame bs")
      case True
      with nf 3 have "f = Some bs" "bs' = []" "ds' = ring_contents r" by auto
      with * True r q(1) buffered_clear show ?thesis by auto
    next
      case False
      with ih [OF buffered_clear q(1)] nf 3 * show ?thesis by simp
    qed
  qed
qed

section \<open>Packets between the two ends\<close>

definition payload :: "packet \<Rightarrow> u8 list" where
  "payload p = take (pk_len p) (pk_data p)"

definition packet_view :: "packet \<Rightarrow> u8 \<times> u8 list" where
  "packet_view p = (commandCode p, payload p)"

lemma packet_view_of: "good_frame f \<Longrightarrow> packet_view (packet_of f q) = frame_view f"
  by (auto simp: packet_view_def frame_view_def packet_of_def payload_def good_frame_def)

definition packet_ok :: "packet \<Rightarrow> bool" where
  "packet_ok p \<longleftrightarrow> pk_len p \<le> 30 \<and> length (pk_data p) = 30"

definition packet_bytes :: "packet \<Rightarrow> u8 list" where
  "packet_bytes p = commandCode p # payload p @ [crcPacket p]"

lemma packet_bytes_good: "packet_ok p \<Longrightarrow> good_frame (packet_bytes p)"
  by (simp add: packet_ok_def packet_bytes_def good_frame_def payload_def crcPacket_def)

lemma packet_bytes_length: "packet_ok p \<Longrightarrow> length (packet_bytes p) = pk_len p + 2"
  by (simp add: packet_ok_def packet_bytes_def payload_def)

lemma packet_of_bytes:
  assumes "packet_ok p"
  shows "commandCode (packet_of (packet_bytes p) q) = commandCode p" "payload (packet_of (packet_bytes p) q) = payload p"
    "pk_crc (packet_of (packet_bytes p) q) = crcPacket p" "pk_len (packet_of (packet_bytes p) q) = pk_len p"
  using assms by (simp_all add: packet_of_def packet_bytes_def payload_def packet_ok_def)

lemma next_frame_bytes:
  "next_frame us (map uint bs @ 256 # ds) =
    (if good_frame (us @ bs) then (Some (us @ bs), [], ds) else next_frame [] ds)"
proof (induction bs arbitrary: us)
  case (Cons b bs)
  have "uint b \<le> 255" using uint_lt2p [of b] by simp
  with Cons show ?case by simp
qed simp

lemma next_frame_packet: "packet_ok p \<Longrightarrow>
    next_frame [] (map uint (packet_bytes p) @ 256 # ds) = (Some (packet_bytes p), [], ds)"
  by (simp add: next_frame_bytes packet_bytes_good)

lemma packet_chars_bytes: "packet_chars (p\<lparr>pk_crc := crcPacket p\<rparr>) = map uint (packet_bytes p) @ [256]"
  by (simp add: packet_chars_def packet_bytes_def payload_def)

text \<open>The packets one receiver gets when it asks up to \<open>n\<close> times.\<close>

fun receive_n :: "nat \<Rightarrow> packet \<Rightarrow> rx_buffer \<Rightarrow> serial \<Rightarrow> packet list" where
  "receive_n 0 p b s = []"
| "receive_n (Suc n) p b s =
     (case receivePacket p b s of
        ((None, _), _, _) \<Rightarrow> []
      | ((Some q, p'), b', s') \<Rightarrow> q # receive_n n p' b' s')"

lemma nonneg_bytes: "\<forall>d \<in> set (map uint (bs :: u8 list)). 0 \<le> d"
  by auto

lemma receive_packets_in_order:
  assumes "\<forall>p \<in> set ps. packet_ok p" "ring_ok (debugRxBuf s)"
    and "ring_contents (debugRxBuf s) = concat (map (\<lambda>p. map uint (packet_bytes p) @ [256]) ps)"
    and "buffered b []" "length (pk_data q) = 30"
  shows "map (\<lambda>p. (commandCode p, payload p, pk_crc p)) (receive_n (length ps) q b s) =
    map (\<lambda>p. (commandCode p, payload p, crcPacket p)) ps"
  using assms
proof (induction ps arbitrary: s b q)
  case (Cons p ps)
  let ?ds = "concat (map (\<lambda>p. map uint (packet_bytes p) @ [256]) ps)"
  have p: "packet_ok p" using Cons.prems(1) by simp
  have nn: "\<forall>d \<in> set (ring_contents (debugRxBuf s)). 0 \<le> d"
    unfolding Cons.prems(3) using nonneg_bytes by auto
  have nf: "next_frame [] (ring_contents (debugRxBuf s)) = (Some (packet_bytes p), [], ?ds)"
    using next_frame_packet [OF p, of ?ds] Cons.prems(3) by simp
  from receivePacket_next_frame [OF Cons.prems(2) nn Cons.prems(4,5) nf] obtain q' b' r x where
    r: "receivePacket q b s = ((Some q', q'), b', s\<lparr>debugRxBuf := r\<rparr>)" "ring_ok r" "ring_contents r = ?ds"
      "buffered b' []" "length (pk_data q') = 30" "q' = packet_of (packet_bytes p) x" by auto
  from Cons.IH [of "s\<lparr>debugRxBuf := r\<rparr>" b' q'] Cons.prems(1) r packet_of_bytes [OF p, of x] show ?case by simp
qed simp

lemma transmit_sends: "snd (transmitPacket p s) = fold do_send (map SendDebug (map uint (packet_bytes p) @ [256])) s"
proof -
  have "fold do_send (map SendDebug ds) s = fold serial_debugSend ds s" for ds s
    by (induction ds arbitrary: s) auto
  then show ?thesis by (simp add: transmitPacket_def packet_chars_bytes Let_def del: map_append list.map)
qed

lemma transmits_send: "fold (\<lambda>p s. snd (transmitPacket p s)) ps s =
    fold do_send (map SendDebug (concat (map (\<lambda>p. map uint (packet_bytes p) @ [256]) ps))) s"
  by (induction ps arbitrary: s) (simp_all add: transmit_sends)

lemma completed_bytes:
  "length us + length bs \<le> 32 \<Longrightarrow>
    completed us (length us) (map uint bs @ 256 # ds) = framed (us @ bs) @ completed [] 0 ds"
proof (induction bs arbitrary: us)
  case (Cons b bs)
  have "uint b < 256" using uint_lt2p [of b] by simp
  with Cons.prems Cons.IH [of "us @ [b]"] show ?case by simp
qed simp

lemma completed_packets:
  "\<forall>p \<in> set ps. packet_ok p \<Longrightarrow>
    completed [] 0 (concat (map (\<lambda>p. map uint (packet_bytes p) @ [256]) ps)) =
    concat (map (\<lambda>p. map uint (packet_bytes p) @ [256]) ps)"
proof (induction ps)
  case (Cons p ps)
  then have "length (packet_bytes p) \<le> 32" by (simp add: packet_bytes_length packet_ok_def)
  with completed_bytes [of "[]" "packet_bytes p"] Cons show ?case
    by (simp add: framed_def) (simp add: packet_bytes_def)
qed simp

lemma debug_chars_map: "debug_chars (map SendDebug ds) = map to_short ds"
  by (induction ds) auto

lemma short_packets: "map to_short (concat (map (\<lambda>p. map uint (packet_bytes p) @ [256]) ps)) =
    concat (map (\<lambda>p. map uint (packet_bytes p) @ [256]) ps)"
  by (induction ps) (auto simp: comp_def)

lemma transmitted_wire:
  assumes "\<forall>p \<in> set ps. packet_ok p" "rx_ok r" "received r = initial_demux" "rx_pending r = []"
    and "W = wire (serial_flush (fold (\<lambda>p s. snd (transmitPacket p s)) ps initial_serial))" "0 < length W" "length W \<le> 256"
  shows "\<exists>r'. serial_update (Some W) r = (0, r') \<and> rx_ok r' \<and>
    ring_contents (debugRxBuf r') = concat (map (\<lambda>p. map uint (packet_bytes p) @ [256]) ps)"
proof -
  let ?es = "map SendDebug (concat (map (\<lambda>p. map uint (packet_bytes p) @ [256]) ps))"
  have W: "W = wire (serial_flush (fold do_send ?es initial_serial))" using assms(5) by (simp add: transmits_send)
  have "W \<noteq> []" using assms(6) by auto
  then have u: "serial_update (Some W) r = (0, route W r)" using assms(4) by (cases W) (auto simp: serial_update_def)
  from route_received [OF assms(2), of W] have "rx_ok (route W r)" by blast
  moreover from link_received [OF assms(2-4) W assms(6,7)]
  have "ring_contents (debugRxBuf (route W r)) = completed [] 0 (debug_chars ?es)" by simp
  ultimately show ?thesis using u completed_packets [OF assms(1)] by (simp add: debug_chars_map short_packets)
qed

text \<open>
  C29. Packets survive the trip: packets that one end transmits and flushes come out of
  \<open>receivePacket\<close> at the other end in order, with their command code, payload and CRC, through
  the queues, the escape sequences and the framing of both serial layers.
\<close>

theorem packets_roundtrip:
  assumes "\<forall>p \<in> set ps. packet_ok p" "rx_ok r" "received r = initial_demux" "rx_pending r = []"
    and "W = wire (serial_flush (fold (\<lambda>p s. snd (transmitPacket p s)) ps initial_serial))" "0 < length W" "length W \<le> 256"
    and "length (pk_data q) = 30"
  shows "\<exists>r'. serial_update (Some W) r = (0, r') \<and>
    map (\<lambda>p. (commandCode p, payload p, pk_crc p)) (receive_n (length ps) q rx_clear r') =
    map (\<lambda>p. (commandCode p, payload p, crcPacket p)) ps"
proof -
  from transmitted_wire [OF assms(1-7)] obtain r' where r: "serial_update (Some W) r = (0, r')" "rx_ok r'"
    "ring_contents (debugRxBuf r') = concat (map (\<lambda>p. map uint (packet_bytes p) @ [256]) ps)" by blast
  from r(2) have "ring_ok (debugRxBuf r')" by (simp add: rx_ok_def)
  from receive_packets_in_order [OF assms(1) this r(3) buffered_clear assms(8)] r(1) show ?thesis by blast
qed

text \<open>
  A packet in which one byte was changed is ignored: the receiver skips it and returns the
  packet behind it, wherever the byte is (command code, payload or checksum).
\<close>

theorem corrupted_packet_is_skipped:
  assumes "packet_ok p" "packet_ok p2" "i < length (packet_bytes p)" "x \<noteq> packet_bytes p ! i"
    and "ring_ok (debugRxBuf s)" "length (pk_data q) = 30"
    and "ring_contents (debugRxBuf s) =
      map uint ((packet_bytes p)[i := x]) @ 256 # map uint (packet_bytes p2) @ 256 # map uint rest"
  shows "\<exists>q' b' r. receivePacket q rx_clear s = ((Some q', q'), b', s\<lparr>debugRxBuf := r\<rparr>) \<and>
    commandCode q' = commandCode p2 \<and> payload q' = payload p2 \<and> ring_contents r = map uint (rest :: u8 list)"
proof -
  have "\<not> good_frame ((packet_bytes p)[i := x])"
    by (rule changed_byte_is_detected [OF packet_bytes_good [OF assms(1)] assms(3,4)])
  then have nf: "next_frame [] (ring_contents (debugRxBuf s)) = (Some (packet_bytes p2), [], map uint rest)"
    unfolding assms(7) next_frame_bytes using packet_bytes_good [OF assms(2)] by simp
  have nn: "\<forall>d \<in> set (ring_contents (debugRxBuf s)). 0 \<le> d"
    unfolding assms(7) using nonneg_bytes by auto
  from receivePacket_next_frame [OF assms(5) nn buffered_clear assms(6) nf] show ?thesis
    using packet_of_bytes [OF assms(2)] by auto
qed

definition demo_page :: packet where
  "demo_page = \<lparr>commandCode = 0xA1, pk_data = [0x12, 0x34, 0xF0] @ replicate 27 0, pk_crc = 0, pk_len = 3\<rparr>"

definition demo_execute :: packet where
  "demo_execute = \<lparr>commandCode = 0xE2, pk_data = replicate 30 0, pk_crc = 0, pk_len = 0\<rparr>"

lemma demo_packets_ok: "packet_ok demo_page" "packet_ok demo_execute"
  by (simp_all add: packet_ok_def demo_page_def demo_execute_def)

lemma demo_bytes: "packet_bytes demo_page = [0xA1, 0x12, 0x34, 0xF0, 0xEE]" "packet_bytes demo_execute = [0xE2, 0xA0]"
  by code_simp+

lemma demo_packets_wire:
  "wire (serial_flush (fold (\<lambda>p s. snd (transmitPacket p s)) [demo_page, demo_execute] initial_serial)) =
    [0xFD, 0xA1, 0x12, 0x34, 0xF0, 0xEE, 0xFD, 0xE2, 0xA0, 0xFE]"
  by (simp only: transmits_send demo_bytes list.map concat.simps append.simps append_Nil2) code_simp

lemma rx_ok_initial: "rx_ok initial_serial" "received initial_serial = initial_demux" "rx_pending initial_serial = []"
  by (simp_all add: rx_ok_def initial_serial_def zero_ring_def ring_ok_def SERIAL_BUFFER_SIZE_def
      received_def initial_demux_def ring_contents_def)

theorem packets_roundtrip_witness:
  "\<exists>r'. serial_update (Some [0xFD, 0xA1, 0x12, 0x34, 0xF0, 0xEE, 0xFD, 0xE2, 0xA0, 0xFE]) initial_serial = (0, r') \<and>
    map (\<lambda>p. (commandCode p, payload p, pk_crc p)) (receive_n 2 demo_page rx_clear r') =
    [(0xA1, [0x12, 0x34, 0xF0], crcPacket demo_page), (0xE2, [], crcPacket demo_execute)]"
proof -
  have "\<forall>p \<in> set [demo_page, demo_execute]. packet_ok p" by (simp add: demo_packets_ok)
  from packets_roundtrip [OF this rx_ok_initial demo_packets_wire [symmetric], of demo_page] show ?thesis
    by (simp add: numeral_2_eq_2) (simp add: payload_def demo_page_def demo_execute_def)
qed

definition demo_ring :: ring where
  "demo_ring = \<lparr>ring_data = [0xA1, 0x13, 0x34, 0xF0, 0xEE, 256, 0xE2, 0xA0, 256] @ replicate 247 0,
     readPtr = 0, writePtr = 9, ring_count = 9\<rparr>"

theorem corrupted_packet_is_skipped_witness:
  "\<exists>q' b' r. receivePacket demo_page rx_clear (initial_serial\<lparr>debugRxBuf := demo_ring\<rparr>) =
      ((Some q', q'), b', initial_serial\<lparr>debugRxBuf := r\<rparr>) \<and> commandCode q' = 0xE2 \<and> payload q' = [] \<and> ring_contents r = []"
proof -
  let ?s = "initial_serial\<lparr>debugRxBuf := demo_ring\<rparr>"
  have "ring_ok (debugRxBuf ?s)" by (simp add: ring_ok_def demo_ring_def)
  moreover have "ring_contents (debugRxBuf ?s) =
      map uint ((packet_bytes demo_page)[1 := 0x13]) @ 256 # map uint (packet_bytes demo_execute) @ 256 # map uint []"
    unfolding demo_bytes by (simp add: demo_ring_def) code_simp
  moreover have "length (pk_data demo_page) = 30" by (simp add: demo_page_def)
  ultimately show ?thesis
    using corrupted_packet_is_skipped [OF demo_packets_ok, of 1 "0x13" ?s demo_page "[]"]
    by (simp add: demo_bytes) (simp add: demo_execute_def payload_def)
qed

end
