(* ===== verification/Op_Queue.thy ===== *)
theory Op_Queue
  imports Fifo "HOL-Library.AList"
begin

text \<open>
  The operation queues of the debug protocol (\<open>opQueuePush\<close>, \<open>opQueuePeek\<close>,
  \<open>opQueuePop\<close>, \<open>opQueueFree\<close> in \<open>rvsrv/uart/debugCommands.c\<close>): singly linked lists with a
  pointer to the last node. Each queue has its own store of nodes by address; \<open>malloc\<close> takes
  the next address and succeeds, \<open>free\<close> removes the node. Following a pointer to a node that
  is not there would be undefined behaviour and empties the model's queue; the invariant excludes
  it.
\<close>

record 'o op_queue =
  q_nodes :: "(nat \<times> 'o \<times> nat option) list"
  q_head :: "nat option"
  q_tail :: "nat option"
  q_next :: nat

definition empty_queue :: "'o op_queue" where
  "empty_queue = \<lparr>q_nodes = [], q_head = None, q_tail = None, q_next = 0\<rparr>"

definition opQueuePush :: "'o \<Rightarrow> 'o op_queue \<Rightarrow> 'o op_queue" where
  "opQueuePush op q =
     (let ptr = q_next q; nodes = (ptr, op, None) # q_nodes q; q = q\<lparr>q_next := ptr + 1\<rparr> in
      case q_tail q of
        None \<Rightarrow> q\<lparr>q_nodes := nodes, q_head := Some ptr, q_tail := Some ptr\<rparr>
      | Some t \<Rightarrow> (case map_of nodes t of
          None \<Rightarrow> q\<lparr>q_nodes := nodes, q_head := None, q_tail := None\<rparr>
        | Some (x, _) \<Rightarrow> q\<lparr>q_nodes := AList.update t (x, Some ptr) nodes, q_tail := Some ptr\<rparr>))"

definition opQueuePeek :: "'o op_queue \<Rightarrow> 'o option" where
  "opQueuePeek q = (case q_head q of None \<Rightarrow> None | Some h \<Rightarrow> map_option fst (map_of (q_nodes q) h))"

definition opQueuePop :: "'o op_queue \<Rightarrow> 'o op_queue" where
  "opQueuePop q =
     (case q_head q of
        None \<Rightarrow> q\<lparr>q_tail := None\<rparr>
      | Some h \<Rightarrow>
          (let nodes = AList.delete h (q_nodes q) in
           if q_head q = q_tail q then q\<lparr>q_nodes := nodes, q_head := None, q_tail := None\<rparr>
           else (case map_of (q_nodes q) h of
               None \<Rightarrow> q\<lparr>q_head := None, q_tail := None\<rparr>
             | Some (_, n) \<Rightarrow>
                 q\<lparr>q_nodes := nodes, q_head := n, q_tail := (if n = None then None else q_tail q)\<rparr>)))"

lemma delete_shorter: "map_of xs k = Some y \<Longrightarrow> length (AList.delete k xs) < length xs"
  by (induction xs) (auto simp: less_Suc_eq_le AList.length_delete_le split: if_splits)

function opQueueFree :: "'o op_queue \<Rightarrow> 'o op_queue" where
  "opQueueFree q = (if q_head q \<noteq> None then opQueueFree (opQueuePop q) else q)"
  by auto
termination
  by (relation "measure (\<lambda>q. length (q_nodes q) + of_bool (q_head q \<noteq> None))")
    (auto simp: opQueuePop_def Let_def AList.length_delete_le less_Suc_eq_le split: option.split dest: delete_shorter)

declare opQueueFree.simps [simp del]

section \<open>The list a queue holds\<close>

fun linked :: "(nat \<times> 'o \<times> nat option) list \<Rightarrow> nat option \<Rightarrow> (nat \<times> 'o) list \<Rightarrow> bool" where
  "linked nodes p [] \<longleftrightarrow> p = None"
| "linked nodes p ((a, x) # xs) \<longleftrightarrow>
     p = Some a \<and> (\<exists>n. map_of nodes a = Some (x, n) \<and> linked nodes n xs)"

definition queue_nodes :: "'o op_queue \<Rightarrow> (nat \<times> 'o) list \<Rightarrow> bool" where
  "queue_nodes q xs \<longleftrightarrow> linked (q_nodes q) (q_head q) xs \<and> distinct (map fst xs) \<and>
     q_tail q = (if xs = [] then None else Some (fst (last xs))) \<and> (\<forall>a \<in> fst ` set xs. a < q_next q)"

definition queue_ok :: "'o op_queue \<Rightarrow> bool" where
  "queue_ok q \<longleftrightarrow> (\<exists>xs. queue_nodes q xs)"

fun walk :: "nat \<Rightarrow> (nat \<times> 'o \<times> nat option) list \<Rightarrow> nat option \<Rightarrow> 'o list" where
  "walk 0 nodes p = []"
| "walk (Suc k) nodes p = (case p of None \<Rightarrow> [] | Some a \<Rightarrow>
     (case map_of nodes a of None \<Rightarrow> [] | Some (x, n) \<Rightarrow> x # walk k nodes n))"

definition queue_contents :: "'o op_queue \<Rightarrow> 'o list" where
  "queue_contents q = walk (length (q_nodes q)) (q_nodes q) (q_head q)"

lemma linked_walk: "linked nodes p xs \<Longrightarrow> length xs \<le> k \<Longrightarrow> walk k nodes p = map snd xs"
proof (induction xs arbitrary: p k)
  case Nil
  then show ?case by (cases k) auto
next
  case (Cons x xs)
  then show ?case by (cases x; cases k) auto
qed

lemma linked_keys: "linked nodes p xs \<Longrightarrow> fst ` set xs \<subseteq> fst ` set nodes"
proof (induction xs arbitrary: p)
  case (Cons ax xs)
  then obtain a x n where x: "ax = (a, x)" "map_of nodes a = Some (x, n)" "linked nodes n xs" by (cases ax) auto
  from x(2) have "a \<in> fst ` set nodes" by (simp add: domI flip: dom_map_of_conv_image_fst)
  with Cons.IH [OF x(3)] show ?case by (simp add: x(1))
qed simp

lemma queue_contents_nodes: "queue_nodes q xs \<Longrightarrow> queue_contents q = map snd xs"
proof -
  assume q: "queue_nodes q xs"
  then have "length xs = card (fst ` set xs)"
    by (metis distinct_card length_map list.set_map queue_nodes_def)
  also have "\<dots> \<le> card (fst ` set (q_nodes q))"
    using linked_keys q unfolding queue_nodes_def by (intro card_mono) blast+
  also have "\<dots> \<le> length (q_nodes q)"
    by (metis card_length length_map list.set_map)
  finally show ?thesis using q by (simp add: queue_contents_def queue_nodes_def linked_walk)
qed

lemma linked_other: "\<forall>a \<in> fst ` set xs. map_of ms a = map_of ns a \<Longrightarrow> linked ms p xs = linked ns p xs"
  by (induction ns p xs rule: linked.induct) auto

text \<open>A node appended behind the last one.\<close>

lemma linked_snoc:
  assumes "linked ns p xs" "distinct (map fst xs)" "xs \<noteq> []" "map_of ns (fst (last xs)) = Some (x, None)"
    and "b \<notin> fst ` set xs" "map_of ns b = Some (y, None)"
  shows "linked (AList.update (fst (last xs)) (x, Some b) ns) p (xs @ [(b, y)])"
  using assms
proof (induction xs arbitrary: p)
  case (Cons z xs)
  obtain a w where z: "z = (a, w)" by force
  show ?case
  proof (cases "xs = []")
    case True
    with Cons.prems show ?thesis by (auto simp: z AList.update_conv')
  next
    case False
    then have "fst (last xs) \<in> fst ` set xs" by simp
    with Cons.prems(2) have "a \<noteq> fst (last xs)" by (auto simp: z)
    with Cons False show ?thesis by (auto simp: z AList.update_conv')
  qed
qed simp

lemma linked_last: "linked ns p xs \<Longrightarrow> xs \<noteq> [] \<Longrightarrow> map_of ns (fst (last xs)) = Some (snd (last xs), None)"
  by (induction ns p xs rule: linked.induct) (auto split: if_splits)

lemma push_nodes:
  assumes "queue_nodes q xs"
  shows "queue_nodes (opQueuePush x q) (xs @ [(q_next q, x)])"
proof (cases "xs = []")
  case True
  with assms show ?thesis by (simp add: queue_nodes_def opQueuePush_def Let_def)
next
  case False
  let ?ns = "(q_next q, x, None) # q_nodes q" and ?t = "fst (last xs)"
  from assms False have q: "linked (q_nodes q) (q_head q) xs" "distinct (map fst xs)" "q_tail q = Some ?t"
    "\<forall>a \<in> fst ` set xs. a < q_next q" by (auto simp: queue_nodes_def)
  have new: "q_next q \<notin> fst ` set xs" using q(4) by blast
  have "linked ?ns (q_head q) xs"
    using q(1) new by (subst linked_other [of xs _ "q_nodes q"]) (auto simp: image_iff)
  from linked_snoc [OF this q(2) False linked_last [OF this False] new]
  have "linked (AList.update ?t (snd (last xs), Some (q_next q)) ?ns) (q_head q) (xs @ [(q_next q, x)])" by simp
  moreover have "opQueuePush x q = q\<lparr>q_next := q_next q + 1,
      q_nodes := AList.update ?t (snd (last xs), Some (q_next q)) ?ns, q_tail := Some (q_next q)\<rparr>"
    using linked_last [OF \<open>linked ?ns (q_head q) xs\<close> False] q(3) unfolding opQueuePush_def Let_def
    by (simp add: option.case_eq_if split: if_splits)
  ultimately show ?thesis using q(2,4) new by (auto simp: queue_nodes_def)
qed

lemma pop_nodes:
  assumes "queue_nodes q xs"
  shows "queue_nodes (opQueuePop q) (tl xs)"
proof (cases xs)
  case Nil
  with assms show ?thesis by (simp add: queue_nodes_def opQueuePop_def)
next
  case (Cons ax ys)
  obtain a x where ax: "ax = (a, x)" by force
  from assms obtain n where q: "q_head q = Some a" "map_of (q_nodes q) a = Some (x, n)" "linked (q_nodes q) n ys"
    "a \<notin> fst ` set ys" "distinct (map fst ys)" "q_tail q = Some (fst (last xs))" "\<forall>b \<in> fst ` set ys. b < q_next q"
    by (auto simp: queue_nodes_def Cons ax)
  have "linked (AList.delete a (q_nodes q)) n ys"
    using q(3,4) by (subst linked_other [of ys _ "q_nodes q"]) (auto simp: AList.delete_conv')
  moreover have "n = None \<longleftrightarrow> ys = []"
    using q(3) by (cases ys) auto
  moreover have "fst (last xs) = a \<longleftrightarrow> ys = []"
  proof (cases "ys = []")
    case False
    then have "fst (last ys) \<in> fst ` set ys" by simp
    with q(4) False show ?thesis by (auto simp: Cons)
  qed (simp add: Cons ax)
  ultimately show ?thesis
    using q by (auto simp: queue_nodes_def opQueuePop_def Cons ax Let_def)
qed

lemma empty_queue_ok: "queue_ok empty_queue" "queue_contents empty_queue = []"
proof -
  have "queue_nodes empty_queue []" by (simp add: queue_nodes_def empty_queue_def)
  then show "queue_ok empty_queue" "queue_contents empty_queue = []"
    by (auto simp: queue_ok_def queue_contents_def empty_queue_def)
qed

interpretation op_fifo: fifo queue_ok queue_contents "\<lambda>_. True" "\<lambda>x. x" opQueuePush opQueuePeek opQueuePop
proof
  fix q :: "'o op_queue" and x :: 'o
  assume "queue_ok q"
  then obtain xs where xs: "queue_nodes q xs" by (auto simp: queue_ok_def)
  show "queue_ok (opQueuePush x q)" "queue_contents (opQueuePush x q) = queue_contents q @ [x]"
    using push_nodes [OF xs, of x] queue_contents_nodes [OF push_nodes [OF xs, of x]] queue_contents_nodes [OF xs]
    by (auto simp: queue_ok_def)
  show "queue_ok (opQueuePop q)" "queue_contents (opQueuePop q) = tl (queue_contents q)"
    using pop_nodes [OF xs] queue_contents_nodes [OF pop_nodes [OF xs]] queue_contents_nodes [OF xs]
    by (auto simp: queue_ok_def map_tl)
  show "opQueuePeek q = (case queue_contents q of [] \<Rightarrow> None | x # _ \<Rightarrow> Some x)"
    using xs by (cases xs) (auto simp: queue_contents_nodes [OF xs] opQueuePeek_def queue_nodes_def)
qed

end
