(* ===== verification/Debug_Commands.thy ===== *)
theory Debug_Commands
  imports Debug_Packets Op_Queue
begin

text \<open>
  The command layer of the debug protocol (\<open>rvsrv/uart/debugCommands.c\<close>): at most
  four packets on their way at a time, a queue of operations (commands and barriers), a queue of
  commands to send again, and time-outs.

  A callback of the C code, a function pointer with a data pointer, is a value \<open>'cb\<close>; calling
  it is the parameter \<open>call\<close>, which acts on the state \<open>'c\<close> of the layer above and returns the
  result of the callback.
\<close>

section \<open>Operations\<close>

datatype operation_type = OT_COMMAND | OT_BARRIER

record 'cb operation =
  op_t :: operation_type
  op_p :: packet
  op_cb :: "'cb option"

record ('cb, 'c) commands =
  opQueue :: "'cb operation op_queue"
  reissueQueue :: "'cb operation op_queue"
  slots :: "nat \<Rightarrow> 'cb operation"
  slotsValid :: "nat \<Rightarrow> bool"
  txSeqCounter :: nat
  rxSeqCounter :: nat
  numIssuedPackets :: int
  timeoutTime :: u32
  timeoutCount :: int
  rx_packet :: packet
  rx_buf :: rx_buffer
  port :: serial
  upper :: 'c

definition MAX_NUM_ISSUED_PACKETS :: int where "MAX_NUM_ISSUED_PACKETS = 4"
definition TIMEOUT_USEC :: int where "TIMEOUT_USEC = 50000"
definition TIMEOUT_RETRIES :: int where "TIMEOUT_RETRIES = 3"

type_synonym ('cb, 'c) call = "'cb \<Rightarrow> bool \<Rightarrow> packet option \<Rightarrow> packet option \<Rightarrow> 'c \<Rightarrow> int \<times> 'c"

definition next_seq :: "nat \<Rightarrow> nat" where
  "next_seq n = (n + 1) mod 16"

definition requeue_one :: "('cb, 'c) commands \<Rightarrow> ('cb, 'c) commands" where
  "requeue_one s =
     (let i = rxSeqCounter s;
          s = (if slotsValid s i
               then s\<lparr>slotsValid := (slotsValid s)(i := False), reissueQueue := opQueuePush (slots s i) (reissueQueue s)\<rparr>
               else s)
      in s\<lparr>rxSeqCounter := next_seq i, numIssuedPackets := numIssuedPackets s - 1\<rparr>)"

text \<open>
  The loop \<open>while (rxSeqCounter != sequence)\<close>: both counters are below 16, so it runs
  \<open>(sequence - rxSeqCounter) mod 16\<close> times (lemma \<open>requeueUntil_loop\<close>).
\<close>

definition requeueUntil :: "nat \<Rightarrow> ('cb, 'c) commands \<Rightarrow> ('cb, 'c) commands" where
  "requeueUntil sq s = (requeue_one ^^ ((sq + 16 - rxSeqCounter s) mod 16)) s"

text \<open>A packet that arrived: the result is negative when the callback fails.\<close>

definition handle_packet :: "('cb, 'c) call \<Rightarrow> packet \<Rightarrow> ('cb, 'c) commands \<Rightarrow> int \<times> ('cb, 'c) commands" where
  "handle_packet call rx s =
     (let i = getPacketSequence rx; s = requeueUntil i s;
          (r, c) = (if slotsValid s i then
                      (case op_cb (slots s i) of None \<Rightarrow> (0, upper s)
                       | Some cb \<Rightarrow> call cb True (Some (op_p (slots s i))) (Some rx) (upper s))
                    else (0, upper s));
          s = s\<lparr>upper := c\<rparr>
      in if r < 0 then (-1, s)
         else (1, s\<lparr>slotsValid := (slotsValid s)(i := False), rxSeqCounter := next_seq (rxSeqCounter s),
                  numIssuedPackets := numIssuedPackets s - 1\<rparr>))"

definition pull_packet :: "('cb, 'c) commands \<Rightarrow> packet option \<times> ('cb, 'c) commands" where
  "pull_packet s =
     (let ((r, p), b, io) = receivePacket (rx_packet s) (rx_buf s) (port s)
      in (r, s\<lparr>rx_packet := p, rx_buf := b, port := io\<rparr>))"

lemma pull_packet_count:
  "fst (pull_packet s) \<noteq> None \<Longrightarrow> ring_count (debugRxBuf (port (snd (pull_packet s)))) < ring_count (debugRxBuf (port s))"
  using receivePacket_count [where p = "rx_packet s" and b = "rx_buf s" and s = "port s"]
  by (auto simp: pull_packet_def split: prod.splits)

lemma requeue_one_port [simp]: "port (requeue_one s) = port s"
  by (simp add: requeue_one_def Let_def)

lemma requeue_port [simp]: "port ((requeue_one ^^ n) s) = port s" "port (requeueUntil i s) = port s"
proof -
  show n: "port ((requeue_one ^^ n) s) = port s" for n by (induction n) simp_all
  show "port (requeueUntil i s) = port s" by (simp add: requeueUntil_def n)
qed

lemma handle_packet_port [simp]: "port (snd (handle_packet call p s)) = port s"
  by (simp add: handle_packet_def Let_def split: prod.split)

function receive_loop :: "('cb, 'c) call \<Rightarrow> int \<Rightarrow> ('cb, 'c) commands \<Rightarrow> int \<times> ('cb, 'c) commands" where
  "receive_loop call got s =
     (case pull_packet s of
        (None, s') \<Rightarrow> (got, s')
      | (Some p, s') \<Rightarrow>
          (let (r, s'') = handle_packet call p s'
           in if r < 0 then (-1, s'') else receive_loop call 1 s''))"
  by auto
termination
proof (relation "measure (\<lambda>(call, got, s). ring_count (debugRxBuf (port s)))", goal_cases)
  case (2 call got s r s' p hp x y)
  then have "pull_packet s = (Some p, s')" "handle_packet call p s' = (x, y)" by auto
  with pull_packet_count [of s] handle_packet_port [of call p s'] show ?case by simp
qed simp

declare receive_loop.simps [simp del]

definition receivePackets :: "('cb, 'c) call \<Rightarrow> ('cb, 'c) commands \<Rightarrow> int \<times> ('cb, 'c) commands" where
  "receivePackets call s = receive_loop call 0 s"

definition isIdle :: "('cb, 'c) commands \<Rightarrow> bool" where
  "isIdle s \<longleftrightarrow> numIssuedPackets s = 0 \<and> opQueuePeek (reissueQueue s) = None"

text \<open>
  The C code tests the result of \<open>transmitPacket\<close> for less than -1, which it never is, so a
  failing port is not noticed here either.
\<close>

definition issueCommandOperation ::
  "'cb operation \<Rightarrow> ('cb, 'c) commands \<Rightarrow> int \<times> ('cb, 'c) commands" where
  "issueCommandOperation op s =
     (if numIssuedPackets s \<ge> MAX_NUM_ISSUED_PACKETS then (0, s)
      else if slotsValid s (txSeqCounter s) then (0, s)
      else (let i = txSeqCounter s;
                (p, io) = transmitPacket (setPacketSequence i (op_p op)) (port s)
            in (1, s\<lparr>port := io, slots := (slots s)(i := op\<lparr>op_p := p\<rparr>), slotsValid := (slotsValid s)(i := True),
                    txSeqCounter := next_seq i, numIssuedPackets := numIssuedPackets s + 1\<rparr>)))"

text \<open>The first loop of \<open>transmitPackets\<close>; \<open>False\<close> when a command could not be issued.\<close>

function reissue_loop :: "('cb, 'c) commands \<Rightarrow> bool \<times> ('cb, 'c) commands" where
  "reissue_loop s =
     (case opQueuePeek (reissueQueue s) of
        None \<Rightarrow> (True, s)
      | Some op \<Rightarrow>
          (let (r, s') = issueCommandOperation op s
           in if r = 0 then (False, s') else reissue_loop (s'\<lparr>reissueQueue := opQueuePop (reissueQueue s')\<rparr>)))"
  by auto
termination
proof (relation "measure (\<lambda>s. nat (MAX_NUM_ISSUED_PACKETS - numIssuedPackets s))", goal_cases)
  case (2 s op x r s')
  then show ?case
    by (auto simp: issueCommandOperation_def Let_def MAX_NUM_ISSUED_PACKETS_def split: if_splits prod.splits)
qed simp

declare reissue_loop.simps [simp del]

text \<open>One turn of the second loop: 0 to stop, -1 for an error, 1 when the operation was executed.\<close>

definition execute_op :: "('cb, 'c) call \<Rightarrow> 'cb operation \<Rightarrow> ('cb, 'c) commands \<Rightarrow> int \<times> ('cb, 'c) commands" where
  "execute_op call op s =
     (case op_t op of
        OT_COMMAND \<Rightarrow>
          (let (r, s) = issueCommandOperation op s
           in if r = 0 then (0, s) else (1, s\<lparr>opQueue := opQueuePop (opQueue s)\<rparr>))
      | OT_BARRIER \<Rightarrow>
          if \<not> isIdle s then (0, s)
          else (case op_cb op of
              None \<Rightarrow> (1, s\<lparr>opQueue := opQueuePop (opQueue s)\<rparr>)
            | Some cb \<Rightarrow>
                (let (r, c) = call cb True None None (upper s);
                     s = s\<lparr>upper := c, opQueue := opQueuePop (opQueue s)\<rparr>
                 in if r < 0 then (-1, s) else (1, s))))"

lemma opQueuePop_shorter:
  assumes "opQueuePeek q = Some x"
  shows "length (q_nodes (opQueuePop q)) < length (q_nodes q)"
proof -
  from assms obtain h n where h: "q_head q = Some h" "map_of (q_nodes q) h = Some (x, n)"
    by (auto simp: opQueuePeek_def split: option.splits)
  with delete_shorter [OF h(2)] show ?thesis by (simp add: opQueuePop_def Let_def)
qed

lemma issue_frame [simp]:
  "opQueue (snd (issueCommandOperation op s)) = opQueue s" "reissueQueue (snd (issueCommandOperation op s)) = reissueQueue s"
  "upper (snd (issueCommandOperation op s)) = upper s" "rxSeqCounter (snd (issueCommandOperation op s)) = rxSeqCounter s"
  by (simp_all add: issueCommandOperation_def Let_def split: prod.split)

lemma execute_op_pops:
  "execute_op call op s = (r, s') \<Longrightarrow> r > 0 \<Longrightarrow> opQueue s' = opQueuePop (opQueue s)"
  by (auto simp: execute_op_def issue_frame(1) [unfolded prod.case_eq_if] case_prod_beta Let_def
    split: operation_type.splits if_splits option.splits)

function issue_loop :: "('cb, 'c) call \<Rightarrow> ('cb, 'c) commands \<Rightarrow> int \<times> ('cb, 'c) commands" where
  "issue_loop call s =
     (case opQueuePeek (opQueue s) of
        None \<Rightarrow> (0, s)
      | Some op \<Rightarrow>
          (let (r, s') = execute_op call op s
           in if r < 0 then (-1, s') else if r = 0 then (0, s') else issue_loop call s'))"
  by auto
termination
proof (relation "measure (\<lambda>(call, s). length (q_nodes (opQueue s)))", goal_cases)
  case (2 call s op x r s')
  then have "execute_op call op s = (r, s')" "r > 0" by (auto simp: not_less less_le)
  then have "opQueue s' = opQueuePop (opQueue s)" by (rule execute_op_pops)
  with 2(1) show ?case by (simp add: opQueuePop_shorter)
qed simp

declare issue_loop.simps [simp del]

definition transmitPackets :: "('cb, 'c) call \<Rightarrow> ('cb, 'c) commands \<Rightarrow> int \<times> ('cb, 'c) commands" where
  "transmitPackets call s =
     (case reissue_loop s of (False, s) \<Rightarrow> (0, s) | (True, s) \<Rightarrow> issue_loop call s)"

text \<open>
  \<open>resetQueue\<close>: a callback that fails ends the loop with its operation still in the queue.
\<close>

function fail_loop :: "('cb, 'c) call \<Rightarrow> ('cb, 'c) commands \<Rightarrow> int \<times> ('cb, 'c) commands" where
  "fail_loop call s =
     (case opQueuePeek (opQueue s) of
        None \<Rightarrow> (0, s)
      | Some op \<Rightarrow>
          (let (r, c) = (case op_cb op of None \<Rightarrow> (0, upper s)
                 | Some cb \<Rightarrow> call cb False (if op_t op = OT_COMMAND then Some (op_p op) else None) None (upper s));
               s = s\<lparr>upper := c\<rparr>
           in if r < 0 then (-1, s) else fail_loop call (s\<lparr>opQueue := opQueuePop (opQueue s)\<rparr>)))"
  by auto
termination
  by (relation "measure (\<lambda>(call, s). length (q_nodes (opQueue s)))") (auto simp: opQueuePop_shorter)

declare fail_loop.simps [simp del]

definition resetQueue :: "('cb, 'c) call \<Rightarrow> ('cb, 'c) commands \<Rightarrow> int \<times> ('cb, 'c) commands" where
  "resetQueue call s =
     fail_loop call (s\<lparr>slotsValid := (\<lambda>_. False), rxSeqCounter := txSeqCounter s, numIssuedPackets := 0,
       reissueQueue := opQueueFree (reissueQueue s)\<rparr>)"

definition isDone :: "('cb, 'c) commands \<Rightarrow> bool" where
  "isDone s \<longleftrightarrow> opQueuePeek (opQueue s) = None \<and> isIdle s"

text \<open>
  The time-outs of \<open>rvsrv/timeout.c\<close>: the clock in microseconds as a 32-bit \<open>int\<close>, and a
  difference that wraps around. \<open>now\<close> is the value of the clock during the call.
\<close>

definition startTimeout :: "int \<Rightarrow> int \<Rightarrow> u32" where
  "startTimeout sec usec = word_of_int (sec * 1000000 + usec)"

definition isTimedOut :: "u32 \<Rightarrow> u32 \<Rightarrow> int \<Rightarrow> bool" where
  "isTimedOut now start timeout \<longleftrightarrow> sint (now - start) > timeout"

definition handle_timeout :: "('cb, 'c) call \<Rightarrow> u32 \<Rightarrow> int \<Rightarrow> ('cb, 'c) commands \<Rightarrow> int \<times> ('cb, 'c) commands" where
  "handle_timeout call now got s =
     (if got \<noteq> 0 \<or> isIdle s then (0, s\<lparr>timeoutTime := now, timeoutCount := 0\<rparr>)
      else if isTimedOut now (timeoutTime s) TIMEOUT_USEC then
        (let s = s\<lparr>timeoutCount := timeoutCount s + 1\<rparr>
         in if timeoutCount s \<ge> TIMEOUT_RETRIES then resetQueue call s
            else (0, requeueUntil (txSeqCounter s) s))
      else (0, s))"

definition debugCommands_update :: "('cb, 'c) call \<Rightarrow> u32 \<Rightarrow> ('cb, 'c) commands \<Rightarrow> int \<times> ('cb, 'c) commands" where
  "debugCommands_update call now s =
     (case receivePackets call s of (got, s) \<Rightarrow>
        if got < 0 then (-1, s)
        else (case handle_timeout call now got s of (r, s) \<Rightarrow>
          if r < 0 then (-1, s)
          else (case transmitPackets call s of (r, s) \<Rightarrow>
            if r < 0 then (-1, s) else (if isDone s then 0 else 1, s))))"

definition debugCommands_queue :: "'cb operation \<Rightarrow> ('cb, 'c) commands \<Rightarrow> ('cb, 'c) commands" where
  "debugCommands_queue op s = s\<lparr>opQueue := opQueuePush op (opQueue s)\<rparr>"

definition debugCommands_free :: "('cb, 'c) call \<Rightarrow> ('cb, 'c) commands \<Rightarrow> ('cb, 'c) commands" where
  "debugCommands_free call s = snd (resetQueue call s)"

definition zero_packet :: packet where
  "zero_packet = \<lparr>commandCode = 0, pk_data = replicate 30 0, pk_crc = 0, pk_len = 0\<rparr>"

definition initial_commands :: "'c \<Rightarrow> ('cb, 'c) commands" where
  "initial_commands c = \<lparr>opQueue = empty_queue, reissueQueue = empty_queue,
     slots = (\<lambda>_. \<lparr>op_t = OT_COMMAND, op_p = zero_packet, op_cb = None\<rparr>), slotsValid = (\<lambda>_. False),
     txSeqCounter = 0, rxSeqCounter = 0, numIssuedPackets = 0, timeoutTime = 0, timeoutCount = 0,
     rx_packet = zero_packet, rx_buf = rx_clear, port = initial_serial, upper = c\<rparr>"

end
