(* ===== verification/Debug_Window.thy ===== *)
theory Debug_Window
  imports Debug_Commands
begin

text \<open>
  The command layer as a sliding window. The abstract link has lists where the code has an array
  of slots with two counters and linked queues: the commands on their way, those to be sent
  again, and the operations that wait. As long as replies belong to the window, every function of
  \<open>rvsrv/uart/debugCommands.c\<close> does on its state what the abstract function does on the lists.
\<close>

section \<open>The abstract link\<close>

record ('cb, 'c) link =
  flying :: "'cb operation list"
  again :: "'cb operation list"
  waiting :: "'cb operation list"
  next_tx :: nat
  timer :: "u32 \<times> int"
  line :: serial
  client :: 'c

text \<open>The sequence number the next reply is expected to have.\<close>

definition next_rx :: "('cb, 'c) link \<Rightarrow> nat" where
  "next_rx L = (next_tx L + 16 - length (flying L)) mod 16"

definition link_requeue :: "nat \<Rightarrow> ('cb, 'c) link \<Rightarrow> ('cb, 'c) link" where
  "link_requeue k L = L\<lparr>again := again L @ take k (flying L), flying := drop k (flying L)\<rparr>"

definition link_reply :: "('cb, 'c) call \<Rightarrow> packet \<Rightarrow> ('cb, 'c) link \<Rightarrow> int \<times> ('cb, 'c) link" where
  "link_reply call rx L =
     (let k = (getPacketSequence rx + 16 - next_rx L) mod 16; op = flying L ! k; L = link_requeue k L;
          (r, c) = (case op_cb op of None \<Rightarrow> (0, client L)
             | Some cb \<Rightarrow> call cb True (Some (op_p op)) (Some rx) (client L))
      in if r < 0 then (-1, L\<lparr>client := c\<rparr>) else (1, L\<lparr>client := c, flying := tl (flying L)\<rparr>))"

text \<open>A command as it is sent: with its sequence number and its checksum.\<close>

definition stamp :: "nat \<Rightarrow> packet \<Rightarrow> packet" where
  "stamp i p = (setPacketSequence i p)\<lparr>pk_crc := crcPacket (setPacketSequence i p)\<rparr>"

definition link_issue :: "'cb operation \<Rightarrow> ('cb, 'c) link \<Rightarrow> ('cb, 'c) link" where
  "link_issue op L =
     (let p = stamp (next_tx L) (op_p op) in
      L\<lparr>line := snd (transmitPacket p (line L)), flying := flying L @ [op\<lparr>op_p := p\<rparr>], next_tx := next_seq (next_tx L)\<rparr>)"

function link_reissue :: "('cb, 'c) link \<Rightarrow> bool \<times> ('cb, 'c) link" where
  "link_reissue L =
     (case again L of
        [] \<Rightarrow> (True, L)
      | op # ops \<Rightarrow> if length (flying L) \<ge> 4 then (False, L) else link_reissue (link_issue op (L\<lparr>again := ops\<rparr>)))"
  by auto
termination by (relation "measure (\<lambda>L. length (again L))") (auto simp: link_issue_def Let_def)

declare link_reissue.simps [simp del]

function link_run :: "('cb, 'c) call \<Rightarrow> ('cb, 'c) link \<Rightarrow> int \<times> ('cb, 'c) link" where
  "link_run call L =
     (case waiting L of
        [] \<Rightarrow> (0, L)
      | op # ops \<Rightarrow>
          (case op_t op of
             OT_COMMAND \<Rightarrow>
               if length (flying L) \<ge> 4 then (0, L) else link_run call (link_issue op (L\<lparr>waiting := ops\<rparr>))
           | OT_BARRIER \<Rightarrow>
               if flying L \<noteq> [] \<or> again L \<noteq> [] then (0, L)
               else (case op_cb op of
                   None \<Rightarrow> link_run call (L\<lparr>waiting := ops\<rparr>)
                 | Some cb \<Rightarrow>
                     (let (r, c) = call cb True None None (client L); L = L\<lparr>client := c, waiting := ops\<rparr>
                      in if r < 0 then (-1, L) else link_run call L))))"
  by auto
termination by (relation "measure (\<lambda>(call, L). length (waiting L))") (auto simp: link_issue_def Let_def)

declare link_run.simps [simp del]

definition link_transmit :: "('cb, 'c) call \<Rightarrow> ('cb, 'c) link \<Rightarrow> int \<times> ('cb, 'c) link" where
  "link_transmit call L = (case link_reissue L of (False, L) \<Rightarrow> (0, L) | (True, L) \<Rightarrow> link_run call L)"

text \<open>The replies of one call, the time-out, and giving up.\<close>

fun link_replies :: "('cb, 'c) call \<Rightarrow> int \<Rightarrow> packet list \<Rightarrow> ('cb, 'c) link \<Rightarrow> int \<times> ('cb, 'c) link" where
  "link_replies call got [] L = (got, L)"
| "link_replies call got (rx # rxs) L =
     (case link_reply call rx L of (r, L) \<Rightarrow> if r < 0 then (-1, L) else link_replies call 1 rxs L)"

function link_fail :: "('cb, 'c) call \<Rightarrow> ('cb, 'c) link \<Rightarrow> int \<times> ('cb, 'c) link" where
  "link_fail call L =
     (case waiting L of
        [] \<Rightarrow> (0, L)
      | op # ops \<Rightarrow>
          (let (r, c) = (case op_cb op of None \<Rightarrow> (0, client L)
                 | Some cb \<Rightarrow> call cb False (if op_t op = OT_COMMAND then Some (op_p op) else None) None (client L))
           in if r < 0 then (-1, L\<lparr>client := c\<rparr>) else link_fail call (L\<lparr>client := c, waiting := ops\<rparr>)))"
  by auto
termination by (relation "measure (\<lambda>(call, L). length (waiting L))") auto

declare link_fail.simps [simp del]

definition link_idle :: "('cb, 'c) link \<Rightarrow> bool" where
  "link_idle L \<longleftrightarrow> flying L = [] \<and> again L = []"

definition link_timeout :: "('cb, 'c) call \<Rightarrow> u32 \<Rightarrow> int \<Rightarrow> ('cb, 'c) link \<Rightarrow> int \<times> ('cb, 'c) link" where
  "link_timeout call now got L =
     (case timer L of (start, retries) \<Rightarrow>
        if got \<noteq> 0 \<or> link_idle L then (0, L\<lparr>timer := (now, 0)\<rparr>)
        else if \<not> isTimedOut now start 50000 then (0, L)
        else (let L = L\<lparr>timer := (start, retries + 1)\<rparr> in
          if retries + 1 \<ge> 3 then link_fail call (L\<lparr>flying := [], again := []\<rparr>)
          else (0, link_requeue (length (flying L)) L)))"

text \<open>One update: \<open>rxs\<close> are the packets that arrived and \<open>io\<close> the port behind them.\<close>

definition link_update ::
  "('cb, 'c) call \<Rightarrow> u32 \<Rightarrow> packet list \<Rightarrow> serial \<Rightarrow> ('cb, 'c) link \<Rightarrow> int \<times> ('cb, 'c) link" where
  "link_update call now rxs io L =
     (case link_replies call 0 rxs L of (got, L) \<Rightarrow>
        let L = L\<lparr>line := io\<rparr> in
        if got < 0 then (-1, L)
        else (case link_timeout call now got L of (r, L) \<Rightarrow>
          if r < 0 then (-1, L)
          else (case link_transmit call L of (r, L) \<Rightarrow>
            if r < 0 then (-1, L) else (if waiting L = [] \<and> link_idle L then 0 else 1, L))))"

section \<open>The window of slots\<close>

abbreviation outstanding :: "('cb, 'c) commands \<Rightarrow> nat" where
  "outstanding s \<equiv> nat (numIssuedPackets s)"

definition window :: "('cb, 'c) commands \<Rightarrow> 'cb operation list" where
  "window s = map (\<lambda>k. slots s ((rxSeqCounter s + k) mod 16)) [0..<outstanding s]"

text \<open>Distance of a sequence number from the one expected next.\<close>

definition ahead :: "nat \<Rightarrow> nat \<Rightarrow> nat" where
  "ahead i rx = (i + 16 - rx) mod 16"

definition command_ok :: "'cb operation \<Rightarrow> bool" where
  "command_ok op \<longleftrightarrow> op_t op = OT_COMMAND \<and> packet_ok (op_p op)"

definition operation_ok :: "'cb operation \<Rightarrow> bool" where
  "operation_ok op \<longleftrightarrow> (op_t op = OT_COMMAND \<longrightarrow> packet_ok (op_p op))"

definition window_ok :: "('cb, 'c) commands \<Rightarrow> bool" where
  "window_ok s \<longleftrightarrow> rxSeqCounter s < 16 \<and> txSeqCounter s = (rxSeqCounter s + outstanding s) mod 16 \<and>
     0 \<le> numIssuedPackets s \<and> numIssuedPackets s \<le> 4 \<and>
     (\<forall>i<16. slotsValid s i \<longleftrightarrow> ahead i (rxSeqCounter s) < outstanding s) \<and>
     queue_ok (opQueue s) \<and> queue_ok (reissueQueue s) \<and>
     list_all command_ok (window s) \<and> list_all command_ok (queue_contents (reissueQueue s)) \<and>
     list_all operation_ok (queue_contents (opQueue s))"

definition link_of :: "('cb, 'c) commands \<Rightarrow> ('cb, 'c) link" where
  "link_of s = \<lparr>flying = window s, again = queue_contents (reissueQueue s), waiting = queue_contents (opQueue s),
     next_tx = txSeqCounter s, timer = (timeoutTime s, timeoutCount s), line = port s, client = upper s\<rparr>"

lemma link_of_sel [simp]:
  "flying (link_of s) = window s" "again (link_of s) = queue_contents (reissueQueue s)"
  "waiting (link_of s) = queue_contents (opQueue s)" "next_tx (link_of s) = txSeqCounter s"
  "timer (link_of s) = (timeoutTime s, timeoutCount s)"
  "line (link_of s) = port s" "client (link_of s) = upper s"
  by (simp_all add: link_of_def)

lemma ahead_if: "i < 16 \<Longrightarrow> rx < 16 \<Longrightarrow> ahead i rx = (if rx \<le> i then i - rx else i + 16 - rx)"
  by (auto simp: ahead_def mod_if)

lemma next_seq_if: "i < 16 \<Longrightarrow> next_seq i = (if i = 15 then 0 else i + 1)"
  by (auto simp: next_seq_def mod_if)
lemma mod16_if: "i < 16 \<Longrightarrow> n \<le> 16 \<Longrightarrow> (i + n) mod 16 = (if i + n < 16 then i + n else i + n - 16)" for i n :: nat
  by (auto simp: mod_if)

lemma mod16_back: "i < 16 \<Longrightarrow> n \<le> 16 \<Longrightarrow> ((i + n) mod 16 + 16 - n) mod 16 = i" for i n :: nat
  by (cases "i + n < 16") (simp_all add: mod16_if)

lemma length_window [simp]: "length (window s) = outstanding s"
  by (simp add: window_def)

lemma window_okD:
  assumes "window_ok s"
  shows "rxSeqCounter s < 16" "outstanding s \<le> 4" "txSeqCounter s = (rxSeqCounter s + outstanding s) mod 16"
    "txSeqCounter s < 16" "numIssuedPackets s = int (outstanding s)" "queue_ok (opQueue s)" "queue_ok (reissueQueue s)"
    "list_all command_ok (window s)" "list_all command_ok (queue_contents (reissueQueue s))"
    "list_all operation_ok (queue_contents (opQueue s))"
    "i < 16 \<Longrightarrow> slotsValid s i \<longleftrightarrow> ahead i (rxSeqCounter s) < outstanding s"
  using assms by (auto simp: window_ok_def)

lemma window_okI:
  assumes "rxSeqCounter s < 16" "numIssuedPackets s = int n" "n \<le> 4" "txSeqCounter s = (rxSeqCounter s + n) mod 16"
    and "\<And>i. i < 16 \<Longrightarrow> slotsValid s i \<longleftrightarrow> ahead i (rxSeqCounter s) < n"
    and "queue_ok (opQueue s)" "queue_ok (reissueQueue s)"
    and "list_all command_ok (window s)" "list_all command_ok (queue_contents (reissueQueue s))"
    and "list_all operation_ok (queue_contents (opQueue s))"
  shows "window_ok s"
  using assms by (simp add: window_ok_def)

lemma next_rx_link_of [simp]:
  assumes "window_ok s"
  shows "next_rx (link_of s) = rxSeqCounter s"
  using window_okD [OF assms] mod16_back [of "rxSeqCounter s" "outstanding s"] by (simp add: next_rx_def link_of_def)

subsection \<open>Requeueing\<close>

lemma window_Cons:
  assumes "window_ok s" "0 < outstanding s"
  shows "window s = slots s (rxSeqCounter s) #
    map (\<lambda>k. slots s ((next_seq (rxSeqCounter s) + k) mod 16)) [0..<outstanding s - 1]"
proof -
  obtain n where n: "outstanding s = Suc n" using assms(2) by (cases "outstanding s") auto
  have "rxSeqCounter s < 16" using assms(1) by (simp add: window_ok_def)
  then show ?thesis
    unfolding window_def n by (simp add: upt_conv_Cons map_Suc_upt [symmetric] next_seq_def mod_add_left_eq mod_Suc_eq del: upt_Suc)
qed

lemma window_tl_valid:
  assumes "window_ok s" "0 < outstanding s" "i < 16"
  shows "(slotsValid s i \<and> i \<noteq> rxSeqCounter s) \<longleftrightarrow> ahead i (next_seq (rxSeqCounter s)) < outstanding s - 1"
proof -
  have rx: "rxSeqCounter s < 16" "outstanding s \<le> 4" and v: "slotsValid s i \<longleftrightarrow> ahead i (rxSeqCounter s) < outstanding s"
    using assms by (auto simp: window_ok_def)
  then have "next_seq (rxSeqCounter s) < 16" by (simp add: next_seq_def)
  with rx assms(2,3) show ?thesis unfolding v by (auto simp: ahead_if next_seq_if split: if_splits)
qed

lemma requeue_one_window:
  assumes "window_ok s" "0 < outstanding s"
  shows "window_ok (requeue_one s) \<and> link_of (requeue_one s) = link_requeue 1 (link_of s) \<and>
    outstanding (requeue_one s) = outstanding s - 1"
proof -
  let ?i = "rxSeqCounter s" and ?s = "requeue_one s"
  note w = window_okD [OF assms(1)]
  have v: "slotsValid s ?i" using w(11) [OF w(1)] assms(2) by (simp add: ahead_def)
  have s: "?s = s\<lparr>slotsValid := (slotsValid s)(?i := False), reissueQueue := opQueuePush (slots s ?i) (reissueQueue s),
      rxSeqCounter := next_seq ?i, numIssuedPackets := numIssuedPackets s - 1\<rparr>"
    using v by (simp add: requeue_one_def Let_def)
  have out: "outstanding ?s = outstanding s - 1" "numIssuedPackets ?s = int (outstanding s) - 1"
    using w(5) by (simp_all add: s)
  have win: "window s = slots s ?i # window ?s"
    using window_Cons [OF assms] unfolding window_def [of ?s] out(1) by (simp add: s)
  have valid: "slotsValid ?s i \<longleftrightarrow> ahead i (rxSeqCounter ?s) < outstanding ?s" if "i < 16" for i
    using window_tl_valid [OF assms that] unfolding out(1) by (auto simp: s)
  obtain n where n: "outstanding s = Suc n" using assms(2) by (cases "outstanding s") auto
  have tx: "txSeqCounter ?s = (rxSeqCounter ?s + outstanding ?s) mod 16"
    using w(3) unfolding out(1) n by (simp add: s next_seq_def mod_add_left_eq)
  have "window_ok ?s"
  proof (rule window_okI [of _ n])
    show "list_all command_ok (window ?s)" using w(8) win by simp
    show "list_all command_ok (queue_contents (reissueQueue ?s))"
      using w(8,9) win op_fifo.push_contents [OF w(7)] by (simp add: s)
  qed (use w n tx valid out op_fifo.push_ok [OF w(7)] in \<open>simp_all add: s next_seq_def\<close>)
  moreover have "link_of ?s = link_requeue 1 (link_of s)"
    using op_fifo.push_contents [OF w(7)] by (simp add: link_of_def link_requeue_def win) (simp add: s)
  ultimately show ?thesis using out by simp
qed

lemma requeue_zero [simp]: "link_requeue 0 L = L"
  by (simp add: link_requeue_def)

lemma requeue_Suc: "link_requeue (Suc k) L = link_requeue k (link_requeue 1 L)"
  by (cases "flying L") (simp_all add: link_requeue_def)

lemma requeue_window:
  assumes "window_ok s" "k \<le> outstanding s"
  shows "window_ok ((requeue_one ^^ k) s) \<and> link_of ((requeue_one ^^ k) s) = link_requeue k (link_of s) \<and>
    outstanding ((requeue_one ^^ k) s) = outstanding s - k"
  using assms
proof (induction k arbitrary: s)
  case (Suc k)
  then have "0 < outstanding s" by simp
  from requeue_one_window [OF Suc.prems(1) this] Suc.prems(2) Suc.IH [of "requeue_one s"] show ?case
    by (simp add: funpow_swap1 requeue_Suc [of k] del: funpow.simps(2) add: funpow_Suc_right)
qed simp

text \<open>The loop of \<open>requeueUntil\<close> as it is written.\<close>

lemma requeue_one_rx: "rxSeqCounter (requeue_one s) = next_seq (rxSeqCounter s)"
  by (simp add: requeue_one_def Let_def)

lemma requeueUntil_loop:
  assumes "rxSeqCounter s < 16" "i < 16"
  shows "requeueUntil i s = (if rxSeqCounter s \<noteq> i then requeueUntil i (requeue_one s) else s)"
proof (cases "rxSeqCounter s = i")
  case False
  then have "ahead i (rxSeqCounter s) = Suc (ahead i (next_seq (rxSeqCounter s)))"
    using assms by (auto simp: ahead_if next_seq_if)
  with False show ?thesis
    by (simp add: requeueUntil_def requeue_one_rx ahead_def funpow_swap1)
qed (simp add: requeueUntil_def)

lemma ahead_back: "i < 16 \<Longrightarrow> rx < 16 \<Longrightarrow> (rx + ahead i rx) mod 16 = i"
  by (auto simp: ahead_if)

lemma requeue_n_rx: "rxSeqCounter s < 16 \<Longrightarrow> rxSeqCounter ((requeue_one ^^ k) s) = (rxSeqCounter s + k) mod 16"
  by (induction k) (auto simp: requeue_one_rx next_seq_def mod_Suc_eq)

lemma requeueUntil_window:
  assumes "window_ok s" "i < 16" "ahead i (rxSeqCounter s) \<le> outstanding s"
  shows "window_ok (requeueUntil i s)" "link_of (requeueUntil i s) = link_requeue (ahead i (rxSeqCounter s)) (link_of s)"
    "outstanding (requeueUntil i s) = outstanding s - ahead i (rxSeqCounter s)" "rxSeqCounter (requeueUntil i s) = i"
proof -
  note q = requeue_window [OF assms(1,3)]
  then show "window_ok (requeueUntil i s)" "link_of (requeueUntil i s) = link_requeue (ahead i (rxSeqCounter s)) (link_of s)"
    "outstanding (requeueUntil i s) = outstanding s - ahead i (rxSeqCounter s)"
    by (simp_all add: requeueUntil_def ahead_def)
  from window_okD(1) [OF assms(1)] assms(2) show "rxSeqCounter (requeueUntil i s) = i"
    by (simp add: requeueUntil_def requeue_n_rx ahead_back flip: ahead_def)
qed

subsection \<open>Replies\<close>

lemma sequence_bound: "getPacketSequence p < 16"
  using word_and_le1 [of "commandCode p" "0x0F"] by (simp add: getPacketSequence_def word_le_nat_alt)

lemma window_nth: "k < outstanding s \<Longrightarrow> window s ! k = slots s ((rxSeqCounter s + k) mod 16)"
  by (simp add: window_def)

lemma link_of_upper: "link_of (s\<lparr>upper := c\<rparr>) = (link_of s)\<lparr>client := c\<rparr>" "window_ok (s\<lparr>upper := c\<rparr>) = window_ok s"
  by (simp_all add: link_of_def window_ok_def window_def)

lemma drop_reply_window:
  assumes "window_ok s" "0 < outstanding s"
  defines "s' \<equiv> s\<lparr>slotsValid := (slotsValid s)(rxSeqCounter s := False), rxSeqCounter := next_seq (rxSeqCounter s),
    numIssuedPackets := numIssuedPackets s - 1\<rparr>"
  shows "window_ok s' \<and> link_of s' = (link_of s)\<lparr>flying := tl (flying (link_of s))\<rparr> \<and> outstanding s' = outstanding s - 1"
proof -
  note w = window_okD [OF assms(1)]
  obtain n where n: "outstanding s = Suc n" using assms(2) by (cases "outstanding s") auto
  have out: "outstanding s' = n" "numIssuedPackets s' = int n" using w(5) n by (simp_all add: s'_def)
  have win: "window s = slots s (rxSeqCounter s) # window s'"
    using window_Cons [OF assms(1,2)] n unfolding window_def [of s'] out(1) by (simp add: s'_def)
  have "window_ok s'"
  proof (rule window_okI [of _ n])
    show "list_all command_ok (window s')" using w(8) win by simp
    show "slotsValid s' i \<longleftrightarrow> ahead i (rxSeqCounter s') < n" if "i < 16" for i
      using window_tl_valid [OF assms(1,2) that] n by (auto simp: s'_def)
    show "txSeqCounter s' = (rxSeqCounter s' + n) mod 16"
      using w(3) n by (simp add: s'_def next_seq_def mod_add_left_eq)
  qed (use w n out in \<open>simp_all add: s'_def next_seq_def\<close>)
  moreover have "link_of s' = (link_of s)\<lparr>flying := tl (flying (link_of s))\<rparr>"
    by (simp add: link_of_def win) (simp add: s'_def)
  ultimately show ?thesis using out n by simp
qed

lemma handle_packet_window:
  assumes "window_ok s" "ahead (getPacketSequence rx) (rxSeqCounter s) < outstanding s"
    and "handle_packet call rx s = (r, s')"
  shows "window_ok s' \<and> link_reply call rx (link_of s) = (r, link_of s')"
proof -
  let ?i = "getPacketSequence rx" and ?k = "ahead (getPacketSequence rx) (rxSeqCounter s)"
  let ?t = "requeueUntil ?i s"
  note q = requeueUntil_window [OF assms(1) sequence_bound less_imp_le [OF assms(2)]]
  have pos: "0 < outstanding ?t" using q(3) assms(2) by simp
  have "window ?t = drop ?k (window s)"
    using arg_cong [OF q(2), of flying] by (simp add: link_of_def link_requeue_def)
  then have op: "window s ! ?k = slots ?t ?i"
    using window_nth [OF pos] q(4) assms(2) sequence_bound [of rx] by simp
  have valid: "slotsValid ?t ?i"
    using window_okD(11) [OF q(1) sequence_bound] q(4) pos by (simp add: ahead_def)
  obtain r0 c where rc: "(case op_cb (slots ?t ?i) of None \<Rightarrow> (0, upper ?t)
      | Some cb \<Rightarrow> call cb True (Some (op_p (slots ?t ?i))) (Some rx) (upper ?t)) = (r0, c)" by force
  let ?u = "?t\<lparr>upper := c\<rparr>"
  have u: "window_ok ?u" "0 < outstanding ?u" "rxSeqCounter ?u = ?i" using q pos by (simp_all add: link_of_upper)
  have fl: "flying (link_of s) = window s" by (simp add: link_of_def)
  have up: "client (link_requeue ?k (link_of s)) = upper ?t" "client (link_of s) = upper ?t"
    unfolding q(2) [symmetric] using arg_cong [OF q(2), of client] by (simp_all add: link_of_def link_requeue_def)
  have h: "handle_packet call rx s = (if r0 < 0 then (-1, ?u)
      else (1, ?u\<lparr>slotsValid := (slotsValid ?u)(rxSeqCounter ?u := False), rxSeqCounter := next_seq (rxSeqCounter ?u),
                   numIssuedPackets := numIssuedPackets ?u - 1\<rparr>))"
    using valid rc q(4) by (simp add: handle_packet_def Let_def)
  have l: "link_reply call rx (link_of s) = (if r0 < 0 then (-1, (link_of ?t)\<lparr>client := c\<rparr>)
      else (1, (link_of ?t)\<lparr>client := c, flying := tl (flying (link_of ?t))\<rparr>))"
    unfolding link_reply_def Let_def next_rx_link_of [OF assms(1)] ahead_def [symmetric] fl op up rc prod.case q(2)
    by simp
  show ?thesis
    using assms(3) l drop_reply_window [OF u(1,2)] u(1) unfolding h
    by (auto simp: link_of_upper split: if_splits)
qed

subsection \<open>Sending\<close>

lemma stamp_ok [simp]: "packet_ok (stamp i p) = packet_ok p"
  by (simp add: packet_ok_def stamp_def setPacketSequence_def)

lemma transmit_stamp: "transmitPacket (setPacketSequence i p) io = (stamp i p, snd (transmitPacket (stamp i p) io))"
  by (simp add: transmitPacket_def stamp_def Let_def crcPacket_def)

lemma ahead_add: "rx < 16 \<Longrightarrow> n < 16 \<Longrightarrow> ahead ((rx + n) mod 16) rx = n"
  by (cases "rx + n < 16") (auto simp: ahead_def mod16_if)

lemma issue_window:
  assumes "window_ok s" "command_ok op" "outstanding s < 4"
  obtains s' where "issueCommandOperation op s = (1, s')" "window_ok s'" "link_of s' = link_issue op (link_of s)"
    "outstanding s' = Suc (outstanding s)"
proof -
  note w = window_okD [OF assms(1)]
  let ?i = "txSeqCounter s" and ?p = "stamp (txSeqCounter s) (op_p op)"
  define s' where "s' = s\<lparr>port := snd (transmitPacket ?p (port s)), slots := (slots s)(?i := op\<lparr>op_p := ?p\<rparr>),
    slotsValid := (slotsValid s)(?i := True), txSeqCounter := next_seq ?i, numIssuedPackets := numIssuedPackets s + 1\<rparr>"
  have a: "ahead ?i (rxSeqCounter s) = outstanding s" using w(1,3) assms(3) by (simp add: ahead_add)
  then have "\<not> slotsValid s ?i" using w(11) [OF w(4)] by simp
  then have i: "issueCommandOperation op s = (1, s')"
    using assms(3) by (simp add: issueCommandOperation_def transmit_stamp Let_def s'_def MAX_NUM_ISSUED_PACKETS_def)
  have out: "outstanding s' = Suc (outstanding s)" "numIssuedPackets s' = int (Suc (outstanding s))"
    using assms(1) by (simp_all add: s'_def window_ok_def nat_add_distrib)
  have "(rxSeqCounter s + k) mod 16 \<noteq> ?i" if "k < outstanding s" for k
    using ahead_add [OF w(1), of k] a that assms(3) by auto
  then have win: "window s' = window s @ [op\<lparr>op_p := ?p\<rparr>]"
    using w(3) unfolding window_def out(1) by (auto simp: s'_def)
  have "window_ok s'"
  proof (rule window_okI [of _ "Suc (outstanding s)"])
    show "slotsValid s' i \<longleftrightarrow> ahead i (rxSeqCounter s') < Suc (outstanding s)" if "i < 16" for i
    proof -
      have "ahead i (rxSeqCounter s) = outstanding s \<longleftrightarrow> i = ?i"
        using a ahead_back [OF that w(1)] w(3) by auto
      with w(11) [OF that] show ?thesis by (auto simp: s'_def less_Suc_eq)
    qed
    show "list_all command_ok (window s')" using w(8) assms(2) by (simp add: win command_ok_def)
  qed (use w out assms(3) in \<open>simp_all add: s'_def next_seq_def mod_Suc_eq\<close>)
  moreover have "link_of s' = link_issue op (link_of s)"
    by (simp add: link_of_def link_issue_def win Let_def) (simp add: s'_def)
  ultimately show ?thesis using i out that by blast
qed

lemma issue_full: "\<not> outstanding s < 4 \<Longrightarrow> issueCommandOperation op s = (0, s)"
proof -
  assume "\<not> outstanding s < 4"
  then have "numIssuedPackets s \<ge> 4" by linarith
  then show ?thesis by (simp add: issueCommandOperation_def MAX_NUM_ISSUED_PACKETS_def)
qed

text \<open>Popping a queue leaves the window as it is.\<close>

lemma pop_again_window:
  assumes "window_ok s" "queue_contents (reissueQueue s) = op # ops"
  shows "window_ok (s\<lparr>reissueQueue := opQueuePop (reissueQueue s)\<rparr>)"
    "link_of (s\<lparr>reissueQueue := opQueuePop (reissueQueue s)\<rparr>) = (link_of s)\<lparr>again := ops\<rparr>"
    "opQueuePeek (reissueQueue s) = Some op" "command_ok op"
  using window_okD(7) [OF assms(1), THEN op_fifo.pop_Cons, OF assms(2)] window_okD(9) [OF assms(1)] assms
  by (auto simp: window_ok_def link_of_def window_def)

lemma pop_waiting_window:
  assumes "window_ok s" "queue_contents (opQueue s) = op # ops"
  shows "window_ok (s\<lparr>opQueue := opQueuePop (opQueue s)\<rparr>)"
    "link_of (s\<lparr>opQueue := opQueuePop (opQueue s)\<rparr>) = (link_of s)\<lparr>waiting := ops\<rparr>"
    "opQueuePeek (opQueue s) = Some op" "operation_ok op"
  using window_okD(6) [OF assms(1), THEN op_fifo.pop_Cons, OF assms(2)] window_okD(10) [OF assms(1)] assms
  by (auto simp: window_ok_def link_of_def window_def)

lemma link_issue_frame [simp]:
  "again (link_issue op L) = again L" "waiting (link_issue op L) = waiting L" "client (link_issue op L) = client L"
  "link_issue op (L\<lparr>again := ops\<rparr>) = (link_issue op L)\<lparr>again := ops\<rparr>"
  "link_issue op (L\<lparr>waiting := ops\<rparr>) = (link_issue op L)\<lparr>waiting := ops\<rparr>"
  by (simp_all add: link_issue_def Let_def)

lemma reissue_loop_window:
  assumes "window_ok s" "reissue_loop s = (b, s')"
  shows "window_ok s' \<and> link_reissue (link_of s) = (b, link_of s')"
  using assms
proof (induction "queue_contents (reissueQueue s)" arbitrary: s)
  case Nil
  then have "opQueuePeek (reissueQueue s) = None"
    using op_fifo.front_None [OF window_okD(7) [OF Nil.prems(1)]] by simp
  then have "reissue_loop s = (True, s)" by (simp add: reissue_loop.simps [of s])
  moreover have "link_reissue (link_of s) = (True, link_of s)"
    using Nil.hyps [symmetric] by (simp add: link_reissue.simps [of "link_of s"])
  ultimately show ?case using Nil.prems by simp
next
  case (Cons op ops)
  note p = pop_again_window [OF Cons.prems(1) Cons.hyps(2) [symmetric]]
  have l: "again (link_of s) = op # ops" "length (flying (link_of s)) = outstanding s"
    using Cons.hyps(2) by simp_all
  show ?case
  proof (cases "outstanding s < 4")
    case True
    from issue_window [OF Cons.prems(1) p(4) True] obtain t where
      t: "issueCommandOperation op s = (1, t)" "window_ok t" "link_of t = link_issue op (link_of s)" by blast
    have q: "queue_contents (reissueQueue t) = op # ops"
      using issue_frame(2) [of op s] t(1) Cons.hyps(2) by simp
    note u = pop_again_window [OF t(2) q]
    have "ops = queue_contents (reissueQueue (t\<lparr>reissueQueue := opQueuePop (reissueQueue t)\<rparr>))"
      using arg_cong [OF u(2), of again] by simp
    from Cons.hyps(1) [OF this u(1)] Cons.prems(2) t(1) p(3) True l show ?thesis
      by (simp add: reissue_loop.simps [of s] link_reissue.simps [of "link_of s"] u(2) t(3))
  next
    case False
    with issue_full [of s op] p(3) have "reissue_loop s = (False, s)" by (simp add: reissue_loop.simps [of s])
    moreover have "link_reissue (link_of s) = (False, link_of s)"
      using l False by (simp add: link_reissue.simps [of "link_of s"])
    ultimately show ?thesis using Cons.prems by simp
  qed
qed

lemma isIdle_window: "window_ok s \<Longrightarrow> isIdle s \<longleftrightarrow> window s = [] \<and> queue_contents (reissueQueue s) = []"
  using op_fifo.front_None [of "reissueQueue s"] by (auto simp: isIdle_def window_ok_def simp flip: length_0_conv)

lemma execute_command:
  "op_t op = OT_COMMAND \<Longrightarrow> execute_op call op s = (case issueCommandOperation op s of
     (r, s) \<Rightarrow> if r = 0 then (0, s) else (1, s\<lparr>opQueue := opQueuePop (opQueue s)\<rparr>))"
  by (simp add: execute_op_def)

lemma issue_loop_window:
  assumes "window_ok s" "issue_loop call s = (r, s')"
  shows "window_ok s' \<and> link_run call (link_of s) = (r, link_of s')"
  using assms
proof (induction "queue_contents (opQueue s)" arbitrary: s)
  case Nil
  then have "opQueuePeek (opQueue s) = None"
    using op_fifo.front_None [OF window_okD(6) [OF Nil.prems(1)]] by simp
  then have "issue_loop call s = (0, s)" by (simp add: issue_loop.simps [of call s])
  moreover have "link_run call (link_of s) = (0, link_of s)"
    using Nil.hyps [symmetric] by (simp add: link_run.simps [of call "link_of s"])
  ultimately show ?case using Nil.prems by simp
next
  case (Cons op ops)
  note p = pop_waiting_window [OF Cons.prems(1) Cons.hyps(2) [symmetric]]
  have l: "waiting (link_of s) = op # ops" "length (flying (link_of s)) = outstanding s"
    using Cons.hyps(2) by simp_all
  note loop = issue_loop.simps [of call s] and run = link_run.simps [of call "link_of s"]
  have next_state: "window_ok s' \<and> link_run call (link_of t) = (r, link_of s')"
    if "window_ok t" "queue_contents (opQueue t) = ops" "issue_loop call t = (r, s')" for t
    using Cons.hyps(1) [OF that(2) [symmetric] that(1,3)] .
  show ?case
  proof (cases "op_t op")
    case OT_COMMAND
    with p(4) have ok: "command_ok op" by (simp add: command_ok_def operation_ok_def)
    show ?thesis
    proof (cases "outstanding s < 4")
      case True
      from issue_window [OF Cons.prems(1) ok True] obtain t where
        t: "issueCommandOperation op s = (1, t)" "window_ok t" "link_of t = link_issue op (link_of s)" by blast
      let ?t = "t\<lparr>opQueue := opQueuePop (opQueue t)\<rparr>"
      have q: "queue_contents (opQueue t) = op # ops"
        using issue_frame(1) [of op s] t(1) Cons.hyps(2) by simp
      note u = pop_waiting_window [OF t(2) q]
      have "issue_loop call ?t = (r, s')"
        using Cons.prems(2) p(3) t(1) OT_COMMAND by (simp add: loop execute_command)
      with next_state [OF u(1)] arg_cong [OF u(2), of waiting]
      have "window_ok s' \<and> link_run call (link_of ?t) = (r, link_of s')" by simp
      moreover have "link_run call (link_of s) = link_run call (link_of ?t)"
        using l OT_COMMAND True by (simp add: run u(2) t(3))
      ultimately show ?thesis by simp
    next
      case False
      with issue_full [of s op] p(3) OT_COMMAND have "issue_loop call s = (0, s)" by (simp add: loop execute_command)
      moreover have "link_run call (link_of s) = (0, link_of s)"
        using l OT_COMMAND False by (simp add: run)
      ultimately show ?thesis using Cons.prems by simp
    qed
  next
    case OT_BARRIER
    note idle = isIdle_window [OF Cons.prems(1)]
    show ?thesis
    proof (cases "isIdle s")
      case False
      with p(3) OT_BARRIER have "issue_loop call s = (0, s)" by (simp add: loop execute_op_def)
      moreover have "link_run call (link_of s) = (0, link_of s)"
        using l OT_BARRIER False idle by (simp add: run)
      ultimately show ?thesis using Cons.prems by simp
    next
      case True
      let ?t = "s\<lparr>opQueue := opQueuePop (opQueue s)\<rparr>"
      have tq: "queue_contents (opQueue ?t) = ops" using arg_cong [OF p(2), of waiting] by simp
      show ?thesis
      proof (cases "op_cb op")
        case None
        have "issue_loop call s = issue_loop call ?t"
          using p(3) OT_BARRIER True None by (simp add: loop execute_op_def)
        moreover have "link_run call (link_of s) = link_run call (link_of ?t)"
          using l OT_BARRIER True idle None by (simp add: run p(2))
        ultimately show ?thesis using next_state [OF p(1) tq] Cons.prems(2) by simp
      next
        case (Some cb)
        obtain x c where xc: "call cb True None None (upper s) = (x, c)" by force
        let ?u = "s\<lparr>upper := c, opQueue := opQueuePop (opQueue s)\<rparr>"
        have ut: "?u = ?t\<lparr>upper := c\<rparr>" by (rule commands.equality) simp_all
        have u: "window_ok ?u" "queue_contents (opQueue ?u) = ops" "link_of ?u = (link_of ?t)\<lparr>client := c\<rparr>"
          using p(1) tq unfolding ut link_of_upper by simp_all
        have lu: "(link_of s)\<lparr>client := c, waiting := ops\<rparr> = link_of ?u"
          unfolding u(3) p(2) by (rule link.equality) simp_all
        have "issue_loop call s = (if x < 0 then (-1, ?u) else issue_loop call ?u)"
          using p(3) OT_BARRIER True Some xc by (simp add: loop execute_op_def Let_def)
        moreover have "link_run call (link_of s) = (if x < 0 then (-1, link_of ?u) else link_run call (link_of ?u))"
          using l OT_BARRIER True idle Some xc unfolding lu [symmetric] by (simp add: run Let_def)
        ultimately show ?thesis using next_state [OF u(1,2)] Cons.prems(2) u(1) by (auto split: if_splits)
      qed
    qed
  qed
qed

lemma transmitPackets_window:
  assumes "window_ok s" "transmitPackets call s = (r, s')"
  shows "window_ok s' \<and> link_transmit call (link_of s) = (r, link_of s')"
proof -
  obtain b t where bt: "reissue_loop s = (b, t)" by force
  from reissue_loop_window [OF assms(1) bt] have t: "window_ok t" "link_reissue (link_of s) = (b, link_of t)" by auto
  show ?thesis
    using assms(2) t bt issue_loop_window [OF t(1), of call r s']
    by (cases b) (auto simp: transmitPackets_def link_transmit_def)
qed

subsection \<open>Receiving\<close>

fun in_step :: "nat \<Rightarrow> nat \<Rightarrow> nat list \<Rightarrow> bool" where
  "in_step rx n [] \<longleftrightarrow> True"
| "in_step rx n (i # is) \<longleftrightarrow> ahead i rx < n \<and> in_step (next_seq i) (n - ahead i rx - 1) is"

definition view_seq :: "u8 \<times> u8 list \<Rightarrow> nat" where
  "view_seq v = unat (fst v AND 0x0F)"

lemma view_seq_packet: "view_seq (packet_view p) = getPacketSequence p"
  by (simp add: view_seq_def packet_view_def getPacketSequence_def)

text \<open>The receiver has read the bytes \<open>bs\<close> of an unfinished frame.\<close>

definition reading :: "u8 list \<Rightarrow> ('cb, 'c) commands \<Rightarrow> bool" where
  "reading bs s \<longleftrightarrow> ring_ok (debugRxBuf (port s)) \<and> (\<forall>d \<in> set (ring_contents (debugRxBuf (port s))). 0 \<le> d) \<and>
     buffered (rx_buf s) bs \<and> length (pk_data (rx_packet s)) = 30"

definition unread :: "u8 list \<Rightarrow> ('cb, 'c) commands \<Rightarrow> u8 list" where
  "unread bs s = leftover bs (ring_contents (debugRxBuf (port s)))"

definition arrivals :: "u8 list \<Rightarrow> ('cb, 'c) commands \<Rightarrow> (u8 \<times> u8 list) list" where
  "arrivals bs s = map frame_view (frames bs (ring_contents (debugRxBuf (port s))))"

lemma handle_frame [simp]:
  "rx_packet (snd (handle_packet call p s)) = rx_packet s" "rx_buf (snd (handle_packet call p s)) = rx_buf s"
  "timeoutTime (snd (handle_packet call p s)) = timeoutTime s"
proof -
  have one: "rx_packet (requeue_one s) = rx_packet s" "rx_buf (requeue_one s) = rx_buf s"
      "timeoutTime (requeue_one s) = timeoutTime s" for s :: "('a, 'b) commands"
    by (simp_all add: requeue_one_def Let_def)
  have "rx_packet ((requeue_one ^^ n) s) = rx_packet s \<and> rx_buf ((requeue_one ^^ n) s) = rx_buf s \<and>
      timeoutTime ((requeue_one ^^ n) s) = timeoutTime s" for n
    by (induction n) (simp_all add: one)
  then show "rx_packet (snd (handle_packet call p s)) = rx_packet s" "rx_buf (snd (handle_packet call p s)) = rx_buf s"
    "timeoutTime (snd (handle_packet call p s)) = timeoutTime s"
    by (simp_all add: handle_packet_def requeueUntil_def Let_def split: prod.split)
qed

lemma pull_packet_arrivals:
  assumes "window_ok s" "reading bs s"
  obtains (none) s' bs' r where "pull_packet s = (None, s')" "arrivals bs s = []" "reading bs' s'" "window_ok s'"
      "port s' = (port s)\<lparr>debugRxBuf := r\<rparr>" "link_of s' = (link_of s)\<lparr>line := port s'\<rparr>" "ring_contents r = []" "unread bs s = bs'"
      "rxSeqCounter s' = rxSeqCounter s" "outstanding s' = outstanding s"
    | (some) p s' r where "pull_packet s = (Some p, s')" "arrivals bs s = packet_view p # arrivals [] s'" "reading [] s'"
      "window_ok s'" "port s' = (port s)\<lparr>debugRxBuf := r\<rparr>" "link_of s' = (link_of s)\<lparr>line := port s'\<rparr>"
      "unread bs s = unread [] s'"
      "rxSeqCounter s' = rxSeqCounter s" "outstanding s' = outstanding s"
proof -
  obtain f bs' ds' where nf: "next_frame bs (ring_contents (debugRxBuf (port s))) = (f, bs', ds')"
    by (metis prod_cases3)
  from assms(2) have rd: "ring_ok (debugRxBuf (port s))" "\<forall>d \<in> set (ring_contents (debugRxBuf (port s))). 0 \<le> d"
    "buffered (rx_buf s) bs" "length (pk_data (rx_packet s)) = 30" by (simp_all add: reading_def)
  from receivePacket_next_frame [OF rd nf] obtain p' b' r where
    p: "receivePacket (rx_packet s) (rx_buf s) (port s) = ((map_option (\<lambda>_. p') f, p'), b', (port s)\<lparr>debugRxBuf := r\<rparr>)"
      "ring_ok r" "ring_contents r = ds'" "buffered b' bs'" "length (pk_data p') = 30"
      "case f of None \<Rightarrow> True | Some fs \<Rightarrow> \<exists>q. p' = packet_of fs q \<and> good_frame fs" by blast
  let ?s = "s\<lparr>rx_packet := p', rx_buf := b', port := (port s)\<lparr>debugRxBuf := r\<rparr>\<rparr>"
  have pull: "pull_packet s = (map_option (\<lambda>_. p') f, ?s)" by (simp add: pull_packet_def p(1))
  have w: "window_ok ?s" "link_of ?s = (link_of s)\<lparr>line := port ?s\<rparr>"
    using assms(1) by (simp_all add: window_ok_def link_of_def window_def)
  note fr = next_frame_frames [OF nf]
  have rd': "reading bs' ?s" using rd(2) fr p by (auto simp: reading_def)
  show thesis
  proof (cases f)
    case None
    with pull fr p(3) rd' w show thesis by (intro none [of ?s bs' r]) (simp_all add: arrivals_def unread_def)
  next
    case (Some fs)
    then have "bs' = []" using fr by simp
    moreover have "packet_view p' = frame_view fs" using p(6) Some packet_view_of by auto
    ultimately show thesis
      using pull fr p(3) rd' w Some by (intro some [of p' ?s r]) (simp_all add: arrivals_def unread_def)
  qed
qed

lemma link_reply_line:
  "link_reply call rx (L\<lparr>line := io\<rparr>) = (case link_reply call rx L of (r, L) \<Rightarrow> (r, L\<lparr>line := io\<rparr>))"
proof -
  have req: "link_requeue k (L\<lparr>line := io\<rparr>) = (link_requeue k L)\<lparr>line := io\<rparr>" for k
    by (simp add: link_requeue_def)
  have rx: "next_rx (L\<lparr>line := io\<rparr>) = next_rx L" by (simp add: next_rx_def)
  show ?thesis
    unfolding link_reply_def Let_def req rx by (simp cong: option.case_cong split: prod.split)
qed

lemma link_replies_line:
  "link_replies call got rxs (L\<lparr>line := io\<rparr>) = (case link_replies call got rxs L of (r, L) \<Rightarrow> (r, L\<lparr>line := io\<rparr>))"
  by (induction rxs arbitrary: got L) (simp_all add: link_reply_line split: prod.split)

lemma replies_out: "link_reply call rx L = (r, L') \<Longrightarrow> \<not> r < 0 \<Longrightarrow> r = 1"
  by (auto simp: link_reply_def Let_def split: prod.splits if_splits)

lemma handle_counters:
  assumes "window_ok s" "ahead (getPacketSequence rx) (rxSeqCounter s) < outstanding s"
    and "handle_packet call rx s = (r, s')" "\<not> r < 0"
  shows "rxSeqCounter s' = next_seq (getPacketSequence rx)"
    "outstanding s' = outstanding s - ahead (getPacketSequence rx) (rxSeqCounter s) - 1"
proof -
  note q = requeueUntil_window [OF assms(1) sequence_bound less_imp_le [OF assms(2)]]
  from assms(3,4) have "rxSeqCounter s' = next_seq (rxSeqCounter (requeueUntil (getPacketSequence rx) s))"
    "numIssuedPackets s' = numIssuedPackets (requeueUntil (getPacketSequence rx) s) - 1"
    by (auto simp: handle_packet_def Let_def split: prod.splits if_splits)
  with q(3,4) show "rxSeqCounter s' = next_seq (getPacketSequence rx)"
    "outstanding s' = outstanding s - ahead (getPacketSequence rx) (rxSeqCounter s) - 1"
    by (simp_all add: nat_diff_distrib')
qed

lemma views_exist: "\<exists>qs. map packet_view qs = vs"
  by (rule exI [of _ "map (\<lambda>v. \<lparr>commandCode = fst v, pk_data = snd v, pk_crc = 0, pk_len = length (snd v)\<rparr>) vs"])
    (induction vs, simp_all add: packet_view_def payload_def)

lemma receive_loop_window:
  assumes "window_ok s" "reading bs s" "in_step (rxSeqCounter s) (outstanding s) (map view_seq (arrivals bs s))"
    and "receive_loop call got s = (r, s')"
  shows "\<exists>rxs ring bs'. map packet_view rxs = arrivals bs s \<and> window_ok s' \<and> reading bs' s' \<and>
    port s' = (port s)\<lparr>debugRxBuf := ring\<rparr> \<and> (\<not> r < 0 \<longrightarrow> ring_contents ring = [] \<and> bs' = unread bs s \<or> got < 0) \<and>
    (case link_replies call got rxs (link_of s) of (x, L) \<Rightarrow> x = r \<and> link_of s' = L\<lparr>line := port s'\<rparr>)"
  using assms
proof (induction "arrivals bs s" arbitrary: s bs got)
  case Nil
  from Nil.prems(1,2) show ?case
  proof (cases rule: pull_packet_arrivals)
    case (none t bs' ring)
    with Nil.prems(4) Nil.hyps show ?thesis
      by (intro exI [of _ "[]"] exI [of _ ring] exI [of _ bs']) (simp add: receive_loop.simps [of call got s])
  next
    case (some p t ring)
    with Nil.hyps show ?thesis by simp
  qed
next
  case (Cons v vs)
  from Cons.prems(1,2) show ?case
  proof (cases rule: pull_packet_arrivals)
    case (none t bs' ring)
    with Cons.hyps(2) show ?thesis by simp
  next
    case (some p t ring)
    obtain x u where h: "handle_packet call p t = (x, u)" by force
    have v: "v = packet_view p" "vs = arrivals [] t" using Cons.hyps(2) some(2) by simp_all
    have st: "ahead (getPacketSequence p) (rxSeqCounter t) < outstanding t"
      "in_step (next_seq (getPacketSequence p)) (outstanding t - ahead (getPacketSequence p) (rxSeqCounter t) - 1)
         (map view_seq vs)"
      using Cons.prems(3) some(8,9) v unfolding some(2) by (simp_all add: view_seq_packet)
    from handle_packet_window [OF some(4) st(1) h] have
      hw: "window_ok u" "link_reply call p (link_of t) = (x, link_of u)" by auto
    have fr: "port u = port t" "reading [] u" "arrivals [] u = arrivals [] t" "unread [] u = unread bs s"
      using handle_packet_port [of call p t] handle_frame [of call p t] some(3,7) h
      by (simp_all add: reading_def arrivals_def unread_def)
    have one: "link_reply call p (link_of s) = (x, L) \<Longrightarrow> link_of u = L\<lparr>line := port t\<rparr>" for L
      using hw(2) unfolding some(6) link_reply_line by simp
    obtain L where L: "link_reply call p (link_of s) = (x, L)"
      using hw(2) unfolding some(6) link_reply_line by (auto split: prod.splits)
    note loop = receive_loop.simps [of call got s]
    show ?thesis
    proof (cases "x < 0")
      case True
      have rs: "r = -1" "s' = u" using Cons.prems(4) some(1) h True by (simp_all add: loop)
      obtain qs where "map packet_view qs = vs" using views_exist by blast
      with rs fr some(2,5) hw(1) L one [OF L] v True show ?thesis
        by (intro exI [of _ "p # qs"] exI [of _ ring] exI [of _ "[]"]) simp
    next
      case False
      have e: "vs = arrivals [] u" using v(2) fr(3) by simp
      have l1: "receive_loop call 1 u = (r, s')" using Cons.prems(4) some(1) h False by (simp add: loop)
      have "in_step (rxSeqCounter u) (outstanding u) (map view_seq (arrivals [] u))"
        using handle_counters [OF some(4) st(1) h False] st(2) fr(3) v(2) by simp
      from Cons.hyps(1) [OF e hw(1) fr(2) this l1] obtain rxs ring' bs' where ih: "map packet_view rxs = arrivals [] u" "window_ok s'" "reading bs' s'"
        "port s' = (port u)\<lparr>debugRxBuf := ring'\<rparr>" "\<not> r < 0 \<longrightarrow> ring_contents ring' = [] \<and> bs' = unread [] u \<or> (1 :: int) < 0"
        "case link_replies call 1 rxs (link_of u) of (x, L) \<Rightarrow> x = r \<and> link_of s' = L\<lparr>line := port s'\<rparr>"
        by (elim exE conjE) (rule that)
      have "case link_replies call got (p # rxs) (link_of s) of (x, L) \<Rightarrow> x = r \<and> link_of s' = L\<lparr>line := port s'\<rparr>"
        using ih(6) L False unfolding one [OF L] link_replies_line by (auto split: prod.splits)
      with ih fr some(2,5) v show ?thesis
        by (intro exI [of _ "p # rxs"] exI [of _ ring'] exI [of _ bs']) simp
    qed
  qed
qed

subsection \<open>Time-outs and giving up\<close>

lemma free_queue: "queue_ok q \<Longrightarrow> queue_ok (opQueueFree q) \<and> queue_contents (opQueueFree q) = []"
proof (induction q rule: opQueueFree.induct)
  case (1 q)
  show ?case
  proof (cases "q_head q")
    case None
    then have "opQueuePeek q = None" by (simp add: opQueuePeek_def)
    then have "queue_contents q = []" using op_fifo.front_None [OF 1(2)] by simp
    with None 1(2) show ?thesis by (simp add: opQueueFree.simps [of q])
  next
    case (Some h)
    with 1 op_fifo.pop_ok [OF 1(2)] show ?thesis by (simp add: opQueueFree.simps [of q])
  qed
qed

lemma fail_loop_window:
  assumes "window_ok s" "fail_loop call s = (r, s')"
  shows "window_ok s' \<and> link_fail call (link_of s) = (r, link_of s')"
  using assms
proof (induction "queue_contents (opQueue s)" arbitrary: s)
  case Nil
  then have "opQueuePeek (opQueue s) = None"
    using op_fifo.front_None [OF window_okD(6) [OF Nil.prems(1)]] by simp
  then have "fail_loop call s = (0, s)" by (simp add: fail_loop.simps [of call s])
  moreover have "link_fail call (link_of s) = (0, link_of s)"
    using Nil.hyps [symmetric] by (simp add: link_fail.simps [of call "link_of s"])
  ultimately show ?case using Nil.prems by simp
next
  case (Cons op ops)
  note p = pop_waiting_window [OF Cons.prems(1) Cons.hyps(2) [symmetric]]
  obtain x c where xc: "(case op_cb op of None \<Rightarrow> (0, upper s)
      | Some cb \<Rightarrow> call cb False (if op_t op = OT_COMMAND then Some (op_p op) else None) None (upper s)) = (x, c)" by force
  let ?t = "s\<lparr>opQueue := opQueuePop (opQueue s)\<rparr>" and ?u = "s\<lparr>upper := c, opQueue := opQueuePop (opQueue s)\<rparr>"
  have ut: "?u = ?t\<lparr>upper := c\<rparr>" by (rule commands.equality) simp_all
  have u: "window_ok ?u" "link_of ?u = (link_of ?t)\<lparr>client := c\<rparr>"
    using p(1) unfolding ut link_of_upper by simp_all
  have lu: "(link_of s)\<lparr>client := c, waiting := ops\<rparr> = link_of ?u"
    unfolding u(2) p(2) by (rule link.equality) simp_all
  have ops: "ops = queue_contents (opQueue ?u)" using arg_cong [OF p(2), of waiting] by simp
  have "fail_loop call s = (if x < 0 then (-1, s\<lparr>upper := c\<rparr>) else fail_loop call ?u)"
    using p(3) xc by (simp add: fail_loop.simps [of call s])
  moreover have "link_fail call (link_of s) = (if x < 0 then (-1, link_of (s\<lparr>upper := c\<rparr>)) else link_fail call (link_of ?u))"
    unfolding lu [symmetric] link_of_upper link_fail.simps [of call "link_of s"] link_of_sel Cons.hyps(2) [symmetric]
      list.case Let_def xc prod.case by simp
  ultimately show ?case
    using Cons.hyps(1) [OF ops u(1)] Cons.prems by (auto simp: link_of_upper(2) split: if_splits)
qed

lemma resetQueue_window:
  assumes "window_ok s" "resetQueue call s = (r, s')"
  shows "window_ok s' \<and> link_fail call ((link_of s)\<lparr>flying := [], again := []\<rparr>) = (r, link_of s')"
proof -
  let ?t = "s\<lparr>slotsValid := (\<lambda>_. False), rxSeqCounter := txSeqCounter s, numIssuedPackets := 0,
    reissueQueue := opQueueFree (reissueQueue s)\<rparr>"
  note w = window_okD [OF assms(1)] and f = free_queue [OF window_okD(7) [OF assms(1)]]
  have win: "window ?t = []" by (simp add: window_def)
  have "window_ok ?t"
    by (rule window_okI [of _ 0]) (use w f win in simp_all)
  moreover have "link_of ?t = (link_of s)\<lparr>flying := [], again := []\<rparr>"
    using f win by (intro link.equality) simp_all
  ultimately show ?thesis
    using fail_loop_window [of ?t call r s'] assms(2) by (simp add: resetQueue_def)
qed

lemma handle_timeout_window:
  assumes "window_ok s" "handle_timeout call now got s = (r, s')"
  shows "window_ok s' \<and> link_timeout call now got (link_of s) = (r, link_of s')"
proof -
  have idle: "isIdle s \<longleftrightarrow> link_idle (link_of s)" using isIdle_window [OF assms(1)] by (simp add: link_idle_def)
  let ?t = "s\<lparr>timeoutCount := timeoutCount s + 1\<rparr>"
  have t: "window_ok ?t" "link_of ?t = (link_of s)\<lparr>timer := (timeoutTime s, timeoutCount s + 1)\<rparr>"
    using assms(1) by (simp_all add: window_ok_def link_of_def window_def)
  have r: "window_ok (s\<lparr>timeoutTime := now, timeoutCount := 0\<rparr>)"
    "link_of (s\<lparr>timeoutTime := now, timeoutCount := 0\<rparr>) = (link_of s)\<lparr>timer := (now, 0)\<rparr>"
    using assms(1) by (simp_all add: window_ok_def link_of_def window_def)
  note w = window_okD [OF assms(1)]
  have a: "ahead (txSeqCounter ?t) (rxSeqCounter ?t) = outstanding ?t"
    using w(1-3) by (simp add: ahead_add)
  have q: "window_ok (requeueUntil (txSeqCounter s) ?t)"
    "link_of (requeueUntil (txSeqCounter s) ?t) = link_requeue (length (window s)) (link_of ?t)"
    using requeueUntil_window [OF t(1), of "txSeqCounter s"] a w(4) by simp_all
  have win: "window ?t = window s" by (simp add: window_def)
  show ?thesis
  proof (cases "got \<noteq> 0 \<or> isIdle s")
    case True
    with assms(2) r show ?thesis by (auto simp: handle_timeout_def link_timeout_def idle)
  next
    case busy: False
    show ?thesis
    proof (cases "isTimedOut now (timeoutTime s) 50000")
      case False
      with busy assms show ?thesis
        by (auto simp: handle_timeout_def link_timeout_def idle TIMEOUT_USEC_def)
    next
      case True
      show ?thesis
      proof (cases "timeoutCount s + 1 \<ge> 3")
        case give_up: True
        with busy True assms(2) have "resetQueue call ?t = (r, s')"
          by (simp add: handle_timeout_def TIMEOUT_USEC_def TIMEOUT_RETRIES_def)
        from resetQueue_window [OF t(1) this] busy True give_up show ?thesis
          by (simp add: link_timeout_def idle t(2))
      next
        case False
        with busy True assms(2) have "r = 0" "s' = requeueUntil (txSeqCounter s) ?t"
          by (auto simp: handle_timeout_def TIMEOUT_USEC_def TIMEOUT_RETRIES_def)
        with q t(2) busy True False show ?thesis by (simp add: link_timeout_def idle)
      qed
    qed
  qed
qed

section \<open>An update of the code is an update of the link\<close>

text \<open>Only the receive loop touches the receiver.\<close>

abbreviation receiver :: "('cb, 'c) commands \<Rightarrow> packet \<times> rx_buffer \<times> ring" where
  "receiver s \<equiv> (rx_packet s, rx_buf s, debugRxBuf (port s))"

lemma transmit_rx: "debugRxBuf (snd (transmitPacket p s)) = debugRxBuf s"
proof -
  have "debugRxBuf (fold serial_debugSend ds s) = debugRxBuf s" for ds
    by (induction ds arbitrary: s) (simp_all add: serial_debugSend_rx)
  then show ?thesis by (simp add: transmitPacket_def Let_def)
qed

lemma issue_receiver: "receiver (snd (issueCommandOperation op s)) = receiver s"
  using transmit_rx [of "setPacketSequence (txSeqCounter s) (op_p op)" "port s"]
  by (simp add: issueCommandOperation_def Let_def case_prod_beta)

lemma requeue_receiver: "receiver (requeueUntil i s) = receiver s"
proof -
  have "receiver ((requeue_one ^^ n) s) = receiver s" for n
    by (induction n) (simp_all add: requeue_one_def Let_def)
  then show ?thesis by (simp add: requeueUntil_def)
qed

lemma reissue_receiver: "receiver (snd (reissue_loop s)) = receiver s"
proof (induction s rule: reissue_loop.induct)
  case (1 s)
  show ?case
  proof (cases "opQueuePeek (reissueQueue s)")
    case None
    then show ?thesis by (simp add: reissue_loop.simps [of s])
  next
    case (Some op)
    obtain r t where e: "issueCommandOperation op s = (r, t)" by force
    then have "receiver t = receiver s" using issue_receiver [of op s] by simp
    with 1 [OF Some refl e [symmetric]] show ?thesis using Some e by (simp add: reissue_loop.simps [of s])
  qed
qed

lemma execute_receiver: "receiver (snd (execute_op call op s)) = receiver s"
  using issue_receiver [of op s]
  by (simp add: execute_op_def Let_def case_prod_beta split: operation_type.split option.split)

lemma issue_loop_receiver: "receiver (snd (issue_loop call s)) = receiver s"
proof (induction call s rule: issue_loop.induct)
  case (1 call s)
  show ?case
  proof (cases "opQueuePeek (opQueue s)")
    case None
    then show ?thesis by (simp add: issue_loop.simps [of call s])
  next
    case (Some op)
    obtain r t where e: "execute_op call op s = (r, t)" by force
    then have "receiver t = receiver s" using execute_receiver [of call op s] by simp
    with 1 [OF Some refl e [symmetric]] show ?thesis using Some e by (simp add: issue_loop.simps [of call s])
  qed
qed

lemma fail_loop_receiver: "receiver (snd (fail_loop call s)) = receiver s"
proof (induction call s rule: fail_loop.induct)
  case (1 call s)
  show ?case
  proof (cases "opQueuePeek (opQueue s)")
    case None
    then show ?thesis by (simp add: fail_loop.simps [of call s])
  next
    case (Some op)
    obtain r c where e: "(case op_cb op of None \<Rightarrow> (0, upper s)
      | Some cb \<Rightarrow> call cb False (if op_t op = OT_COMMAND then Some (op_p op) else None) None (upper s)) = (r, c)" by force
    show ?thesis
      using 1 [OF Some e [symmetric] refl refl] unfolding fail_loop.simps [of call s] Some option.case e Let_def prod.case
      by simp
  qed
qed

lemma update_reading:
  assumes "receive_loop call 0 s = (got, t)" "debugCommands_update call now s = (r, s')"
  shows "receiver s' = receiver t"
proof -
  have h: "receiver (snd (handle_timeout call now got t)) = receiver t"
    using requeue_receiver [of _ "t\<lparr>timeoutCount := timeoutCount t + 1\<rparr>"]
    by (simp add: handle_timeout_def resetQueue_def Let_def fail_loop_receiver [simplified])
  have tr: "receiver (snd (transmitPackets call u)) = receiver u" for u
    using reissue_receiver [of u]
    by (simp add: transmitPackets_def case_prod_beta issue_loop_receiver [simplified] split: bool.split)
  have "s' = snd (debugCommands_update call now s)" using assms(2) by simp
  with h show ?thesis
    by (simp add: debugCommands_update_def receivePackets_def assms(1) case_prod_beta tr [simplified])
qed

lemma update_window:
  assumes "window_ok s" "reading bs s" "in_step (rxSeqCounter s) (outstanding s) (map view_seq (arrivals bs s))"
    and "debugCommands_update call now s = (r, s')"
  shows "\<exists>rxs ring. map packet_view rxs = arrivals bs s \<and> window_ok s' \<and>
    (\<exists>bs'. reading bs' s' \<and> (0 \<le> r \<longrightarrow> bs' = unread bs s \<and> ring_contents (debugRxBuf (port s')) = [])) \<and>
    link_update call now rxs ((port s)\<lparr>debugRxBuf := ring\<rparr>) (link_of s) = (r, link_of s')"
proof -
  obtain got t where t: "receive_loop call 0 s = (got, t)" by force
  from receive_loop_window [OF assms(1-3) t] obtain rxs ring bs' where
    l: "map packet_view rxs = arrivals bs s" "window_ok t" "port t = (port s)\<lparr>debugRxBuf := ring\<rparr>"
      "case link_replies call 0 rxs (link_of s) of (x, L) \<Rightarrow> x = got \<and> link_of t = L\<lparr>line := port t\<rparr>" "reading bs' t"
      "\<not> got < 0 \<longrightarrow> ring_contents ring = [] \<and> bs' = unread bs s \<or> (0 :: int) < 0"
    by (elim exE conjE) (rule that)
  from l(4) obtain L where L: "link_replies call 0 rxs (link_of s) = (got, L)" "L\<lparr>line := (port s)\<lparr>debugRxBuf := ring\<rparr>\<rparr> = link_of t"
    using l(3) by (auto split: prod.splits)
  have "window_ok s' \<and> link_update call now rxs ((port s)\<lparr>debugRxBuf := ring\<rparr>) (link_of s) = (r, link_of s')"
  proof (cases "got < 0")
    case True
    with assms(4) t have "r = -1" "s' = t" by (auto simp: debugCommands_update_def receivePackets_def)
    with l(2) L True show ?thesis by (simp add: link_update_def)
  next
    case got: False
    obtain x u where u: "handle_timeout call now got t = (x, u)" by force
    from handle_timeout_window [OF l(2) u] have hu: "window_ok u" "link_timeout call now got (link_of t) = (x, link_of u)" by auto
    show ?thesis
    proof (cases "x < 0")
      case True
      with assms(4) t got u have "r = -1" "s' = u" by (auto simp: debugCommands_update_def receivePackets_def)
      with L got hu True show ?thesis by (simp add: link_update_def)
    next
      case x: False
      obtain y v where v: "transmitPackets call u = (y, v)" by force
      from transmitPackets_window [OF hu(1) v] have hv: "window_ok v" "link_transmit call (link_of u) = (y, link_of v)" by auto
      have "isDone v \<longleftrightarrow> waiting (link_of v) = [] \<and> link_idle (link_of v)"
        using isIdle_window [OF hv(1)] op_fifo.front_None [OF window_okD(6) [OF hv(1)]] by (simp add: isDone_def link_idle_def)
      moreover have "s' = v" "r = (if y < 0 then -1 else if isDone v then 0 else 1)"
        using assms(4) t got u x v by (auto simp: debugCommands_update_def receivePackets_def split: if_splits)
      ultimately show ?thesis using L got hu x hv by (simp add: link_update_def)
    qed
  qed
  moreover have rd: "reading bs' s'" "debugRxBuf (port s') = debugRxBuf (port t)"
    using update_reading [OF t assms(4)] l(5) by (auto simp: reading_def)
  moreover have "0 \<le> r \<longrightarrow> \<not> got < 0"
    using assms(4) t by (auto simp: debugCommands_update_def receivePackets_def)
  moreover have "debugRxBuf (port t) = ring" using l(3) by simp
  ultimately show ?thesis using l(1,6) by (intro exI [of _ rxs] exI [of _ ring] conjI exI [of _ bs']) auto
qed

lemma initial_window: "window_ok (initial_commands c)" "reading [] (initial_commands c)"
  "link_of (initial_commands c) = \<lparr>flying = [], again = [], waiting = [], next_tx = 0, timer = (0, 0),
     line = initial_serial, client = c\<rparr>"
proof -
  note q = empty_queue_ok
  have w: "window (initial_commands c) = []" by (simp add: window_def initial_commands_def)
  then show "window_ok (initial_commands c)"
    by (intro window_okI [of _ 0]) (simp_all only: w list.pred_inject(1), simp_all add: initial_commands_def q)
  show "link_of (initial_commands c) = \<lparr>flying = [], again = [], waiting = [], next_tx = 0, timer = (0, 0),
     line = initial_serial, client = c\<rparr>"
    unfolding link_of_def w by (simp add: initial_commands_def q)
  show "reading [] (initial_commands c)"
    by (simp add: reading_def initial_commands_def initial_serial_def zero_ring_def ring_ok_def SERIAL_BUFFER_SIZE_def
        ring_contents_def buffered_clear zero_packet_def)
qed

lemma queue_window:
  assumes "window_ok s" "operation_ok op"
  shows "window_ok (debugCommands_queue op s)"
    "link_of (debugCommands_queue op s) = (link_of s)\<lparr>waiting := waiting (link_of s) @ [op]\<rparr>"
    "reading bs (debugCommands_queue op s) = reading bs s"
  using op_fifo.push_ok [OF window_okD(6) [OF assms(1)]] op_fifo.push_contents [OF window_okD(6) [OF assms(1)]] assms
  by (auto simp: window_ok_def link_of_def window_def debugCommands_queue_def reading_def)

end
