(* ===== verification/Debug_Delivery.thy ===== *)
theory Debug_Delivery
  imports Debug_Window "HOL-Library.Multiset"
begin

text \<open>
  What the command layer promises its client (\<open>rvsrv/uart/debugCommands.c\<close>), from the sliding
  window of \<open>Debug_Window\<close>, while the replies belong to the window and keep their order (some
  may be missing): an update is an update of the window, and its bounds hold along every run. Then
  what one reply outside of the window does, the callbacks of an operation queue that is given
  up, and a client that keeps a log of its callbacks. What holds whatever arrives is in
  \<open>Debug_Callbacks\<close>.
\<close>

section \<open>Updates refine the window\<close>

text \<open>
  C30. As long as the replies keep to the window, an update of the command layer is an update of
  the abstract link: when the packets that arrived answer commands of the window in order (some may
  be missing, none is late or doubled), \<open>debugCommands_update\<close>
  on queues, slots and counters does exactly what \<open>link_update\<close> does on the list of commands on
  their way, those to send again and the operations that wait, with the same callbacks and the
  same packets sent, and the representation stays well formed.
\<close>

theorem debugCommands_update_refines_window:
  assumes "window_ok s" "reading bs s" "in_step (rxSeqCounter s) (outstanding s) (map view_seq (arrivals bs s))"
    and "debugCommands_update call now s = (r, s')"
  shows "\<exists>rxs ring. map packet_view rxs = arrivals bs s \<and> window_ok s' \<and>
    link_update call now rxs ((port s)\<lparr>debugRxBuf := ring\<rparr>) (link_of s) = (r, link_of s')"
  using update_window [OF assms] by blast

section \<open>Runs\<close>

text \<open>
  The unit from its start: operations are queued, characters arrive, and the unit is updated
  when what arrived answers commands of the window. \<open>qs\<close> are the operations queued so far.
\<close>

inductive dbg_run :: "('cb, 'c) call \<Rightarrow> 'c \<Rightarrow> 'cb operation list \<Rightarrow> ('cb, 'c) commands \<Rightarrow> bool"
  for call :: "('cb, 'c) call" and c0 :: 'c where
  start: "dbg_run call c0 [] (initial_commands c0)"
| queue: "\<lbrakk>dbg_run call c0 qs s; operation_ok op\<rbrakk> \<Longrightarrow> dbg_run call c0 (qs @ [op]) (debugCommands_queue op s)"
| arrive: "\<lbrakk>dbg_run call c0 qs s; ring_ok (debugRxBuf io); \<forall>d \<in> set (ring_contents (debugRxBuf io)). 0 \<le> d\<rbrakk> \<Longrightarrow>
    dbg_run call c0 qs (s\<lparr>port := io\<rparr>)"
| update: "\<lbrakk>dbg_run call c0 qs s; reading bs s;
      in_step (rxSeqCounter s) (outstanding s) (map view_seq (arrivals bs s))\<rbrakk> \<Longrightarrow>
    dbg_run call c0 qs (snd (debugCommands_update call now s))"

lemma dbg_run_window: "dbg_run call c0 qs s \<Longrightarrow> window_ok s \<and> (\<exists>bs. reading bs s)"
proof (induction rule: dbg_run.induct)
  case start
  show ?case using initial_window(1) [of c0] initial_window(2) [of c0] by blast
next
  case (queue qs s op)
  then show ?case using queue_window [of s op] by auto
next
  case (arrive qs s io)
  then show ?case by (auto simp: window_ok_def window_def reading_def)
next
  case (update qs s bs now)
  then show ?case using update_window [of s bs call now] by (metis prod.collapse)
qed

text \<open>
  C31. The window invariant: in every state of a run whose replies all answer commands of the
  window in order (some may be missing), at most four packets are unanswered,
  their number is the distance of the two sequence counters, their slots and no others are
  valid, in sequence from the receive counter, and the linked queues are well formed.
\<close>

theorem window_invariant:
  assumes "dbg_run call c0 qs s"
  shows "0 \<le> numIssuedPackets s \<and> numIssuedPackets s \<le> 4 \<and> txSeqCounter s < 16 \<and> rxSeqCounter s < 16 \<and>
    txSeqCounter s = (rxSeqCounter s + nat (numIssuedPackets s)) mod 16 \<and>
    {i. i < 16 \<and> slotsValid s i} = (\<lambda>k. (rxSeqCounter s + k) mod 16) ` {0..<nat (numIssuedPackets s)} \<and>
    queue_ok (opQueue s) \<and> queue_ok (reissueQueue s)"
proof -
  note ok = conjunct1 [OF dbg_run_window [OF assms]]
  note w = window_okD [OF ok]
  have "{i. i < 16 \<and> slotsValid s i} = (\<lambda>k. (rxSeqCounter s + k) mod 16) ` {0..<outstanding s}"
  proof (intro equalityI subsetI)
    fix i assume "i \<in> {i. i < 16 \<and> slotsValid s i}"
    then have i: "i < 16" "ahead i (rxSeqCounter s) < outstanding s" using w(11) by auto
    then show "i \<in> (\<lambda>k. (rxSeqCounter s + k) mod 16) ` {0..<outstanding s}"
      using ahead_back [OF i(1) w(1)] by (auto intro!: image_eqI [of _ _ "ahead i (rxSeqCounter s)"])
  next
    fix i assume "i \<in> (\<lambda>k. (rxSeqCounter s + k) mod 16) ` {0..<outstanding s}"
    then obtain k where k: "i = (rxSeqCounter s + k) mod 16" "k < outstanding s" by auto
    with ahead_add [OF w(1), of k] w(2) have "ahead i (rxSeqCounter s) = k" by simp
    with k w(11) [of i] show "i \<in> {i. i < 16 \<and> slotsValid s i}" by simp
  qed
  moreover have "0 \<le> numIssuedPackets s \<and> numIssuedPackets s \<le> 4" using ok by (simp add: window_ok_def)
  ultimately show ?thesis using w(1,3,4,6,7) by simp
qed

section \<open>A reply outside of the window\<close>

lemma requeue_one_empty:
  assumes "\<forall>i. \<not> slotsValid s i \<or> 16 \<le> i" "rxSeqCounter s < 16"
  shows "(requeue_one ^^ k) s = s\<lparr>rxSeqCounter := (rxSeqCounter s + k) mod 16, numIssuedPackets := numIssuedPackets s - int k\<rparr>"
proof (induction k)
  case (Suc k)
  from assms have "\<not> slotsValid s ((rxSeqCounter s + k) mod 16)" by (metis mod_less_divisor not_less zero_less_numeral)
  with Suc show ?case by (simp add: requeue_one_def Let_def next_seq_def mod_Suc_eq)
qed (use assms in simp)

text \<open>
  C32. A reply outside of the window (one that comes after its command timed out, or twice)
  breaks the window: it is taken, all commands on their way are put down to be sent again, no
  callback is called, and \<open>numIssuedPackets\<close> becomes negative, so that more than four packets can
  be sent and a barrier is not passed any more.
\<close>

theorem late_reply_breaks_window:
  assumes "window_ok s" "outstanding s \<le> ahead (getPacketSequence rx) (rxSeqCounter s)"
  shows "\<exists>s'. handle_packet call rx s = (1, s') \<and> upper s' = upper s \<and>
    numIssuedPackets s' = int (outstanding s) - int (ahead (getPacketSequence rx) (rxSeqCounter s)) - 1 \<and>
    numIssuedPackets s' < 0 \<and> queue_contents (reissueQueue s') = queue_contents (reissueQueue s) @ window s \<and>
    queue_contents (opQueue s') = queue_contents (opQueue s) \<and> \<not> isIdle s'"
proof -
  let ?i = "getPacketSequence rx" and ?n = "outstanding s" and ?d = "ahead (getPacketSequence rx) (rxSeqCounter s)"
  let ?t = "(requeue_one ^^ ?n) s" and ?k = "?d - ?n"
  note w = window_okD [OF assms(1)]
  from requeue_window [OF assms(1) order_refl] have t: "window_ok ?t" "link_of ?t = link_requeue ?n (link_of s)"
    "outstanding ?t = 0" by simp_all
  note wt = window_okD [OF t(1)]
  have empty: "\<forall>i. \<not> slotsValid ?t i \<or> 16 \<le> i" using wt(11) t(3) by (metis not_less not_less0)
  have num: "numIssuedPackets ?t = 0" using wt(5) t(3) by simp
  have rx: "rxSeqCounter ?t = (rxSeqCounter s + ?n) mod 16" using requeue_n_rx [OF w(1)] .
  have pos: "(rxSeqCounter ?t + ?k) mod 16 = ?i"
    using assms(2) ahead_back [OF sequence_bound w(1), of rx] unfolding rx mod_add_left_eq by simp
  have "requeueUntil ?i s = (requeue_one ^^ ?k) ?t"
    unfolding requeueUntil_def ahead_def [symmetric] using fun_cong [OF funpow_add [of ?k ?n requeue_one], of s] assms(2)
    by simp
  then have u: "requeueUntil ?i s = ?t\<lparr>rxSeqCounter := ?i, numIssuedPackets := - int ?k\<rparr>"
    using requeue_one_empty [OF empty wt(1), of ?k] unfolding num pos by simp
  have "\<not> slotsValid (requeueUntil ?i s) ?i" using empty sequence_bound [of rx] u by auto
  then have h: "handle_packet call rx s =
      (1, (requeueUntil ?i s)\<lparr>slotsValid := (slotsValid ?t)(?i := False), rxSeqCounter := next_seq ?i,
            numIssuedPackets := - int ?k - 1\<rparr>)"
    using u by (simp add: handle_packet_def Let_def)
  have q: "queue_contents (reissueQueue ?t) = queue_contents (reissueQueue s) @ window s"
    "queue_contents (opQueue ?t) = queue_contents (opQueue s)" "upper ?t = upper s"
    using arg_cong [OF t(2), of again] arg_cong [OF t(2), of waiting] arg_cong [OF t(2), of client]
    by (simp_all add: link_requeue_def)
  have "- int ?k - 1 = int ?n - int ?d - 1" "- int ?k - 1 < 0" using assms(2) by auto
  with h q show ?thesis by (simp add: u isIdle_def)
qed

section \<open>Giving up\<close>

definition fail_op :: "('cb, 'c) call \<Rightarrow> 'cb operation \<Rightarrow> 'c \<Rightarrow> 'c" where
  "fail_op call op c =
     (case op_cb op of None \<Rightarrow> c
      | Some cb \<Rightarrow> snd (call cb False (if op_t op = OT_COMMAND then Some (op_p op) else None) None c))"

lemma link_fail_all:
  assumes "\<And>cb tx c. 0 \<le> fst (call cb False tx None c)"
  shows "link_fail call L = (0, L\<lparr>client := fold (fail_op call) (waiting L) (client L), waiting := []\<rparr>)"
proof (induction "waiting L" arbitrary: L)
  case Nil
  have "L = L\<lparr>client := client L, waiting := []\<rparr>" using Nil by (intro link.equality) simp_all
  with Nil show ?case by (simp add: link_fail.simps [of call L])
next
  case (Cons op ops)
  obtain r c where rc: "(case op_cb op of None \<Rightarrow> (0, client L)
      | Some cb \<Rightarrow> call cb False (if op_t op = OT_COMMAND then Some (op_p op) else None) None (client L)) = (r, c)" by force
  then have "0 \<le> r" "c = fail_op call op (client L)"
    using assms [of "the (op_cb op)"] by (auto simp: fail_op_def split: option.splits prod.splits if_splits) (metis fst_conv)+
  with Cons(1) [of "L\<lparr>client := c, waiting := ops\<rparr>"] show ?case
    unfolding link_fail.simps [of call L] Cons(2) [symmetric] list.case rc Let_def prod.case by simp
qed

text \<open>
  Giving up: \<open>resetQueue\<close> calls the callback of each operation that waits, in the order
  they were queued, once and with failure; the commands on their way and those to be sent again
  are dropped without a call of their callbacks. Afterwards nothing is pending.
\<close>

theorem resetQueue_fails_waiting:
  assumes "window_ok s" "\<And>cb tx c. 0 \<le> fst (call cb False tx None c)"
  shows "\<exists>s'. resetQueue call s = (0, s') \<and> window_ok s' \<and> isDone s' \<and> window s' = [] \<and>
    upper s' = fold (fail_op call) (queue_contents (opQueue s)) (upper s)"
proof -
  obtain r s' where rs: "resetQueue call s = (r, s')" by force
  from resetQueue_window [OF assms(1) rs] have w: "window_ok s'"
    "link_fail call ((link_of s)\<lparr>flying := [], again := []\<rparr>) = (r, link_of s')" by auto
  have all: "r = 0" "link_of s' = ((link_of s)\<lparr>flying := [], again := []\<rparr>)
      \<lparr>client := fold (fail_op call) (queue_contents (opQueue s)) (upper s), waiting := []\<rparr>"
    using w(2) unfolding link_fail_all [of call, OF assms(2)] by simp_all
  have "window s' = []" "queue_contents (reissueQueue s') = []" "queue_contents (opQueue s') = []"
    "upper s' = fold (fail_op call) (queue_contents (opQueue s)) (upper s)"
    using arg_cong [OF all(2), of flying] arg_cong [OF all(2), of again] arg_cong [OF all(2), of waiting]
      arg_cong [OF all(2), of client] by simp_all
  with rs w(1) all(1) isIdle_window [OF w(1)] op_fifo.front_None [OF window_okD(6) [OF w(1)]] show ?thesis
    by (simp add: isDone_def)
qed

section \<open>A client that keeps a log\<close>

text \<open>A client that writes down the callbacks that are called.\<close>

definition log_call :: "('cb, ('cb \<times> bool) list) call" where
  "log_call cb ok tx rx log = (0, log @ [(cb, ok)])"

definition callbacks :: "'cb operation list \<Rightarrow> 'cb multiset" where
  "callbacks ops = mset (List.map_filter op_cb ops)"

lemma callbacks_simps [simp]:
  "callbacks [] = {#}" "callbacks (op # ops) = (case op_cb op of None \<Rightarrow> {#} | Some cb \<Rightarrow> {#cb#}) + callbacks ops"
  "callbacks (xs @ ys) = callbacks xs + callbacks ys"
  by (simp_all add: callbacks_def List.map_filter_def split: option.split)

section \<open>Examples\<close>

definition demo_command :: "nat operation" where
  "demo_command = \<lparr>op_t = OT_COMMAND, op_p = demo_page, op_cb = Some 7\<rparr>"

definition demo_queued :: "(nat, (nat \<times> bool) list) commands" where
  "demo_queued = debugCommands_queue demo_command (initial_commands [])"

lemma demo_command_ok: "operation_ok demo_command"
  by (simp add: demo_command_def operation_ok_def demo_packets_ok)

lemma demo_queued_window:
  "window_ok demo_queued" "reading [] demo_queued" "queue_contents (opQueue demo_queued) = [demo_command]"
  "window demo_queued = []" "upper demo_queued = []" "arrivals [] demo_queued = []"
proof -
  note q = queue_window [OF initial_window(1) demo_command_ok]
  show "window_ok demo_queued" "reading [] demo_queued"
    unfolding demo_queued_def by (simp_all add: q(1,3) initial_window(2))
  have l: "link_of demo_queued = \<lparr>flying = [], again = [], waiting = [demo_command], next_tx = 0, timer = (0, 0),
      line = initial_serial, client = []\<rparr>"
    using q(2) unfolding demo_queued_def initial_window(3) by simp
  show "queue_contents (opQueue demo_queued) = [demo_command]" "window demo_queued = []" "upper demo_queued = []"
    using arg_cong [OF l, of waiting] arg_cong [OF l, of flying] arg_cong [OF l, of client]
    by (simp_all only: link_of_sel link.simps)
  have "port demo_queued = initial_serial" using arg_cong [OF l, of line] by (simp only: link_of_sel link.simps)
  then show "arrivals [] demo_queued = []"
    by (simp add: arrivals_def initial_serial_def zero_ring_def ring_contents_def)
qed

lemma demo_run: "dbg_run log_call [] [demo_command] (snd (debugCommands_update log_call 0 demo_queued))"
proof (rule dbg_run.update [where bs = "[]"])
  show "dbg_run log_call [] [demo_command] demo_queued"
    using dbg_run.queue [OF dbg_run.start demo_command_ok] by (simp add: demo_queued_def)
qed (simp_all add: demo_queued_window)

theorem debugCommands_update_refines_window_witness:
  "\<exists>r s' ring. debugCommands_update log_call 0 demo_queued = (r, s') \<and> window_ok s' \<and>
    link_update log_call 0 [] ((port demo_queued)\<lparr>debugRxBuf := ring\<rparr>) (link_of demo_queued) = (r, link_of s')"
proof -
  obtain r s' where u: "debugCommands_update log_call 0 demo_queued = (r, s')" by force
  have "in_step (rxSeqCounter demo_queued) (outstanding demo_queued) (map view_seq (arrivals [] demo_queued))"
    by (simp add: demo_queued_window)
  from debugCommands_update_refines_window [OF demo_queued_window(1,2) this u] u show ?thesis
    by (auto simp: demo_queued_window)
qed

theorem window_invariant_witness:
  "0 \<le> numIssuedPackets (snd (debugCommands_update log_call 0 demo_queued)) \<and>
   numIssuedPackets (snd (debugCommands_update log_call 0 demo_queued)) \<le> 4"
  using window_invariant [OF demo_run] by simp

theorem late_reply_breaks_window_witness:
  "\<exists>s'. handle_packet log_call demo_page (initial_commands [] :: (nat, (nat \<times> bool) list) commands) = (1, s') \<and>
    numIssuedPackets s' = -2 \<and> \<not> isIdle s'"
proof -
  let ?s = "initial_commands [] :: (nat, (nat \<times> bool) list) commands"
  have "numIssuedPackets ?s = 0" "getPacketSequence demo_page = 1" "rxSeqCounter ?s = 0"
    by (simp_all add: initial_commands_def getPacketSequence_def demo_page_def)
  moreover have "window_ok ?s" by (rule initial_window(1))
  ultimately show ?thesis using late_reply_breaks_window [of ?s demo_page log_call] by (auto simp: ahead_def)
qed

theorem resetQueue_fails_waiting_witness:
  "\<exists>s'. resetQueue log_call demo_queued = (0, s') \<and> isDone s' \<and> upper s' = [(7, False)]"
  using resetQueue_fails_waiting [OF demo_queued_window(1), of log_call]
  by (auto simp: demo_queued_window log_call_def fail_op_def demo_command_def)

end
