(* ===== verification/Debug_Liveness.thy ===== *)
theory Debug_Liveness
  imports Debug_Delivery
begin

text \<open>
  Over a link that loses nothing, with a processor that answers each command, every queued
  operation is executed, in the order in which they were queued, and with the effect of executing
  them one after the other; the pipelining of up to four commands and the sequence numbers do not
  show. The processor is the parameter \<open>hw\<close>: the command code without its sequence number and the
  payload give the code and the payload of the reply, and act on a state of the processor.
\<close>

section \<open>The far end\<close>

type_synonym 'h hardware = "u8 \<Rightarrow> u8 list \<Rightarrow> 'h \<Rightarrow> (u8 \<times> u8 list) \<times> 'h"

definition answer :: "u8 \<Rightarrow> u8 \<times> u8 list \<Rightarrow> packet" where
  "answer req r = \<lparr>commandCode = (fst r AND 0xF0) OR (req AND 0x0F), pk_data = snd r @ replicate (30 - length (snd r)) 0,
     pk_crc = 0, pk_len = length (snd r)\<rparr>"

fun serve :: "'h hardware \<Rightarrow> u8 list list \<Rightarrow> 'h \<Rightarrow> packet list \<times> 'h" where
  "serve hw [] h = ([], h)"
| "serve hw (f # fs) h =
     (let (r, h) = hw (hd f AND 0xF0) (butlast (tl f)) h; (ps, h) = serve hw fs h in (answer (hd f) r # ps, h))"

text \<open>What is queued for sending reaches the processor, and its replies are queued for reception.\<close>

definition chars_of :: "packet list \<Rightarrow> int list" where
  "chars_of ps = concat (map (\<lambda>p. map uint (packet_bytes p) @ [256]) ps)"

definition exchange :: "'h hardware \<Rightarrow> 'h \<Rightarrow> serial \<Rightarrow> serial \<times> 'h" where
  "exchange hw h io =
     (let (ps, h) = serve hw (frames [] (ring_contents (debugTxBuf io))) h in
      (io\<lparr>debugTxBuf := ringBufReset (debugTxBuf io),
          debugRxBuf := fold (\<lambda>d b. snd (ringBufPush d b)) (chars_of ps) (debugRxBuf io)\<rparr>, h))"

definition round :: "'h hardware \<Rightarrow> ('cb, 'c) call \<Rightarrow> u32 \<Rightarrow> ('cb, 'c) commands \<times> 'h \<Rightarrow> ('cb, 'c) commands \<times> 'h" where
  "round hw call now x =
     (case x of (s, h) \<Rightarrow> case exchange hw h (port s) of (io, h) \<Rightarrow>
        (snd (debugCommands_update call now (s\<lparr>port := io\<rparr>)), h))"

fun rounds :: "'h hardware \<Rightarrow> ('cb, 'c) call \<Rightarrow> (nat \<Rightarrow> u32) \<Rightarrow> nat \<Rightarrow> ('cb, 'c) commands \<times> 'h \<Rightarrow> ('cb, 'c) commands \<times> 'h" where
  "rounds hw call clock 0 x = x"
| "rounds hw call clock (Suc n) x = round hw call (clock n) (rounds hw call clock n x)"

section \<open>One operation after the other\<close>

text \<open>\<open>None\<close> when a callback reports an error.\<close>

fun run_ops :: "'h hardware \<Rightarrow> ('cb, 'c) call \<Rightarrow> 'cb operation list \<Rightarrow> 'h \<times> 'c \<Rightarrow> ('h \<times> 'c) option" where
  "run_ops hw call [] x = Some x"
| "run_ops hw call (op # ops) (h, c) =
     (let (rx, h') = (if op_t op = OT_COMMAND
            then (case hw (commandCode (op_p op) AND 0xF0) (payload (op_p op)) h of (r, h) \<Rightarrow> (Some (answer 0 r), h))
            else (None, h));
          (x, c') = (case op_cb op of None \<Rightarrow> (0, c)
            | Some cb \<Rightarrow> call cb True (if op_t op = OT_COMMAND then Some (op_p op) else None) rx c)
      in if x < 0 then None else run_ops hw call ops (h', c'))"

text \<open>
  The callback of an operation does not look at sequence numbers and checksums, nor behind the
  payload of the reply.
\<close>

definition same_command :: "packet \<Rightarrow> packet \<Rightarrow> bool" where
  "same_command p q \<longleftrightarrow> pk_data p = pk_data q \<and> pk_len p = pk_len q \<and> commandCode p AND 0xF0 = commandCode q AND 0xF0"

definition blind :: "'h hardware \<Rightarrow> ('cb, 'c) call \<Rightarrow> 'cb operation \<Rightarrow> bool" where
  "blind hw call op \<longleftrightarrow> (\<forall>cb tx tx' rx rx' c h. op_cb op = Some cb \<longrightarrow> same_command tx (op_p op) \<longrightarrow>
     same_command tx' (op_p op) \<longrightarrow> payload rx = snd (fst (hw (commandCode (op_p op) AND 0xF0) (payload (op_p op)) h)) \<longrightarrow>
     payload rx' = payload rx \<longrightarrow> call cb True (Some tx) (Some rx) c = call cb True (Some tx') (Some rx') c)"

lemma nibble_sequence: "(x AND 0xF0 OR (y AND 0x0F)) AND 0xF0 = x AND 0xF0" "(x AND 0xF0 OR (y AND 0x0F)) AND 0x0F = y AND 0x0F"
  for x y :: u8
  by (simp_all add: word_ao_dist and.assoc)

lemma stamp_simps [simp]:
  "pk_data (stamp i p) = pk_data p" "pk_len (stamp i p) = pk_len p" "payload (stamp i p) = payload p"
  "commandCode (stamp i p) AND 0xF0 = commandCode p AND 0xF0" "same_command (stamp i p) p"
  "pk_crc (stamp i p) = crcPacket (stamp i p)"
  by (simp_all add: stamp_def setPacketSequence_def payload_def same_command_def nibble_sequence crcPacket_def)

lemma stamp_sequence: "i < 16 \<Longrightarrow> getPacketSequence (stamp i p) = i"
proof -
  assume i: "i < 16"
  have "unat (word_of_nat i AND 0x0F :: u8) = i AND 15"
    using i by (simp add: unsigned_and_eq unsigned_of_nat take_bit_eq_mod)
  also have "\<dots> = take_bit 4 i" by (simp add: take_bit_eq_mask mask_eq_exp_minus_1)
  also have "\<dots> = i" using i by (simp add: take_bit_eq_mod)
  finally show ?thesis by (simp add: getPacketSequence_def stamp_def setPacketSequence_def nibble_sequence)
qed

lemma same_command_trans: "same_command p q \<Longrightarrow> same_command q r \<Longrightarrow> same_command p r"
  "same_command p q \<Longrightarrow> same_command q p" "same_command p p"
  by (simp_all add: same_command_def)

lemma blind_same: "same_command p (op_p op) \<Longrightarrow> blind hw call (op\<lparr>op_p := p\<rparr>) = blind hw call op"
  unfolding blind_def by (auto simp: same_command_def payload_def)

section \<open>The link when nothing is lost\<close>

definition lossless :: "('cb, 'c) link \<Rightarrow> bool" where
  "lossless L \<longleftrightarrow> again L = [] \<and> length (flying L) \<le> 4 \<and> next_tx L < 16 \<and>
     list_all command_ok (flying L) \<and> list_all operation_ok (waiting L) \<and>
     (\<forall>k < length (flying L). getPacketSequence (op_p (flying L ! k)) = (next_rx L + k) mod 16) \<and>
     ring_ok (debugTxBuf (line L)) \<and> ring_contents (debugTxBuf (line L)) = chars_of (map op_p (flying L))"

lemma chars_of_simps [simp]: "chars_of [] = []" "chars_of (p # ps) = map uint (packet_bytes p) @ 256 # chars_of ps"
  "chars_of (ps @ qs) = chars_of ps @ chars_of qs"
  by (simp_all add: chars_of_def)

lemma chars_of_length: "list_all packet_ok ps \<Longrightarrow> length (chars_of ps) \<le> 33 * length ps"
  by (induction ps) (auto simp: packet_bytes_length packet_ok_def)

lemma frames_bytes: "frames us (map uint bs @ 256 # ds) = (if good_frame (us @ bs) then [us @ bs] else []) @ frames [] ds"
proof (induction bs arbitrary: us)
  case (Cons b bs)
  have "uint b \<le> 255" using uint_lt2p [of b] by simp
  with Cons show ?case by simp
qed simp

lemma leftover_bytes: "leftover us (map uint (bs :: u8 list) @ 256 # ds) = leftover [] ds"
proof (induction bs arbitrary: us)
  case (Cons b bs)
  have "uint b \<le> 255" using uint_lt2p [of b] by simp
  with Cons show ?case by simp
qed simp

lemma frames_chars_of:
  "list_all packet_ok ps \<Longrightarrow> frames [] (chars_of ps) = map packet_bytes ps \<and> leftover [] (chars_of ps) = []"
  by (induction ps) (simp_all add: frames_bytes leftover_bytes packet_bytes_good)

lemma frame_view_bytes: "frame_view (packet_bytes p) = packet_view p"
  by (simp add: frame_view_def packet_view_def packet_bytes_def)

lemma debugSend_push:
  assumes "ring_ok (debugTxBuf s)" "ring_count (debugTxBuf s) + length ds \<le> 256"
  shows "ring_ok (debugTxBuf (fold serial_debugSend ds s)) \<and>
    ring_contents (debugTxBuf (fold serial_debugSend ds s)) = ring_contents (debugTxBuf s) @ map to_short ds"
  using assms
proof (induction ds arbitrary: s)
  case (Cons d ds)
  then have nf: "\<not> ringBufFull (debugTxBuf s)" by (simp add: ringBufFull_def SERIAL_BUFFER_SIZE_def)
  then have d: "debugTxBuf (serial_debugSend d s) = snd (ringBufPush d (debugTxBuf s))" by (simp add: serial_debugSend_def)
  note p = ring_push [OF Cons.prems(1) nf, of d]
  have "ring_count (debugTxBuf (serial_debugSend d s)) = ring_count (debugTxBuf s) + 1"
    using p unfolding d ring_contents_length [symmetric] by simp
  with Cons.IH [of "serial_debugSend d s"] Cons.prems p d show ?case by simp
qed simp

lemma transmit_push:
  assumes "packet_ok p" "ring_ok (debugTxBuf s)" "ring_count (debugTxBuf s) \<le> 200"
  shows "ring_ok (debugTxBuf (snd (transmitPacket p s)))"
    "ring_contents (debugTxBuf (snd (transmitPacket p s))) = ring_contents (debugTxBuf s) @ map uint (packet_bytes p) @ [256]"
  using debugSend_push [OF assms(2), of "map uint (packet_bytes p) @ [256]"] assms(1,3)
  by (simp_all add: transmitPacket_def Let_def packet_chars_bytes packet_bytes_length packet_ok_def comp_def)

lemma next_rx_issue: "next_tx L < 16 \<Longrightarrow> length (flying L) < 4 \<Longrightarrow> next_rx (link_issue op L) = next_rx L"
  by (auto simp: next_rx_def [folded ahead_def] ahead_if link_issue_def Let_def next_seq_if)

lemma next_tx_rx: "next_tx L < 16 \<Longrightarrow> length (flying L) \<le> 4 \<Longrightarrow> (next_rx L + length (flying L)) mod 16 = next_tx L"
  by (simp add: next_rx_def mod_add_left_eq)

lemma lossless_issue:
  assumes "lossless L" "command_ok op" "length (flying L) < 4"
  shows "lossless (link_issue op L)"
proof -
  let ?p = "stamp (next_tx L) (op_p op)" and ?M = "link_issue op L"
  from assms(1) have L: "again L = []" "next_tx L < 16" "list_all command_ok (flying L)" "list_all operation_ok (waiting L)"
    "\<forall>k < length (flying L). getPacketSequence (op_p (flying L ! k)) = (next_rx L + k) mod 16"
    "ring_ok (debugTxBuf (line L))" "ring_contents (debugTxBuf (line L)) = chars_of (map op_p (flying L))"
    by (simp_all add: lossless_def)
  have M: "flying ?M = flying L @ [op\<lparr>op_p := ?p\<rparr>]" "line ?M = snd (transmitPacket ?p (line L))" "again ?M = again L"
    "waiting ?M = waiting L" "next_tx ?M = next_seq (next_tx L)"
    by (simp_all add: link_issue_def Let_def)
  have "list_all packet_ok (map op_p (flying L))" using L(3) by (simp add: list_all_iff command_ok_def)
  from chars_of_length [OF this] have "ring_count (debugTxBuf (line L)) \<le> 200"
    using assms(3) unfolding ring_contents_length [symmetric] L(7) by simp
  from transmit_push [OF _ L(6) this, of ?p] assms(2) have t: "ring_ok (debugTxBuf (line ?M))"
    "ring_contents (debugTxBuf (line ?M)) = chars_of (map op_p (flying ?M))"
    by (simp_all add: M L(7) command_ok_def)
  have "getPacketSequence (op_p (flying ?M ! k)) = (next_rx ?M + k) mod 16" if "k < length (flying ?M)" for k
  proof (cases "k < length (flying L)")
    case True
    with L(5) show ?thesis by (simp add: M(1) nth_append next_rx_issue [OF L(2) assms(3)])
  next
    case False
    with that have "k = length (flying L)" by (simp add: M(1))
    with next_tx_rx [OF L(2)] assms(3) show ?thesis
      by (simp add: M(1) nth_append next_rx_issue [OF L(2) assms(3)] stamp_sequence L(2))
  qed
  with t L assms(2,3) show ?thesis
    by (simp add: lossless_def M next_seq_def command_ok_def)
qed

subsection \<open>Sending keeps the meaning\<close>

lemma run_ops_append: "run_ops hw call (xs @ ys) x = Option.bind (run_ops hw call xs x) (run_ops hw call ys)"
  by (induction hw call xs x rule: run_ops.induct) (auto simp: Let_def split: prod.split)

lemma payload_answer: "length (snd r) \<le> 30 \<Longrightarrow> payload (answer q r) = snd r"
  by (simp add: payload_def answer_def)

definition hw_ok :: "'h hardware \<Rightarrow> bool" where
  "hw_ok hw \<longleftrightarrow> (\<forall>code pl h. length (snd (fst (hw code pl h))) \<le> 30)"

lemma run_ops_same:
  assumes "hw_ok hw" "blind hw call op" "same_command p (op_p op)" "op_t op = OT_COMMAND"
  shows "run_ops hw call (op\<lparr>op_p := p\<rparr> # ops) x = run_ops hw call (op # ops) x"
proof -
  obtain h c where x: "x = (h, c)" by force
  have same: "commandCode p AND 0xF0 = commandCode (op_p op) AND 0xF0" "payload p = payload (op_p op)"
    using assms(3) by (simp_all add: same_command_def payload_def)
  obtain r h' where r: "hw (commandCode (op_p op) AND 0xF0) (payload (op_p op)) h = (r, h')"
    using prod.exhaust by blast
  then have "payload (answer 0 r) = snd (fst (hw (commandCode (op_p op) AND 0xF0) (payload (op_p op)) h))"
    using assms(1) by (metis fst_conv hw_ok_def payload_answer)
  with assms(2,3) have "call cb True (Some p) (Some (answer 0 r)) c = call cb True (Some (op_p op)) (Some (answer 0 r)) c"
    if "op_cb op = Some cb" for cb
    using that unfolding blind_def by (metis same_command_trans(3))
  then show ?thesis by (simp add: x assms(4) same r split: option.split)
qed

abbreviation work :: "('cb, 'c) link \<Rightarrow> nat" where
  "work L \<equiv> 2 * length (waiting L) + length (flying L)"

lemma link_run_lossless:
  assumes "lossless L" "hw_ok hw" "list_all (blind hw call) (flying L @ waiting L)"
    and "run_ops hw call (flying L @ waiting L) (h, client L) = Some res"
  shows "\<exists>L'. link_run call L = (0, L') \<and> lossless L' \<and> list_all (blind hw call) (flying L' @ waiting L') \<and>
    run_ops hw call (flying L' @ waiting L') (h, client L') = Some res \<and>
    work L' \<le> work L - (if flying L = [] \<and> waiting L \<noteq> [] then 1 else 0)"
  using assms
proof (induction call L rule: link_run.induct)
  case (1 call L)
  note run = link_run.simps [of call L]
  show ?case
  proof (cases "waiting L")
    case Nil
    with 1(4-) show ?thesis by (intro exI [of _ L]) (simp add: run)
  next
    case (Cons op ops)
    show ?thesis
    proof (cases "op_t op")
      case OT_COMMAND
      show ?thesis
      proof (cases "length (flying L) < 4")
        case True
        let ?M = "link_issue op (L\<lparr>waiting := ops\<rparr>)"
        have ok: "command_ok op" "lossless (L\<lparr>waiting := ops\<rparr>)"
          using 1(4) OT_COMMAND Cons by (auto simp: lossless_def command_ok_def operation_ok_def next_rx_def)
        have M: "lossless ?M" using lossless_issue [OF ok(2,1)] True by simp
        have fl: "flying ?M = flying L @ [op\<lparr>op_p := stamp (next_tx L) (op_p op)\<rparr>]" "waiting ?M = ops" "client ?M = client L"
          by (simp_all add: link_issue_def Let_def)
        have b: "blind hw call op" using 1(6) Cons by simp
        then have bM: "list_all (blind hw call) (flying ?M @ waiting ?M)"
          using 1(6) Cons unfolding fl by (simp add: blind_same)
        have "run_ops hw call (op\<lparr>op_p := stamp (next_tx L) (op_p op)\<rparr> # ops) = run_ops hw call (op # ops)"
          by (rule ext) (rule run_ops_same [OF 1(5) b stamp_simps(5) OT_COMMAND])
        then have "run_ops hw call (flying ?M @ waiting ?M) (h, client ?M) = Some res"
          using 1(7) Cons unfolding fl by (simp add: run_ops_append)
        from 1(1) [OF Cons OT_COMMAND _ M 1(5) bM this] True obtain L' where
          "link_run call ?M = (0, L')" "lossless L'" "list_all (blind hw call) (flying L' @ waiting L')"
          "run_ops hw call (flying L' @ waiting L') (h, client L') = Some res" "work L' \<le> work ?M" by fastforce
        then show ?thesis
          using Cons OT_COMMAND True fl by (intro exI [of _ L']) (auto simp: run)
      next
        case False
        with Cons OT_COMMAND 1(4-) show ?thesis by (intro exI [of _ L]) (auto simp: run)
      qed
    next
      case OT_BARRIER
      have again: "again L = []" using 1(4) by (simp add: lossless_def)
      show ?thesis
      proof (cases "flying L = []")
        case False
        with Cons OT_BARRIER 1(4-) show ?thesis by (intro exI [of _ L]) (simp add: run)
      next
        case idle: True
        obtain x c where xc: "(case op_cb op of None \<Rightarrow> (0, client L) | Some cb \<Rightarrow> call cb True None None (client L)) = (x, c)" by force
        let ?M = "L\<lparr>client := c, waiting := ops\<rparr>"
        have r: "\<not> x < 0" "run_ops hw call (flying ?M @ waiting ?M) (h, client ?M) = Some res"
          using 1(7) Cons OT_BARRIER idle xc by (simp_all split: if_splits)
        have M: "lossless ?M" "list_all (blind hw call) (flying ?M @ waiting ?M)"
          using 1(4,6) Cons by (auto simp: lossless_def next_rx_def)
        have "link_run call L = link_run call ?M \<and> (\<exists>L'. link_run call ?M = (0, L') \<and> lossless L' \<and>
            list_all (blind hw call) (flying L' @ waiting L') \<and>
            run_ops hw call (flying L' @ waiting L') (h, client L') = Some res \<and>
            work L' \<le> work ?M - (if flying ?M = [] \<and> waiting ?M \<noteq> [] then 1 else 0))"
        proof (cases "op_cb op")
          case None
          with xc have m: "L\<lparr>waiting := ops\<rparr> = ?M" by (intro link.equality) auto
          show ?thesis
            using None Cons OT_BARRIER idle again M r(2) 1(5) 1(2) [OF Cons OT_BARRIER _ None] unfolding m by (simp add: run m)
        next
          case (Some cb)
          show ?thesis
            using Some Cons OT_BARRIER idle again M r xc 1(5) 1(3) [OF Cons OT_BARRIER _ Some _ refl] by (simp add: run Let_def)
        qed
        then obtain L' where "link_run call L = (0, L')" "lossless L'" "list_all (blind hw call) (flying L' @ waiting L')"
          "run_ops hw call (flying L' @ waiting L') (h, client L') = Some res" "work L' \<le> work ?M" by fastforce
        with Cons show ?thesis by (intro exI [of _ L']) auto
      qed
    qed
  qed
qed

subsection \<open>Replies\<close>

lemma serve_length: "length (fst (serve hw fs h)) = length fs"
  by (induction hw fs h rule: serve.induct) (auto simp: Let_def split: prod.split)

lemma serve_ok: "hw_ok hw \<Longrightarrow> list_all packet_ok (fst (serve hw fs h))"
proof (induction hw fs h rule: serve.induct)
  case (2 hw f fs h)
  then have "length (snd (fst (hw (hd f AND 0xF0) (butlast (tl f)) h))) \<le> 30" by (auto simp: hw_ok_def)
  with 2 show ?case by (auto simp: Let_def packet_ok_def answer_def split: prod.split)
qed simp

lemma answer_sequence: "packet_view rx = packet_view (answer (commandCode p) r) \<Longrightarrow> getPacketSequence rx = getPacketSequence p"
  by (simp add: packet_view_def getPacketSequence_def answer_def nibble_sequence)

lemma link_reply_first:
  assumes "flying L = op # ops" "getPacketSequence rx = next_rx L"
  shows "link_reply call rx L = (case (case op_cb op of None \<Rightarrow> (0, client L)
      | Some cb \<Rightarrow> call cb True (Some (op_p op)) (Some rx) (client L)) of
    (r, c) \<Rightarrow> if r < 0 then (-1, L\<lparr>client := c\<rparr>) else (1, L\<lparr>client := c, flying := ops\<rparr>))"
proof -
  have k: "(getPacketSequence rx + 16 - next_rx L) mod 16 = 0" unfolding assms(2) by simp
  show ?thesis unfolding link_reply_def Let_def k requeue_zero assms(1) nth_Cons_0 list.sel(3) by (rule refl)
qed

lemma replies_lossless:
  assumes "hw_ok hw" "length (flying L) \<le> 4" "next_tx L < 16" "list_all command_ok (flying L)"
    and "\<forall>k < length (flying L). getPacketSequence (op_p (flying L ! k)) = (next_rx L + k) mod 16"
    and "list_all (blind hw call) (flying L)" "run_ops hw call (flying L @ W) (h, client L) = Some res"
    and "serve hw (map packet_bytes (map op_p (flying L))) h = (ps, h')" "map packet_view rxs = map packet_view ps"
  shows "in_step (next_rx L) (length (flying L)) (map getPacketSequence rxs)"
    and "\<exists>c. link_replies call got rxs L = (if flying L = [] then got else 1, L\<lparr>flying := [], client := c\<rparr>) \<and>
      run_ops hw call W (h', c) = Some res"
proof -
  have "in_step (next_rx L) (length (flying L)) (map getPacketSequence rxs) \<and>
    (\<exists>c. link_replies call got rxs L = (if flying L = [] then got else 1, L\<lparr>flying := [], client := c\<rparr>) \<and>
      run_ops hw call W (h', c) = Some res)"
    using assms(2-)
  proof (induction "flying L" arbitrary: L got h ps rxs)
    case Nil
    have "L = L\<lparr>flying := [], client := client L\<rparr>" using Nil(1) by (intro link.equality) simp_all
    with Nil show ?case by (intro conjI exI [of _ "client L"]) auto
  next
    case (Cons op ops)
    note fl = Cons.hyps(2) [symmetric]
    obtain r h1 where r: "hw (commandCode (op_p op) AND 0xF0) (payload (op_p op)) h = (r, h1)" using prod.exhaust by blast
    obtain qs where qs: "serve hw (map packet_bytes (map op_p ops)) h1 = (qs, h')" "ps = answer (commandCode (op_p op)) r # qs"
      using Cons.prems(7) r by (auto simp: fl packet_bytes_def Let_def split: prod.splits)
    obtain rx rs where rx: "rxs = rx # rs" "packet_view rx = packet_view (answer (commandCode (op_p op)) r)"
      "map packet_view rs = map packet_view qs"
      using Cons.prems(8) qs(2) by auto
    have sq: "getPacketSequence rx = next_rx L"
      using answer_sequence [OF rx(2)] Cons.prems(4) [unfolded fl] by (auto simp: next_rx_def)
    have "length (snd r) \<le> 30" using assms(1) r by (metis fst_conv hw_ok_def)
    then have pl: "payload rx = snd (fst (hw (commandCode (op_p op) AND 0xF0) (payload (op_p op)) h))"
      "payload (answer 0 r) = payload rx"
      using rx(2) r by (simp_all add: packet_view_def payload_answer)
    have cmd: "op_t op = OT_COMMAND" using Cons.prems(3) by (simp add: fl command_ok_def)
    obtain x c where xc: "(case op_cb op of None \<Rightarrow> (0, client L)
        | Some cb \<Rightarrow> call cb True (Some (op_p op)) (Some (answer 0 r)) (client L)) = (x, c)" by force
    have eq: "(case op_cb op of None \<Rightarrow> (0, client L)
        | Some cb \<Rightarrow> call cb True (Some (op_p op)) (Some rx) (client L)) = (x, c)"
    proof (cases "op_cb op")
      case (Some cb)
      have "blind hw call op" using Cons.prems(5) by (simp add: fl)
      with Some pl have "call cb True (Some (op_p op)) (Some rx) (client L) =
          call cb True (Some (op_p op)) (Some (answer 0 r)) (client L)"
        unfolding blind_def by (metis same_command_trans(3))
      with xc Some show ?thesis by simp
    qed (use xc in simp)
    have x: "\<not> x < 0" "run_ops hw call (ops @ W) (h1, c) = Some res"
      using Cons.prems(6) xc cmd by (simp_all add: fl r split: if_splits)
    let ?M = "L\<lparr>client := c, flying := ops\<rparr>"
    have reply: "link_reply call rx L = (1, ?M)" using link_reply_first [OF fl sq] eq x(1) by simp
    have n: "next_rx ?M = next_seq (next_rx L)"
      using Cons.prems(1,2) fl by (auto simp: next_rx_def [folded ahead_def] ahead_if next_seq_if)
    have "in_step (next_rx ?M) (length (flying ?M)) (map getPacketSequence rs) \<and>
      (\<exists>c'. link_replies call 1 rs ?M = (if flying ?M = [] then 1 else 1, ?M\<lparr>flying := [], client := c'\<rparr>) \<and>
        run_ops hw call W (h', c') = Some res)"
    proof (rule Cons.hyps(1))
      show "\<forall>k < length (flying ?M). getPacketSequence (op_p (flying ?M ! k)) = (next_rx ?M + k) mod 16"
        using Cons.prems(4) unfolding n fl by (auto simp: next_seq_def mod_add_left_eq)
    qed (use Cons.prems x(2) qs(1) rx(3) in \<open>simp_all add: fl\<close>)
    moreover have "ahead (getPacketSequence rx) (next_rx L) = 0" by (simp add: ahead_def sq)
    ultimately show ?case
      using rx(1) reply sq by (auto simp: n fl)
  qed
  then show "in_step (next_rx L) (length (flying L)) (map getPacketSequence rxs)"
    "\<exists>c. link_replies call got rxs L = (if flying L = [] then got else 1, L\<lparr>flying := [], client := c\<rparr>) \<and>
      run_ops hw call W (h', c) = Some res" by auto
qed

section \<open>Rounds\<close>

definition steady :: "'h hardware \<Rightarrow> ('cb, 'c) call \<Rightarrow> 'h \<times> 'c \<Rightarrow> ('cb, 'c) commands \<times> 'h \<Rightarrow> bool" where
  "steady hw call res x \<longleftrightarrow> (case x of (s, h) \<Rightarrow>
     window_ok s \<and> reading [] s \<and> ring_contents (debugRxBuf (port s)) = [] \<and> lossless (link_of s) \<and>
     list_all (blind hw call) (window s @ queue_contents (opQueue s)) \<and>
     run_ops hw call (window s @ queue_contents (opQueue s)) (h, upper s) = Some res)"

lemma exchange_lossless:
  assumes "lossless (link_of s)" "reading [] s" "ring_contents (debugRxBuf (port s)) = []" "hw_ok hw"
    and "serve hw (map packet_bytes (map op_p (window s))) h = (ps, h')"
  obtains io where "exchange hw h (port s) = (io, h')" "reading [] (s\<lparr>port := io\<rparr>)"
    "arrivals [] (s\<lparr>port := io\<rparr>) = map packet_view ps" "unread [] (s\<lparr>port := io\<rparr>) = []"
    "ring_ok (debugTxBuf io)" "ring_contents (debugTxBuf io) = []"
proof -
  let ?push = "\<lambda>d b. snd (ringBufPush d b)"
  define io where "io = (port s)\<lparr>debugTxBuf := ringBufReset (debugTxBuf (port s)),
    debugRxBuf := fold ?push (chars_of ps) (debugRxBuf (port s))\<rparr>"
  have L: "list_all packet_ok (map op_p (window s))" "ring_contents (debugTxBuf (port s)) = chars_of (map op_p (window s))"
    "outstanding s \<le> 4" "ring_ok (debugTxBuf (port s))"
    using assms(1) by (simp_all add: lossless_def list_all_iff command_ok_def)
  have ps: "list_all packet_ok ps" "length ps = outstanding s"
    using serve_ok [OF assms(4), of "map packet_bytes (map op_p (window s))" h]
      serve_length [of hw "map packet_bytes (map op_p (window s))" h] assms(5) by auto
  have len: "length (chars_of ps) \<le> 132" using chars_of_length [OF ps(1)] ps(2) L(3) by simp
  have ex: "exchange hw h (port s) = (io, h')"
    using frames_chars_of [OF L(1)] by (simp add: exchange_def L(2) io_def assms(5) [simplified])
  from assms(2) have r: "ring_ok (debugRxBuf (port s))" by (simp add: reading_def)
  have "ring_ok (debugRxBuf io) \<and> ring_contents (debugRxBuf io) = map to_short (chars_of ps)"
    using ring_fifo.push_all [of "debugRxBuf (port s)" "chars_of ps", OF _ r] len assms(3)
    by (simp add: io_def ringBufFull_def SERIAL_BUFFER_SIZE_def flip: ring_contents_length)
  moreover have "map to_short (chars_of ps) = chars_of ps" by (induction ps) (auto simp: comp_def)
  ultimately have rx: "ring_ok (debugRxBuf io)" "ring_contents (debugRxBuf io) = chars_of ps" by simp_all
  have "\<forall>d \<in> set (chars_of ps). 0 \<le> d" by (induction ps) auto
  with assms(2) rx have "reading [] (s\<lparr>port := io\<rparr>)" by (simp add: reading_def)
  moreover have "arrivals [] (s\<lparr>port := io\<rparr>) = map packet_view ps" "unread [] (s\<lparr>port := io\<rparr>) = []"
    using frames_chars_of [OF ps(1)] by (simp_all add: arrivals_def unread_def rx comp_def frame_view_bytes)
  moreover have "ring_ok (debugTxBuf io)" "ring_contents (debugTxBuf io) = []"
    using L(4) by (simp_all add: io_def ringBufReset_def ring_ok_def ring_contents_def)
  ultimately show thesis using ex that by blast
qed

lemma link_transmit_lossless: "again L = [] \<Longrightarrow> link_transmit call L = link_run call L"
  by (simp add: link_transmit_def link_reissue.simps [of L])

lemma round_steady:
  assumes "steady hw call res (s, h)" "hw_ok hw"
  shows "\<exists>s' h'. round hw call now (s, h) = (s', h') \<and> steady hw call res (s', h') \<and>
    work (link_of s') \<le> work (link_of s) - 1"
proof -
  from assms(1) have s: "window_ok s" "reading [] s" "ring_contents (debugRxBuf (port s)) = []" "lossless (link_of s)"
    "list_all (blind hw call) (window s @ queue_contents (opQueue s))"
    "run_ops hw call (window s @ queue_contents (opQueue s)) (h, upper s) = Some res"
    by (simp_all add: steady_def)
  from s(4) have L: "length (window s) \<le> 4" "txSeqCounter s < 16" "list_all command_ok (window s)"
    "\<forall>k < length (window s). getPacketSequence (op_p (window s ! k)) = (next_rx (link_of s) + k) mod 16"
    "queue_contents (reissueQueue s) = []" "list_all operation_ok (queue_contents (opQueue s))"
    by (simp_all add: lossless_def)
  obtain ps h' where ps: "serve hw (map packet_bytes (map op_p (window s))) h = (ps, h')" by force
  from exchange_lossless [OF s(4,2,3) assms(2) ps] obtain io where io: "exchange hw h (port s) = (io, h')"
    "reading [] (s\<lparr>port := io\<rparr>)" "arrivals [] (s\<lparr>port := io\<rparr>) = map packet_view ps" "unread [] (s\<lparr>port := io\<rparr>) = []"
    "ring_ok (debugTxBuf io)" "ring_contents (debugTxBuf io) = []" by blast
  let ?t = "s\<lparr>port := io\<rparr>"
  have t: "window_ok ?t" "window ?t = window s" "link_of ?t = (link_of s)\<lparr>line := io\<rparr>" "next_rx (link_of ?t) = next_rx (link_of s)"
    using s(1) by (auto simp: window_ok_def link_of_def window_def next_rx_def)
  obtain qs where qs: "map packet_view qs = map packet_view ps" by blast
  have rep: "in_step (next_rx (link_of ?t)) (length (flying (link_of ?t))) (map getPacketSequence rxs)"
    "\<exists>c. link_replies call got rxs (link_of ?t) =
        (if flying (link_of ?t) = [] then got else 1, (link_of ?t)\<lparr>flying := [], client := c\<rparr>) \<and>
      run_ops hw call (queue_contents (opQueue s)) (h', c) = Some res"
    if "map packet_view rxs = map packet_view ps" for rxs got
    using replies_lossless(1) [OF assms(2), of "link_of ?t" call "queue_contents (opQueue s)" h res ps h' rxs]
      replies_lossless(2) [OF assms(2), of "link_of ?t" call "queue_contents (opQueue s)" h res ps h' rxs got] L s(5,6) ps that
    by (simp_all add: t(2,4))
  have in_step: "in_step (rxSeqCounter ?t) (outstanding ?t) (map view_seq (arrivals [] ?t))"
    using rep(1) [OF qs] next_rx_link_of [OF t(1)] unfolding io(3) qs [symmetric] by (simp add: view_seq_packet comp_def)
  obtain r s' where u: "debugCommands_update call now ?t = (r, s')" by force
  from update_window [OF t(1) io(2) in_step u] obtain rxs ring bs' where
    w: "map packet_view rxs = arrivals [] ?t" "window_ok s'" "reading bs' s'"
      "0 \<le> r \<longrightarrow> bs' = [] \<and> ring_contents (debugRxBuf (port s')) = []"
      "link_update call now rxs (io\<lparr>debugRxBuf := ring\<rparr>) (link_of ?t) = (r, link_of s')"
    unfolding io(4) by auto
  from rep(2) [of rxs 0] w(1) io(3) obtain c where
    c: "link_replies call 0 rxs (link_of ?t) = (if window s = [] then 0 else 1, (link_of ?t)\<lparr>flying := [], client := c\<rparr>)"
      "run_ops hw call (queue_contents (opQueue s)) (h', c) = Some res" by (auto simp: t(2))
  define K where "K = (link_of s)\<lparr>flying := [], client := c, timer := (now, 0), line := io\<lparr>debugRxBuf := ring\<rparr>\<rparr>"
  have K: "lossless K" "flying K = []" "waiting K = queue_contents (opQueue s)" "client K = c" "again K = []"
    using L io(5,6) by (simp_all add: K_def lossless_def)
  have "list_all (blind hw call) (flying K @ waiting K)" "run_ops hw call (flying K @ waiting K) (h', client K) = Some res"
    using s(5) c(2) K by simp_all
  from link_run_lossless [OF K(1) assms(2) this] obtain M where M: "link_run call K = (0, M)" "lossless M"
    "list_all (blind hw call) (flying M @ waiting M)" "run_ops hw call (flying M @ waiting M) (h', client M) = Some res"
    "work M \<le> work K - (if waiting K \<noteq> [] then 1 else 0)" by (auto simp: K(2))
  have "link_timeout call now got (((link_of ?t)\<lparr>flying := [], client := c\<rparr>)\<lparr>line := io\<lparr>debugRxBuf := ring\<rparr>\<rparr>) = (0, K)" for got
  proof -
    have "((link_of ?t)\<lparr>flying := [], client := c\<rparr>)\<lparr>line := io\<lparr>debugRxBuf := ring\<rparr>, timer := (now, 0)\<rparr> = K"
      unfolding t(3) K_def by (rule link.equality) simp_all
    then show ?thesis using L(5) by (simp add: link_timeout_def link_idle_def)
  qed
  then have "r \<ge> 0" "link_of s' = M"
    using w(5) M(1) link_transmit_lossless [OF K(5), of call] by (auto simp: link_update_def c(1) Let_def split: if_splits)
  moreover have "round hw call now (s, h) = (s', h')"
    by (simp add: round_def io(1) u)
  moreover have "work M \<le> work (link_of s) - 1"
    using M(5) K(2,3) by (cases "queue_contents (opQueue s)") auto
  ultimately show ?thesis
    using w(2-4) M by (intro exI [of _ s'] exI [of _ h']) (auto simp: steady_def)
qed

lemma rounds_steady:
  assumes "steady hw call res x" "hw_ok hw"
  shows "steady hw call res (rounds hw call clock n x) \<and>
    work (link_of (fst (rounds hw call clock n x))) \<le> work (link_of (fst x)) - n"
proof (induction n)
  case (Suc n)
  obtain s h where y: "rounds hw call clock n x = (s, h)" by force
  with Suc round_steady [of hw call res s h "clock n"] assms(2) show ?case by force
qed (use assms in simp)

text \<open>Nothing is under way: all queues are empty and nothing is half received.\<close>

definition quiet :: "('cb, 'c) commands \<Rightarrow> bool" where
  "quiet s \<longleftrightarrow> window_ok s \<and> reading [] s \<and> ring_contents (debugRxBuf (port s)) = [] \<and> lossless (link_of s) \<and>
     window s = [] \<and> queue_contents (opQueue s) = []"

lemma quiet_initial: "quiet (initial_commands c :: ('cb, 'c) commands)"
proof -
  let ?s = "initial_commands c :: ('cb, 'c) commands"
  have io: "ring_contents (debugRxBuf initial_serial) = []" "ring_contents (debugTxBuf initial_serial) = []"
    "ring_ok (debugTxBuf initial_serial)"
    by (simp_all add: initial_serial_def zero_ring_def ring_contents_def ring_ok_def SERIAL_BUFFER_SIZE_def)
  have w: "window_ok ?s" "reading [] ?s" by (rule initial_window)+
  have "link_of ?s = \<lparr>flying = [], again = [], waiting = [], next_tx = 0, timer = (0, 0), line = initial_serial, client = c\<rparr>"
    by (rule initial_window)
  from this [THEN arg_cong, of flying] this [THEN arg_cong, of waiting] this [THEN arg_cong, of again]
    this [THEN arg_cong, of line] this [THEN arg_cong, of next_tx]
  have "window ?s = []" "queue_contents (opQueue ?s) = []" "queue_contents (reissueQueue ?s) = []"
    "port ?s = initial_serial" "txSeqCounter ?s = 0"
    by (simp_all only: link_of_sel link.simps)
  with w io show ?thesis by (simp add: quiet_def lossless_def)
qed

lemma quiet_upper: "quiet s \<Longrightarrow> quiet (s\<lparr>upper := c\<rparr>)"
proof -
  assume q: "quiet s"
  have "ring_contents (debugRxBuf (port (s\<lparr>upper := c\<rparr>))) = ring_contents (debugRxBuf (port s))"
    "reading [] (s\<lparr>upper := c\<rparr>) = reading [] s" "window (s\<lparr>upper := c\<rparr>) = window s"
    by (simp_all add: reading_def window_def)
  with q show ?thesis by (simp add: quiet_def link_of_upper lossless_def next_rx_def)
qed

lemma queued_state:
  "window_ok s \<Longrightarrow> reading [] s \<Longrightarrow> \<forall>op \<in> set ops. operation_ok op \<Longrightarrow>
    window_ok (fold debugCommands_queue ops s) \<and> reading [] (fold debugCommands_queue ops s) \<and>
    link_of (fold debugCommands_queue ops s) = (link_of s)\<lparr>waiting := waiting (link_of s) @ ops\<rparr>"
proof (induction ops rule: rev_induct)
  case Nil
  have "link_of s = (link_of s)\<lparr>waiting := waiting (link_of s)\<rparr>" by (rule link.equality) simp_all
  with Nil show ?case by simp
next
  case (snoc op ops)
  then show ?case using queue_window [of "fold debugCommands_queue ops s" op] by simp
qed

lemma steady_done:
  assumes "steady hw call (h', c') (s, h)" "work (link_of s) = 0"
  shows "isDone s \<and> h = h' \<and> upper s = c' \<and> quiet s"
proof -
  from assms have w: "window_ok s" "window s = []" "queue_contents (opQueue s) = []" "queue_contents (reissueQueue s) = []"
    by (auto simp: steady_def lossless_def simp flip: length_0_conv)
  then show ?thesis
    using assms(1) isIdle_window [OF w(1)] op_fifo.front_None [OF window_okD(6) [OF w(1)]]
    by (simp add: isDone_def steady_def quiet_def)
qed

lemma quiet_queue: "quiet s \<Longrightarrow> \<forall>op \<in> set ops. operation_ok op \<Longrightarrow> queue_contents (opQueue (fold debugCommands_queue ops s)) = ops"
  using queued_state [of s ops, THEN conjunct2, THEN conjunct2, THEN arg_cong, of waiting] by (simp add: quiet_def)

text \<open>The server runs until what is queued has been done: two rounds per operation are enough.\<close>

definition update_all :: "'h hardware \<Rightarrow> ('cb, 'c) call \<Rightarrow> (nat \<Rightarrow> u32) \<Rightarrow> ('cb, 'c) commands \<times> 'h \<Rightarrow> ('cb, 'c) commands \<times> 'h" where
  "update_all hw call clock x = rounds hw call clock (2 * length (queue_contents (opQueue (fst x)))) x"

lemma quiet_run:
  assumes "hw_ok hw" "\<forall>op \<in> set ops. operation_ok op \<and> blind hw call op" "quiet s"
    and "run_ops hw call ops (h, upper s) = Some (h', c')"
  shows "\<exists>t. rounds hw call clock (2 * length ops) (fold debugCommands_queue ops s, h) = (t, h') \<and>
    isDone t \<and> upper t = c' \<and> quiet t"
proof -
  let ?s = "fold debugCommands_queue ops s"
  from assms(3) have s: "window_ok s" "reading [] s" "ring_contents (debugRxBuf (port s)) = []" "lossless (link_of s)"
    "window s = []" "queue_contents (opQueue s) = []" by (simp_all add: quiet_def)
  then have q: "window_ok ?s" "reading [] ?s" "link_of ?s = (link_of s)\<lparr>waiting := ops\<rparr>"
    using queued_state [of s ops] assms(2) by simp_all
  have l: "window ?s = []" "queue_contents (opQueue ?s) = ops" "upper ?s = upper s" "port ?s = port s"
    using arg_cong [OF q(3), of flying] arg_cong [OF q(3), of waiting] arg_cong [OF q(3), of client]
      arg_cong [OF q(3), of line] s(5)
    by (simp_all add: link_of_sel)
  have "lossless (link_of ?s)"
    using s(4) assms(2) unfolding q(3) by (simp add: lossless_def list_all_iff next_rx_def)
  then have st: "steady hw call (h', c') (?s, h)"
    using q(1,2) s(3) assms(2,4) by (simp add: steady_def l list_all_iff)
  obtain t g where r: "rounds hw call clock (2 * length ops) (?s, h) = (t, g)" by force
  from rounds_steady [OF st assms(1), of clock "2 * length ops"] r l
  have "steady hw call (h', c') (t, g)" "work (link_of t) = 0" by simp_all
  from steady_done [OF this] r show ?thesis by simp
qed

text \<open>
  C34. Delivery: when nothing is lost and the processor answers, a queue of operations is done
  after at most two rounds of update and exchange per operation, whatever the clock shows; the
  processor and the client are then in the state that executing the operations one after the
  other gives, each with the reply to its own packet, although up to four commands are on their
  way at a time.
\<close>

theorem operations_complete_in_order:
  assumes "hw_ok hw" "\<forall>op \<in> set ops. operation_ok op \<and> blind hw call op"
    and "run_ops hw call ops (h, c) = Some (h', c')"
  shows "\<exists>s. rounds hw call clock (2 * length ops) (fold debugCommands_queue ops (initial_commands c), h) = (s, h') \<and>
    isDone s \<and> upper s = c'"
proof -
  have "run_ops hw call ops (h, upper (initial_commands c)) = Some (h', c')"
    using assms(3) by (simp add: initial_commands_def)
  from quiet_run [OF assms(1,2) quiet_initial this] show ?thesis by blast
qed

text \<open>A processor with one byte of memory, and a client that collects the bytes it is sent.\<close>

definition demo_hw :: "u8 hardware" where
  "demo_hw req pl m = (if pl = [] then ((req, [m]), m) else ((req, []), hd pl))"

definition demo_call :: "(nat, (nat \<times> u8 list) list) call" where
  "demo_call cb ok tx rx c = (0, c @ [(cb, case rx of None \<Rightarrow> [] | Some p \<Rightarrow> payload p)])"

definition demo_op :: "u8 \<Rightarrow> u8 list \<Rightarrow> nat \<Rightarrow> nat operation" where
  "demo_op req pl cb = \<lparr>op_t = OT_COMMAND, op_p = \<lparr>commandCode = req, pk_data = pl @ replicate (30 - length pl) 0,
     pk_crc = 0, pk_len = length pl\<rparr>, op_cb = Some cb\<rparr>"

theorem operations_complete_in_order_witness:
  "\<exists>s. rounds demo_hw demo_call (\<lambda>n. word_of_nat (60000 * n)) 4
      (fold debugCommands_queue [demo_op 0xB0 [0x2A] 1, demo_op 0xC0 [] 2] (initial_commands []), 0) = (s, 0x2A) \<and>
    isDone s \<and> upper s = [(1, []), (2, [0x2A])]"
proof -
  have "hw_ok demo_hw" by (simp add: hw_ok_def demo_hw_def)
  moreover have "blind demo_hw demo_call op" for op by (simp add: blind_def demo_call_def)
  moreover have "operation_ok (demo_op 0xB0 [0x2A] 1)" "operation_ok (demo_op 0xC0 [] 2)"
    by (simp_all add: operation_ok_def demo_op_def packet_ok_def)
  moreover have "run_ops demo_hw demo_call [demo_op 0xB0 [0x2A] 1, demo_op 0xC0 [] 2] (0, []) =
      Some (0x2A, [(1, []), (2, [0x2A])])"
    by (simp add: demo_op_def demo_hw_def demo_call_def payload_def answer_def)
  ultimately show ?thesis
    using operations_complete_in_order [of demo_hw "[demo_op 0xB0 [0x2A] 1, demo_op 0xC0 [] 2]" demo_call 0 "[]"] by simp
qed

end
