(* ===== verification/Debug_ReadWrite.thy ===== *)
theory Debug_ReadWrite
  imports Debug_Commands Memory_Link
begin

text \<open>
  The UART back end of the server (\<open>rvsrv/uart/debugReadWrite.c\<close>): a read or write request
  becomes a queue of operations of the command layer, bulk commands for aligned runs of words and
  volatile commands for the rest, and a reply that is sent when the last barrier is passed.

  The callback data is allocated: \<open>rw_heap\<close> maps an address to the record until it is freed.
  A callback with a pointer to a record that is not there is undefined behaviour; the model
  returns -1 and changes nothing. Requests come from \<open>parseReadWrite\<close> and have at most 4096
  bytes, so a size is a natural number. Sending to the client succeeds.
\<close>

section \<open>Callbacks\<close>

record callback_data =
  clientID :: int
  cb_address :: u32
  cb_buffer :: "u8 list option"
  bufSize :: nat
  lastFault :: bool
  lastFaultCode :: u32

record rw_state =
  rw_heap :: "nat \<Rightarrow> callback_data option"
  rw_next :: nat
  rw_sent :: "(int \<times> string) list"

datatype callback_fn = OnBulkRead | OnVolatileComplete | OnReadWriteComplete

type_synonym rw_cb = "callback_fn \<times> nat"

definition store_at :: "int \<Rightarrow> u8 \<Rightarrow> callback_data \<Rightarrow> callback_data" where
  "store_at offset d cbData =
     (if 0 \<le> offset \<and> offset < int (bufSize cbData)
      then cbData\<lparr>cb_buffer := map_option (\<lambda>b. b[nat offset := d]) (cb_buffer cbData)\<rparr> else cbData)"

fun store_from :: "int \<Rightarrow> u8 list \<Rightarrow> callback_data \<Rightarrow> callback_data" where
  "store_from offset [] cbData = cbData"
| "store_from offset (d # ds) cbData = store_from (offset + 1) ds (store_at offset d cbData)"

definition writeToReadBuffer :: "callback_data \<Rightarrow> u8 list \<Rightarrow> u8 list \<Rightarrow> nat \<Rightarrow> callback_data" where
  "writeToReadBuffer cbData addressBuf d count =
     store_from (sint (be_word (take 4 addressBuf) - cb_address cbData)) (take count d) cbData"

definition with_data :: "nat \<Rightarrow> rw_state \<Rightarrow> (callback_data \<Rightarrow> int \<times> rw_state) \<Rightarrow> int \<times> rw_state" where
  "with_data p st f = (case rw_heap st p of None \<Rightarrow> (-1, st) | Some cbData \<Rightarrow> f cbData)"

definition put_data :: "nat \<Rightarrow> callback_data \<Rightarrow> rw_state \<Rightarrow> rw_state" where
  "put_data p cbData st = st\<lparr>rw_heap := (rw_heap st)(p := Some cbData)\<rparr>"

definition onBulkRead :: "bool \<Rightarrow> packet option \<Rightarrow> packet option \<Rightarrow> nat \<Rightarrow> rw_state \<Rightarrow> int \<times> rw_state" where
  "onBulkRead success tx rx p st = with_data p st (\<lambda>cbData.
     if cb_buffer cbData = None then (-1, st)
     else if \<not> success then (0, st)
     else (case (tx, rx) of
         (Some tx, Some rx) \<Rightarrow> (0, put_data p (writeToReadBuffer cbData (pk_data tx) (pk_data rx) (pk_len rx)) st)
       | _ \<Rightarrow> (-1, st)))"

definition onVolatileComplete :: "bool \<Rightarrow> packet option \<Rightarrow> packet option \<Rightarrow> nat \<Rightarrow> rw_state \<Rightarrow> int \<times> rw_state" where
  "onVolatileComplete success tx rx p st = with_data p st (\<lambda>cbData.
     if \<not> success then (0, st)
     else (case (tx, rx) of
         (Some tx, Some rx) \<Rightarrow>
           (let cbData = (if cb_buffer cbData \<noteq> None
                  then writeToReadBuffer cbData (pk_data tx) (pk_data rx) (pk_len rx) else cbData);
                fault = bit (pk_data rx ! 4) 0;
                cbData = cbData\<lparr>lastFault := fault\<rparr>;
                cbData = (if fault then cbData\<lparr>lastFaultCode := be_word (take 4 (pk_data rx))\<rparr> else cbData)
            in (0, put_data p cbData st))
       | _ \<Rightarrow> (-1, st)))"

definition complete_reply :: "bool \<Rightarrow> callback_data \<Rightarrow> string" where
  "complete_reply success cbData =
     (if \<not> success then
        (if cb_buffer cbData \<noteq> None then ''Error, Read, CommunicationError;\<newline>'' else ''Error, Write, CommunicationError;\<newline>'')
      else (if cb_buffer cbData \<noteq> None then ''OK, Read, '' else ''OK, Write, '') @
        (if lastFault cbData then ''Fault, '' else ''OK, '') @
        hexU 8 (unat (cb_address cbData)) @ '', '' @ decU (bufSize cbData) @
        (if lastFault cbData then '', '' @ hexU 8 (unat (lastFaultCode cbData)) @ '';\<newline>''
         else (case cb_buffer cbData of
             Some b \<Rightarrow> '', '' @ concat (map (\<lambda>i. hexU 2 (unat (b ! i))) [0..<bufSize cbData]) @ '';\<newline>''
           | None \<Rightarrow> '';\<newline>'')))"

definition onReadWriteComplete :: "bool \<Rightarrow> packet option \<Rightarrow> packet option \<Rightarrow> nat \<Rightarrow> rw_state \<Rightarrow> int \<times> rw_state" where
  "onReadWriteComplete success tx rx p st = with_data p st (\<lambda>cbData.
     (0, st\<lparr>rw_heap := (rw_heap st)(p := None), rw_sent := rw_sent st @ [(clientID cbData, complete_reply success cbData)]\<rparr>))"

definition rw_call :: "(rw_cb, rw_state) call" where
  "rw_call cb success tx rx st =
     (case cb of (fn, p) \<Rightarrow> case fn of
        OnBulkRead \<Rightarrow> onBulkRead success tx rx p st
      | OnVolatileComplete \<Rightarrow> onVolatileComplete success tx rx p st
      | OnReadWriteComplete \<Rightarrow> onReadWriteComplete success tx rx p st)"

section \<open>Requests\<close>

definition COMCODE_SET_PAGE :: u8 where "COMCODE_SET_PAGE = 0xA0"
definition COMCODE_BULK_WRITE :: u8 where "COMCODE_BULK_WRITE = 0xB0"
definition COMCODE_BULK_READ :: u8 where "COMCODE_BULK_READ = 0xC0"
definition COMCODE_VOLATILE_PREPARE :: u8 where "COMCODE_VOLATILE_PREPARE = 0xD0"
definition COMCODE_VOLATILE_EXECUTE :: u8 where "COMCODE_VOLATILE_EXECUTE = 0xE0"

lemmas comcodes = COMCODE_SET_PAGE_def COMCODE_BULK_WRITE_def COMCODE_BULK_READ_def
  COMCODE_VOLATILE_PREPARE_def COMCODE_VOLATILE_EXECUTE_def

type_synonym uart = "(rw_cb, rw_state) commands"

text \<open>
  A local variable of type \<open>operation_t\<close> keeps what was stored in it before; the bytes of its
  packet that were never written are 0 in the model and are not read.
\<close>

definition local_op :: "rw_cb operation" where
  "local_op = \<lparr>op_t = OT_BARRIER, op_p = zero_packet, op_cb = None\<rparr>"

definition barrier :: "rw_cb option \<Rightarrow> rw_cb operation \<Rightarrow> rw_cb operation" where
  "barrier cb op = op\<lparr>op_t := OT_BARRIER, op_cb := cb\<rparr>"

definition command :: "u8 \<Rightarrow> u8 list \<Rightarrow> nat \<Rightarrow> rw_cb option \<Rightarrow> rw_cb operation \<Rightarrow> rw_cb operation" where
  "command req bs n cb op = op\<lparr>op_t := OT_COMMAND, op_cb := cb,
     op_p := (op_p op)\<lparr>commandCode := req, pk_data := bs @ drop (length bs) (pk_data (op_p op)), pk_len := n\<rparr>\<rparr>"

definition queueVolatile :: "u32 \<Rightarrow> u32 \<Rightarrow> u8 \<Rightarrow> nat \<Rightarrow> uart \<Rightarrow> uart" where
  "queueVolatile address writeData flags p s =
     (let op = barrier None local_op; s = debugCommands_queue op s;
          op = command COMCODE_VOLATILE_PREPARE (word_bytes 4 (address AND 0xFFFFFFFC) @ word_bytes 4 writeData @ [flags]) 9 None op;
          s = debugCommands_queue op s;
          op = barrier None op; s = debugCommands_queue op s;
          op = command COMCODE_VOLATILE_EXECUTE [] 0 (Some (OnVolatileComplete, p)) op;
          s = debugCommands_queue op s;
          op = barrier None op
      in debugCommands_queue op s)"

definition page_end :: "u32 \<Rightarrow> u32" where
  "page_end cur = (cur AND 0xFFFFF000) + 0x1000"

text \<open>
  The number of words of a bulk command. In the last page of the address space \<open>page_end\<close> wraps
  around to 0, so the test succeeds for every address and up to 1024 words result.
\<close>

definition bulk_words :: "u32 \<Rightarrow> int \<Rightarrow> int" where
  "bulk_words cur remain =
     (let n = (if remain > 32 then 7 else (remain - 4) div 4) in
      if cur + word_of_int (n * 4) > page_end cur then uint ((page_end cur - cur) div 4) else n)"

definition align4 :: "u32 \<Rightarrow> u32" where
  "align4 a = a AND 0xFFFFFFFC"

definition used_bytes :: "u32 \<Rightarrow> int \<Rightarrow> int" where
  "used_bytes cur remain = (let n = 4 - uint (cur - align4 cur) in if remain < n then remain else n)"

lemma uint_and_not_mask: "k \<le> 32 \<Longrightarrow> uint (w AND NOT (mask k)) = uint w div 2 ^ k * 2 ^ k" for w :: u32
proof -
  assume "k \<le> 32"
  have "bit (w AND NOT (mask k)) n = bit (push_bit k (drop_bit k w)) n" for n
    by (cases "n \<ge> k") (auto simp: bit_simps dest!: le_Suc_ex)
  then have "w AND NOT (mask k) = push_bit k (drop_bit k w)" by (simp add: bit_eq_iff)
  then have "uint (w AND NOT (mask k)) = take_bit 32 (push_bit k (drop_bit k (uint w)))"
    using uint_lt2p [of w] by (simp add: unsigned_push_bit_eq unsigned_drop_bit_eq take_bit_eq_mod)
  moreover have "uint w div 2 ^ k * 2 ^ k < 2 ^ 32"
  proof -
    have "uint w div 2 ^ k * 2 ^ k = uint w - uint w mod 2 ^ k" by (rule minus_mod_eq_div_mult [symmetric])
    also have "\<dots> \<le> uint w" by simp
    also have "\<dots> < 2 ^ 32" using uint_lt2p [of w] by simp
    finally show ?thesis .
  qed
  ultimately show ?thesis by (simp add: push_bit_eq_mult drop_bit_eq_div take_bit_eq_mod mod_pos_pos_trivial
    pos_imp_zdiv_nonneg_iff)
qed

lemma word_masks: "(3 :: u32) = mask 2" "(0xFFF :: u32) = mask 12" "(0xFFFFFFFC :: u32) = NOT (mask 2)"
  "(0xFFFFF000 :: u32) = NOT (mask 12)"
  by (simp_all add: mask_eq_exp_minus_1)

lemma align4_mod: "uint (align4 cur) = uint cur - uint cur mod 4" "uint (cur - align4 cur) = uint cur mod 4"
proof -
  show i: "uint (align4 cur) = uint cur - uint cur mod 4"
    unfolding align4_def word_masks by (simp add: uint_and_not_mask minus_mod_eq_div_mult)
  have "uint (cur - align4 cur) = (uint cur mod 4) mod 2 ^ 32" by (simp add: uint_word_ariths i)
  then show "uint (cur - align4 cur) = uint cur mod 4" by simp
qed

lemma used_bytes_bounds: "remain > 0 \<Longrightarrow> 1 \<le> used_bytes cur remain \<and> used_bytes cur remain \<le> remain"
  "remain < 0 \<Longrightarrow> used_bytes cur remain = remain"
  by (auto simp: used_bytes_def align4_mod Let_def)

lemma uint_and_mask: "uint (w AND mask k) = uint w mod 2 ^ k" for w :: u32
  by (simp add: unsigned_take_bit_eq flip: take_bit_eq_mask) (simp add: take_bit_eq_mod)

lemma aligned_words: "cur AND 3 = 0 \<longleftrightarrow> uint cur mod 4 = 0" for cur :: u32
  using uint_and_mask [of cur 2] unfolding word_masks(1) by (simp add: uint_0_iff [symmetric])

lemma page_mod: "uint (cur AND 0xFFF) = uint cur mod 4096" "uint (page_end cur) = (uint cur div 4096 + 1) * 4096 mod 2 ^ 32"
  for cur :: u32
proof -
  show "uint (cur AND 0xFFF) = uint cur mod 4096" unfolding word_masks(2) uint_and_mask by simp
  show "uint (page_end cur) = (uint cur div 4096 + 1) * 4096 mod 2 ^ 32"
  proof -
    have "uint (0x1000 :: u32) = 4096" by simp
    then show ?thesis
      by (simp only: page_end_def word_masks(4) uint_word_ariths(1)) (simp add: uint_and_not_mask algebra_simps)
  qed
qed

lemma page_rest: "uint (page_end cur - cur) = 4096 - uint cur mod 4096"
proof -
  define c where "c = uint cur"
  have c: "0 \<le> c" "c < 4294967296" using uint_lt2p [of cur] by (simp_all add: c_def)
  have "uint (page_end cur - cur) = ((c div 4096 + 1) * 4096 - c) mod 2 ^ 32"
    by (simp add: uint_word_ariths page_mod c_def mod_simps)
  also have "(c div 4096 + 1) * 4096 - c = 4096 - c mod 4096"
    by (simp only: distrib_right minus_mod_eq_div_mult [of c 4096, symmetric])
  finally show ?thesis by (simp add: c_def)
qed

lemma bulk_words_pos:
  assumes "uint cur mod 4 = 0" "remain \<ge> 8"
  shows "bulk_words cur remain \<ge> 1"
proof -
  have "x mod 4 = 0 \<Longrightarrow> x < 4096 \<Longrightarrow> x \<le> 4092" for x :: int by presburger
  from this [of "uint cur mod 4096"] have "uint cur mod 4096 \<le> 4092" using assms(1) by (simp add: mod_mod_cancel)
  then have "uint ((page_end cur - cur) div 4) \<ge> 1" by (simp add: uint_div_distrib page_rest)
  moreover have "1 \<le> (remain - 4) div 4" using assms(2) by presburger
  ultimately show ?thesis by (simp add: bulk_words_def Let_def)
qed

subsection \<open>Reads\<close>

text \<open>
  The loop of \<open>handleRead\<close>. \<open>remain\<close> is an \<open>int\<close>: in the last page it becomes negative, and the
  volatile read that follows takes all of it.
\<close>

function uart_read_loop :: "nat \<Rightarrow> u32 \<Rightarrow> int \<Rightarrow> rw_cb operation \<Rightarrow> uart \<Rightarrow> rw_cb operation \<times> uart" where
  "uart_read_loop p cur remain op s =
     (if remain = 0 then (op, s)
      else if cur AND 3 = 0 \<and> remain \<ge> 8 then
        (let numWords = bulk_words cur remain;
             op = command COMCODE_BULK_READ (word_bytes 4 cur @ [ucast (cur + word_of_int (numWords * 4))]) 5
                    (Some (OnBulkRead, p)) op
         in uart_read_loop p (cur + word_of_int (numWords * 4)) (remain - numWords * 4) op (debugCommands_queue op s))
      else
        (let n = used_bytes cur remain
         in uart_read_loop p (cur + word_of_int n) (remain - n) op (queueVolatile (align4 cur) 0 0 p s)))"
  by auto
termination
proof (relation "measure (\<lambda>(p, cur, remain, op, s). if remain < 0 then 1 else nat (2 * remain))", goal_cases)
  case (2 p cur remain op s x xa)
  then have "bulk_words cur remain \<ge> 1" by (intro bulk_words_pos) (auto simp: aligned_words)
  with 2 show ?case by auto
next
  case (3 p cur remain op s x)
  with used_bytes_bounds [of remain cur] show ?case by (cases "remain < 0") auto
qed simp

declare uart_read_loop.simps [simp del]

text \<open>\<open>malloc\<close> gives the address \<open>rw_next\<close>; the contents of the fresh buffer are the parameter \<open>junk\<close>.\<close>

definition alloc_data :: "callback_data \<Rightarrow> uart \<Rightarrow> uart" where
  "alloc_data cbData s = s\<lparr>upper := (upper s)\<lparr>rw_heap := (rw_heap (upper s))(rw_next (upper s) := Some cbData),
     rw_next := rw_next (upper s) + 1\<rparr>\<rparr>"

definition handleRead :: "(nat \<Rightarrow> u8) \<Rightarrow> u32 \<Rightarrow> nat \<Rightarrow> int \<Rightarrow> uart \<Rightarrow> uart" where
  "handleRead junk a n client s =
     (let p = rw_next (upper s);
          s = alloc_data \<lparr>clientID = client, cb_address = a, cb_buffer = Some (map junk [0..<n]), bufSize = n,
                lastFault = False, lastFaultCode = 0\<rparr> s;
          (op, s) = uart_read_loop p a (int n) local_op s
      in debugCommands_queue (barrier (Some (OnReadWriteComplete, p)) op) s)"

subsection \<open>Writes\<close>

text \<open>
  The loop of \<open>handleWrite\<close>; \<open>buf\<close> is what \<open>bufPtr\<close> points to. \<open>None\<close> when \<open>memcpy\<close> writes
  behind the 30 bytes of the packet, which takes more than 7 words. A negative \<open>remain\<close>, which
  does not happen, would read behind the buffer.
\<close>

lemma bulk_write_aligned: "(cur AND 0xFFF) mod 28 = 0 \<longleftrightarrow> uint cur mod 4096 mod 28 = 0"
  "(cur AND 0xFFF) mod 28 = 0 \<Longrightarrow> uint cur mod 4 = 0" for cur :: u32
proof -
  show e: "(cur AND 0xFFF) mod 28 = 0 \<longleftrightarrow> uint cur mod 4096 mod 28 = 0"
    using uint_mod_distrib [of "cur AND 0xFFF" 28] by (simp add: page_mod uint_0_iff [symmetric])
  assume "(cur AND 0xFFF) mod 28 = 0"
  with e have "28 dvd uint cur mod 4096" by auto
  then have "4 dvd uint cur mod 4096" by (rule dvd_trans [rotated]) simp
  then show "uint cur mod 4 = 0" by (simp add: dvd_mod_iff mod_0_imp_dvd)
qed

definition set_page :: "u32 \<Rightarrow> rw_cb operation \<Rightarrow> uart \<Rightarrow> rw_cb operation \<times> uart" where
  "set_page cur op s =
     (let op = barrier None op; s = debugCommands_queue op s;
          op = command COMCODE_SET_PAGE [ucast (drop_bit 24 cur), ucast (drop_bit 16 cur), ucast (drop_bit 8 cur) AND 0xF0] 3 None op;
          s = debugCommands_queue op s;
          op = barrier None op
      in (op, debugCommands_queue op s))"

function uart_write_loop ::
  "nat \<Rightarrow> u32 \<Rightarrow> int \<Rightarrow> u8 list \<Rightarrow> int \<Rightarrow> rw_cb operation \<Rightarrow> uart \<Rightarrow> (rw_cb operation \<times> uart) option" where
  "uart_write_loop p cur remain buf curPage op s =
     (if remain = 0 then Some (op, s)
      else if remain < 0 then None
      else if (cur AND 0xFFF) mod 28 = 0 \<and> remain \<ge> 8 then
        (let numWords = bulk_words cur remain; page = uint (drop_bit 12 cur);
             (op, s) = (if page \<noteq> curPage then set_page cur op s else (op, s));
             op = command COMCODE_BULK_WRITE (ucast ((cur AND 0xFFF) div 28) # take (nat (numWords * 4)) buf)
                    (nat (numWords * 4 + 1)) (op_cb op) op
         in if numWords * 4 + 1 > 30 then None
            else uart_write_loop p (cur + word_of_int (numWords * 4)) (remain - numWords * 4) (drop (nat (numWords * 4)) buf)
              page op (debugCommands_queue op s))
      else if cur AND 3 = 0 \<and> remain \<ge> 4 then
        uart_write_loop p (cur + 4) (remain - 4) (drop 4 buf) curPage op
          (queueVolatile (align4 cur) (be_word (take 4 buf)) 0xF8 p s)
      else if cur AND 1 = 0 \<and> remain \<ge> 2 then
        uart_write_loop p (cur + 2) (remain - 2) (drop 2 buf) curPage op
          (queueVolatile (align4 cur) (be_word (take 2 buf @ take 2 buf)) (if cur AND 2 \<noteq> 0 then 0x38 else 0xC8) p s)
      else
        uart_write_loop p (cur + 1) (remain - 1) (drop 1 buf) curPage op
          (queueVolatile (align4 cur) (be_word (replicate 4 (hd buf)))
            (push_bit 4 (if cur AND 3 = 0 then 8 else if cur AND 3 = 1 then 4 else if cur AND 3 = 2 then 2 else 1) OR 8) p s))"
  by auto
termination
proof (relation "measure (\<lambda>(p, cur, remain, buf, curPage, op, s). nat remain)", goal_cases)
  case (2 p cur remain)
  then have "bulk_words cur remain \<ge> 1" by (intro bulk_words_pos bulk_write_aligned) auto
  with 2 show ?case by auto
qed auto

declare uart_write_loop.simps [simp del]

definition handleWrite :: "u32 \<Rightarrow> u8 list \<Rightarrow> int \<Rightarrow> uart \<Rightarrow> uart option" where
  "handleWrite a buf client s =
     (let p = rw_next (upper s);
          s = alloc_data \<lparr>clientID = client, cb_address = a, cb_buffer = None, bufSize = length buf,
                lastFault = False, lastFaultCode = 0\<rparr> s
      in case uart_write_loop p a (int (length buf)) buf (-1) local_op s of
           None \<Rightarrow> None
         | Some (op, s) \<Rightarrow> Some (debugCommands_queue (barrier (Some (OnReadWriteComplete, p)) op) s))"

end
