(* ===== verification/Packet_Handler.thy ===== *)
theory Packet_Handler
  imports Debug_Liveness Debug_ReadWrite
begin

text \<open>
  The far end of the UART link: the packet handler of the debug UART
  (\<open>lib/rvex/periph/periph_uart_packetHandler.vhd\<close>), a state machine that turns packets into
  transfers on the debug bus and bus results into replies. One call of \<open>packet_handler\<close> is one
  packet; the states of the machine between two packets are the steps of the function. The bus is
  the parameter \<open>bus\<close>: an address, for writes with data and byte mask, gives the read data (the
  fault code when the fault flag is set) and the fault flag.

  The packets of this server are complete; which bytes the device takes when a packet is too
  short is left open.
\<close>

section \<open>The device\<close>

datatype bus_request = Bus_Read u32 | Bus_Write u32 u32 u8

type_synonym 'm bus = "bus_request \<Rightarrow> 'm \<Rightarrow> (u32 \<times> bool) \<times> 'm"

record 'm handler =
  h_address :: u32
  h_data :: u32
  h_mask :: u8
  h_write :: bool
  h_valid :: bool
  h_result :: u32
  h_fault :: bool
  h_bus :: 'm

text \<open>The address adder: bits 11 to 2 plus one, the page is kept.\<close>

definition auto_inc :: "u32 \<Rightarrow> u32" where
  "auto_inc a = (a AND 0xFFFFF000) OR ((a + 4) AND 0xFFC)"

definition load_mult :: "u8 \<Rightarrow> u32 \<Rightarrow> u32" where
  "load_mult d a = (a AND 0xFFFFF000) OR ((ucast d * 28) AND 0xFFF)"

definition bus_op :: "'m bus \<Rightarrow> 'm handler \<Rightarrow> 'm handler" where
  "bus_op bus h =
     (case bus (if h_write h then Bus_Write (h_address h) (h_data h) (h_mask h) else Bus_Read (h_address h)) (h_bus h) of
        ((r, f), m) \<Rightarrow> h\<lparr>h_bus := m, h_result := r, h_fault := f, h_mask := 0, h_write := False, h_valid := False,
          h_address := auto_inc (h_address h)\<rparr>)"

text \<open>A bulk write ends when the packet is empty.\<close>

function bulk_write :: "'m bus \<Rightarrow> u8 list \<Rightarrow> 'm handler \<Rightarrow> 'm handler" where
  "bulk_write bus d h =
     (let h = bus_op bus (h\<lparr>h_data := be_word (take 4 d), h_mask := 0xF, h_write := True\<rparr>)
      in if drop 4 d = [] then h else bulk_write bus (drop 4 d) h)"
  by auto
termination
  by (relation "measure (\<lambda>(bus, d, h). length d)") auto

declare bulk_write.simps [simp del]

text \<open>
  A bulk read ends when bits 4 to 2 of the address are those of the stop address, after at most 8
  words.
\<close>

fun bulk_read :: "nat \<Rightarrow> 'm bus \<Rightarrow> u8 \<Rightarrow> 'm handler \<Rightarrow> u8 list \<times> 'm handler" where
  "bulk_read 0 bus stop h = ([], h)"
| "bulk_read (Suc k) bus stop h =
     (let h = bus_op bus (h\<lparr>h_write := False\<rparr>); d = word_bytes 4 (h_result h)
      in if h_address h AND 0x1C = ucast stop AND 0x1C then (d, h)
         else (case bulk_read k bus stop h of (e, h) \<Rightarrow> (d @ e, h)))"

definition packet_handler :: "'m bus \<Rightarrow> 'm handler hardware" where
  "packet_handler bus req d h =
     (if req = COMCODE_SET_PAGE then
        ((req, []), h\<lparr>h_address := push_bit 8 (be_word (take 3 d)) OR (h_address h AND 0xFF)\<rparr>)
      else if req = COMCODE_BULK_WRITE then
        ((req, []), bulk_write bus (tl d) (h\<lparr>h_address := load_mult (hd d) (h_address h)\<rparr>))
      else if req = COMCODE_BULK_READ then
        (case bulk_read 8 bus (d ! 4) (h\<lparr>h_address := be_word (take 4 d)\<rparr>) of (e, h) \<Rightarrow> ((req, take 30 e), h))
      else if req = COMCODE_VOLATILE_PREPARE then
        ((req, []), h\<lparr>h_address := be_word (take 4 d), h_data := be_word (take 4 (drop 4 d)),
           h_mask := drop_bit 4 (d ! 8), h_write := bit (d ! 8) 3, h_valid := True\<rparr>)
      else if req = COMCODE_VOLATILE_EXECUTE then
        (let h = (if h_valid h then bus_op bus h else h)
         in ((req, word_bytes 4 (h_result h) @ [of_bool (h_fault h)]), h))
      else ((req, []), h))"

lemma handler_ok: "hw_ok (packet_handler bus)"
  by (auto simp: hw_ok_def packet_handler_def Let_def split: prod.split)

section \<open>Bus transfers\<close>

fun bus_run :: "'m bus \<Rightarrow> bus_request list \<Rightarrow> 'm \<Rightarrow> (u32 \<times> bool) list \<times> 'm" where
  "bus_run bus [] m = ([], m)"
| "bus_run bus (q # qs) m = (case bus q m of (r, m) \<Rightarrow> case bus_run bus qs m of (rs, m) \<Rightarrow> (r # rs, m))"

lemma bus_run_append:
  "bus_run bus (ps @ qs) m =
    (case bus_run bus ps m of (rs, m) \<Rightarrow> case bus_run bus qs m of (rs', m) \<Rightarrow> (rs @ rs', m))"
  by (induction ps arbitrary: m) (auto split: prod.split)

lemma bus_run_length: "bus_run bus qs m = (rs, m') \<Longrightarrow> length rs = length qs"
  by (induction qs arbitrary: m rs) (auto split: prod.splits)

text \<open>Reads of \<open>k\<close> words from \<open>a\<close>, and the bytes they give.\<close>

definition reads :: "nat \<Rightarrow> nat \<Rightarrow> bus_request list" where
  "reads a k = map (\<lambda>i. Bus_Read (word_of_nat (a + 4 * i))) [0..<k]"

definition result_bytes :: "(u32 \<times> bool) list \<Rightarrow> u8 list" where
  "result_bytes rs = concat (map (word_bytes 4 \<circ> fst) rs)"

lemma reads_simps [simp]: "reads a 0 = []" "reads a (Suc k) = Bus_Read (word_of_nat a) # reads (a + 4) k"
  by (simp_all add: reads_def upt_conv_Cons map_Suc_upt [symmetric] comp_def ac_simps del: upt_Suc)

lemma reads_add: "reads a (k + l) = reads a k @ reads (a + 4 * k) l"
  by (induction k arbitrary: a) (simp_all add: ac_simps)

lemma result_bytes_simps [simp]: "result_bytes [] = []" "result_bytes (r # rs) = word_bytes 4 (fst r) @ result_bytes rs"
  "result_bytes (rs @ rs') = result_bytes rs @ result_bytes rs'" "length (result_bytes rs) = 4 * length rs"
  by (induction rs) (simp_all add: result_bytes_def)

subsection \<open>Addresses\<close>

lemma unat_masks:
  "k \<le> 32 \<Longrightarrow> unat (w AND NOT (mask k)) = unat w div 2 ^ k * 2 ^ k" "unat (w AND mask k) = unat w mod 2 ^ k" for w :: u32
proof -
  assume k: "k \<le> 32"
  have "unat (w AND NOT (mask k)) = nat (uint (w AND NOT (mask k)))" by (simp only: unat_eq_nat_uint)
  also have "\<dots> = unat w div 2 ^ k * 2 ^ k"
    unfolding uint_and_not_mask [OF k]
    by (simp only: unat_eq_nat_uint) (simp add: nat_mult_distrib nat_div_distrib nat_power_eq pos_imp_zdiv_nonneg_iff)
  finally show "unat (w AND NOT (mask k)) = unat w div 2 ^ k * 2 ^ k" .
next
  have "unat (w AND mask k) = nat (uint (w AND mask k))" by (simp only: unat_eq_nat_uint)
  also have "\<dots> = unat w mod 2 ^ k"
    unfolding uint_and_mask by (simp only: unat_eq_nat_uint) (simp add: nat_mod_distrib nat_power_eq)
  finally show "unat (w AND mask k) = unat w mod 2 ^ k" .
qed

lemma unat_add_small: "unat a + k < 2 ^ 32 \<Longrightarrow> unat (a + word_of_nat k) = unat a + k" for a :: u32
  by (simp add: unat_word_ariths unsigned_of_nat take_bit_eq_mod mod_simps)

lemma unat_or_disjoint: "x AND y = 0 \<Longrightarrow> unat x + unat y < 2 ^ 32 \<Longrightarrow> unat (x OR y) = unat x + unat y" for x y :: u32
  using disjunctive_add_eq_or [of x y] unat_add_small [of x "unat y"] by simp

lemma page_masks: "(0xFFC :: u32) = mask 12 AND NOT (mask 2)" "(0x1C :: u32) = mask 5 AND NOT (mask 2)"
  "(a AND 0xFFFFF000) AND (b AND 0xFFC) = 0" "(a AND 0xFFFFF000) AND (b AND 0xFFF) = 0" for a b :: u32
proof -
  show m: "(0xFFC :: u32) = mask 12 AND NOT (mask 2)" "(0x1C :: u32) = mask 5 AND NOT (mask 2)"
    by (simp_all add: mask_eq_exp_minus_1)
  show "(a AND 0xFFFFF000) AND (b AND 0xFFC) = 0" "(a AND 0xFFFFF000) AND (b AND 0xFFF) = 0"
    unfolding m(1) word_masks by (rule bit_word_eqI; auto simp: bit_simps)+
qed

lemma page_part: "unat (a AND 0xFFFFF000) = unat a div 4096 * 4096" "unat a div 4096 * 4096 \<le> 4294963200" for a :: u32
proof -
  show "unat (a AND 0xFFFFF000) = unat a div 4096 * 4096" unfolding word_masks by (simp add: unat_masks)
  have "unat a < 4294967296" using unsigned_less [of a, where 'a = nat] by simp
  then show "unat a div 4096 * 4096 \<le> 4294963200" by simp
qed

lemma auto_inc_unat:
  assumes "unat a mod 4 = 0"
  shows "unat (auto_inc a) = unat a div 4096 * 4096 + (unat a + 4) mod 4096"
proof -
  have "unat ((a + 4) AND 0xFFC) = unat (a + 4) mod 4096 div 4 * 4"
    unfolding page_masks and.assoc [symmetric] by (simp add: unat_masks)
  also have "unat (a + 4) mod 4096 = (unat a + 4) mod 4096"
    by (simp add: unat_word_ariths mod_mod_cancel)
  also have "(unat a + 4) mod 4096 div 4 * 4 = (unat a + 4) mod 4096"
  proof -
    have "(unat a + 4) mod 4096 mod 4 = 0" using assms by (simp add: mod_mod_cancel)
    then show ?thesis by (metis add.right_neutral div_mult_mod_eq)
  qed
  finally have l: "unat ((a + 4) AND 0xFFC) = (unat a + 4) mod 4096" .
  have "(unat a + 4) mod 4096 < 4096" by simp
  with unat_or_disjoint [OF page_masks(3) [of a "a + 4"]] page_part [of a] show ?thesis
    unfolding auto_inc_def l by simp
qed

lemma page_mod32: "(q * 4096 + z mod 4096) mod 32 = z mod (32 :: nat)"
proof -
  have "(q * 4096 + y) mod 32 = y mod 32" for y :: nat using mod_mult_self3 [of "q * 128" 32 y] by (simp add: mult.assoc)
  then show ?thesis by (simp add: mod_mod_cancel)
qed

lemma in_page: "x mod 4096 + k < 4096 \<Longrightarrow> (x + k) mod 4096 = x mod 4096 + k" for x :: nat
  using mod_add_left_eq [of x 4096 k] by simp

lemma load_mult_unat: "unat (load_mult d a) = unat a div 4096 * 4096 + unat d * 28 mod 4096"
proof -
  have "unat d < 256" using unsigned_less [of d, where 'a = nat] by simp
  then have "unat (ucast d * 28 :: u32) = unat d * 28" by (simp add: unat_word_ariths unsigned_ucast_eq take_bit_eq_mod)
  then have l: "unat ((ucast d * 28 :: u32) AND 0xFFF) = unat d * 28 mod 4096" unfolding word_masks by (simp add: unat_masks)
  have "unat d * 28 mod 4096 < 4096" by simp
  with unat_or_disjoint [OF page_masks(4) [of a "ucast d * 28"]] page_part [of a] show ?thesis
    unfolding load_mult_def l by simp
qed

lemma stop_test: "x AND 0x1C = ucast d AND 0x1C \<longleftrightarrow> unat x mod 32 div 4 = unat d mod 32 div 4" for x :: u32 and d :: u8
proof -
  have "unat (x AND 0x1C) = unat x mod 32 div 4 * 4" for x :: u32
    unfolding page_masks and.assoc [symmetric] by (simp add: unat_masks)
  from this [of x] this [of "ucast d"] show ?thesis
    by (simp add: word_unat_eq_iff unsigned_ucast_eq take_bit_eq_mod mod_mod_cancel)
qed

section \<open>Reading\<close>

lemma bulk_read_run:
  assumes "unat (h_address h) mod 4 = 0" "0 < k" "k \<le> 7" "k \<le> fuel" "unat (h_address h) mod 4096 + 4 * k \<le> 4096"
    and "unat stop mod 32 = (unat (h_address h) + 4 * k) mod 32" "bus_run bus (reads (unat (h_address h)) k) (h_bus h) = (rs, m)"
  shows "\<exists>h'. bulk_read fuel bus stop h = (result_bytes rs, h') \<and> h_bus h' = m"
  using assms
proof (induction k arbitrary: fuel h rs)
  case (Suc k)
  obtain f where f: "fuel = Suc f" using Suc.prems(4) by (cases fuel) auto
  obtain r c m' where r: "bus (Bus_Read (h_address h)) (h_bus h) = ((r, c), m')" by (metis prod.exhaust)
  obtain rs' where rs: "bus_run bus (reads (unat (h_address h) + 4) k) m' = (rs', m)" "rs = (r, c) # rs'"
    using Suc.prems(7) r by (auto split: prod.splits)
  define g where "g = bus_op bus (h\<lparr>h_write := False\<rparr>)"
  have g: "h_bus g = m'" "h_result g = r" "h_address g = auto_inc (h_address h)"
    by (simp_all add: g_def bus_op_def r)
  have a: "unat (auto_inc (h_address h)) = unat (h_address h) div 4096 * 4096 + (unat (h_address h) + 4) mod 4096"
    by (rule auto_inc_unat [OF Suc.prems(1)])
  show ?case
  proof (cases "k = 0")
    case True
    with rs have rs': "rs = [(r, c)]" "m = m'" by simp_all
    have "unat (h_address g) mod 32 = (unat (h_address h) + 4) mod 32"
      unfolding g(3) a page_mod32 ..
    then have "h_address g AND 0x1C = ucast stop AND 0x1C" using Suc.prems(6) True by (simp add: stop_test)
    then show ?thesis using g by (simp add: f rs' g_def [symmetric] Let_def)
  next
    case False
    have "(unat (h_address h) + 4) mod 4096 = unat (h_address h) mod 4096 + 4"
      using Suc.prems(5) False by (intro in_page) simp
    then have n: "unat (h_address g) = unat (h_address h) + 4" unfolding g(3) a by (simp only: add.assoc [symmetric] div_mult_mod_eq)
    have "\<exists>h'. bulk_read f bus stop g = (result_bytes rs', h') \<and> h_bus h' = m"
    proof (rule Suc.IH)
      show "unat (h_address g) mod 4096 + 4 * k \<le> 4096"
        using \<open>(unat (h_address h) + 4) mod 4096 = _\<close> Suc.prems(5) by (simp add: n)
      show "unat (h_address g) mod 4 = 0" using Suc.prems(1) unfolding n by presburger
    qed (use False Suc.prems rs(1) in \<open>simp_all add: n f g(1) ac_simps\<close>)
    moreover have "unat (h_address g) mod 32 div 4 \<noteq> unat stop mod 32 div 4"
    proof -
      define q where "q = unat (h_address h) div 4"
      have q: "unat (h_address h) = 4 * q" using Suc.prems(1) by (auto simp: q_def)
      have e: "4 * x mod 32 div 4 = x mod 8" for x :: nat using mult_mod_right [of 4 x 8] by simp
      have "4 * q + 4 = 4 * (q + 1)" "4 * q + 4 * Suc k = 4 * (q + 1 + k)" by simp_all
      then have d: "(4 * q + 4) mod 32 div 4 = (q + 1) mod 8" "(4 * q + 4 * Suc k) mod 32 div 4 = (q + 1 + k) mod 8"
        by (simp_all only: e)
      have "\<not> 8 dvd k" using Suc.prems(3) False by (auto dest: dvd_imp_le)
      then have "(q + 1 + k) mod 8 \<noteq> (q + 1) mod 8" by (simp add: mod_eq_dvd_iff_nat)
      then show ?thesis unfolding n Suc.prems(6) q d by metis
    qed
    then have "h_address g AND 0x1C \<noteq> ucast stop AND 0x1C" by (simp add: stop_test)
    ultimately show ?thesis using g(2) by (auto simp: f rs(2) g_def [symmetric] Let_def)
  qed
qed simp

section \<open>Writing\<close>

fun word_writes :: "nat \<Rightarrow> nat \<Rightarrow> u8 list \<Rightarrow> bus_request list" where
  "word_writes a 0 d = []"
| "word_writes a (Suc k) d = Bus_Write (word_of_nat a) (be_word (take 4 d)) 0xF # word_writes (a + 4) k (drop 4 d)"

lemma unat_drop_page: "unat (drop_bit 12 a) = unat a div 4096" for a :: u32
  by (simp add: drop_bit_eq_div unat_div)

lemma auto_inc_page: "unat a mod 4 = 0 \<Longrightarrow> unat (auto_inc a) div 4096 = unat a div 4096"
  by (simp add: auto_inc_unat div_add1_eq [of "unat a div 4096 * 4096"])

lemma bulk_write_run:
  assumes "unat (h_address h) mod 4 = 0" "length d = 4 * k" "0 < k" "unat (h_address h) mod 4096 + 4 * k \<le> 4096"
    and "bus_run bus (word_writes (unat (h_address h)) k d) (h_bus h) = (rs, m)"
  shows "h_bus (bulk_write bus d h) = m \<and> unat (h_address (bulk_write bus d h)) div 4096 = unat (h_address h) div 4096"
  using assms
proof (induction k arbitrary: d h rs)
  case (Suc k)
  obtain r c m' where r: "bus (Bus_Write (h_address h) (be_word (take 4 d)) 0xF) (h_bus h) = ((r, c), m')" by (metis prod.exhaust)
  obtain rs' where rs: "bus_run bus (word_writes (unat (h_address h) + 4) k (drop 4 d)) m' = (rs', m)"
    using Suc.prems(5) r by (auto split: prod.splits)
  define g where "g = bus_op bus (h\<lparr>h_data := be_word (take 4 d), h_mask := 0xF, h_write := True\<rparr>)"
  have g: "h_bus g = m'" "h_address g = auto_inc (h_address h)" by (simp_all add: g_def bus_op_def r)
  note p = auto_inc_page [OF Suc.prems(1)]
  have step: "bulk_write bus d h = (if drop 4 d = [] then g else bulk_write bus (drop 4 d) g)"
    by (subst bulk_write.simps) (simp add: g_def [symmetric] Let_def)
  show ?case
  proof (cases "k = 0")
    case True
    with Suc.prems(2) rs show ?thesis by (simp add: step g p)
  next
    case False
    have "(unat (h_address h) + 4) mod 4096 = unat (h_address h) mod 4096 + 4"
      using Suc.prems(4) False by (intro in_page) simp
    then have n: "unat (h_address g) = unat (h_address h) + 4"
      unfolding g(2) auto_inc_unat [OF Suc.prems(1)] by (simp only: add.assoc [symmetric] div_mult_mod_eq)
    have "h_bus (bulk_write bus (drop 4 d) g) = m \<and>
        unat (h_address (bulk_write bus (drop 4 d) g)) div 4096 = unat (h_address g) div 4096"
    proof (rule Suc.IH)
      show "unat (h_address g) mod 4096 + 4 * k \<le> 4096"
        using \<open>(unat (h_address h) + 4) mod 4096 = _\<close> Suc.prems(4) by (simp add: n)
      show "unat (h_address g) mod 4 = 0" using Suc.prems(1) unfolding n by presburger
    qed (use False Suc.prems(2) rs in \<open>simp_all add: n g(1)\<close>)
    moreover have "drop 4 d \<noteq> []" using False Suc.prems(2) by simp
    ultimately show ?thesis using p by (simp add: step g(2))
  qed
qed simp

end
