(* ===== verification/Uart_Access.thy ===== *)
theory Uart_Access
  imports Packet_Handler
begin

text \<open>
  What a read or write request does, end to end: the operations queued by
  \<open>rvsrv/uart/debugReadWrite.c\<close>, sent by the command layer and executed by the packet handler,
  perform the bus transfers of the request, each once and in order, and the client gets the reply
  for their results. The bus is arbitrary: its reads may have effects and its transfers may fault.
\<close>

section \<open>The read buffer\<close>

definition overlay :: "int \<Rightarrow> u8 list \<Rightarrow> u8 list \<Rightarrow> u8 list" where
  "overlay i d b = map (\<lambda>j. if i \<le> int j \<and> int j < i + int (length d) then d ! nat (int j - i) else b ! j) [0..<length b]"

lemma overlay_Nil [simp]: "overlay i [] b = b"
  by (rule nth_equalityI) (auto simp: overlay_def)

lemma length_overlay [simp]: "length (overlay i d b) = length b"
  by (simp add: overlay_def)

lemma overlay_Cons:
  "overlay i (x # d) b = overlay (i + 1) d (if 0 \<le> i \<and> i < int (length b) then b[nat i := x] else b)"
proof (rule nth_equalityI)
  fix j assume "j < length (overlay i (x # d) b)"
  then have j: "j < length b" by simp
  consider "i = int j" | "i < int j" "nat (int j - i) = Suc (nat (int j - (i + 1)))" | "int j < i" by force
  then show "overlay i (x # d) b ! j = overlay (i + 1) d (if 0 \<le> i \<and> i < int (length b) then b[nat i := x] else b) ! j"
    using j by cases (auto simp: overlay_def nth_list_update)
qed simp

lemma store_from_overlay:
  "cb_buffer d = Some b \<Longrightarrow> length b = bufSize d \<Longrightarrow> store_from i bs d = d\<lparr>cb_buffer := Some (overlay i bs b)\<rparr>"
proof (induction bs arbitrary: i b d)
  case (Cons x bs)
  let ?b = "if 0 \<le> i \<and> i < int (length b) then b[nat i := x] else b"
  have s: "store_at i x d = d\<lparr>cb_buffer := Some ?b\<rparr>"
    using Cons.prems by (auto simp: store_at_def)
  then have "store_from (i + 1) bs (store_at i x d) = (store_at i x d)\<lparr>cb_buffer := Some (overlay (i + 1) bs ?b)\<rparr>"
    using Cons.prems by (intro Cons.IH) auto
  then show ?case by (simp add: s overlay_Cons)
qed simp

text \<open>A word is stored at \<open>off - r\<close>, where the first \<open>r\<close> bytes are not wanted.\<close>

lemma overlay_take:
  assumes "r = 0 \<or> off = 0" "r + u \<le> length d" "off + u \<le> length b"
  shows "take (off + u) (overlay (int off - int r) d b) = take off b @ take u (drop r d)"
proof (rule nth_equalityI)
  fix j assume j: "j < length (take (off + u) (overlay (int off - int r) d b))"
  then have l: "j < off + u" "j < length b" by simp_all
  show "take (off + u) (overlay (int off - int r) d b) ! j = (take off b @ take u (drop r d)) ! j"
  proof (cases "j < off")
    case True
    with l assms show ?thesis by (auto simp: overlay_def nth_append)
  next
    case False
    then have "nat (int j - (int off - int r)) = r + (j - off)" using assms(1) by linarith
    with False l assms show ?thesis by (auto simp: overlay_def nth_append)
  qed
qed (use assms in simp)

definition buffer_ok :: "callback_data \<Rightarrow> u8 list \<Rightarrow> bool" where
  "buffer_ok d b \<longleftrightarrow> cb_buffer d = Some b \<and> length b = bufSize d"

lemma small_offset: "off < 2 ^ 31 \<Longrightarrow> r \<le> 3 \<Longrightarrow> sint (word_of_nat off - word_of_nat r :: u32) = int off - int r"
proof -
  assume "off < 2 ^ 31" "r \<le> 3"
  then have "signed_take_bit 31 (int off - int r) = int off - int r" by (intro signed_take_bit_int_eq_self) simp_all
  moreover have e: "word_of_nat off - word_of_nat r = (word_of_int (int off - int r) :: u32)" by simp
  ultimately show ?thesis unfolding e by (simp add: signed_of_int del: of_int_diff)
qed

section \<open>Operations\<close>

lemma offset_word: "unat a = unat b + off \<Longrightarrow> a - b = word_of_nat off" for a b :: u32
proof -
  assume "unat a = unat b + off"
  moreover have "a = word_of_nat (unat a)" by simp
  ultimately have "a = word_of_nat (unat b + off)" by simp
  then show ?thesis by simp
qed

definition volatile_ops :: "u32 \<Rightarrow> u32 \<Rightarrow> u8 \<Rightarrow> nat \<Rightarrow> rw_cb operation list" where
  "volatile_ops a d flags p =
     (let op1 = barrier None local_op; op2 = command COMCODE_VOLATILE_PREPARE (word_bytes 4 (align4 a) @ word_bytes 4 d @ [flags]) 9 None op1;
          op3 = barrier None op2; op4 = command COMCODE_VOLATILE_EXECUTE [] 0 (Some (OnVolatileComplete, p)) op3
      in [op1, op2, op3, op4, barrier None op4])"

lemma queueVolatile_ops: "queueVolatile a d flags p s = fold debugCommands_queue (volatile_ops a d flags p) s"
  by (simp add: queueVolatile_def volatile_ops_def align4_def Let_def)

lemma operation_simps [simp]:
  "op_t (barrier cb op) = OT_BARRIER" "op_cb (barrier cb op) = cb" "op_p (barrier cb op) = op_p op"
  "op_t (command req d n cb op) = OT_COMMAND" "op_cb (command req d n cb op) = cb"
  "commandCode (op_p (command req d n cb op)) = req" "pk_len (op_p (command req d n cb op)) = n"
  "pk_data (op_p (command req d n cb op)) = d @ drop (length d) (pk_data (op_p op))"
  by (simp_all add: barrier_def command_def)

lemma volatile_ops_ok: "\<forall>op \<in> set (volatile_ops a d flags p). operation_ok op"
  by (simp add: volatile_ops_def Let_def operation_ok_def packet_ok_def local_op_def zero_packet_def)

lemma onVolatileComplete_blind:
  assumes "length (payload rx) = 5" "payload rx' = payload rx" "pk_data tx' = pk_data tx"
  shows "onVolatileComplete b (Some tx') (Some rx') p st = onVolatileComplete b (Some tx) (Some rx) p st"
proof -
  have "payload x ! 4 = pk_data x ! 4 \<and> take 4 (payload x) = take 4 (pk_data x)" if "length (payload x) = 5" for x
    using that by (simp add: payload_def min_def split: if_splits)
  from this [of rx] this [of rx'] assms have "pk_data rx' ! 4 = pk_data rx ! 4" "take 4 (pk_data rx') = take 4 (pk_data rx)"
    by (auto simp del: take_take)
  then show ?thesis
    using assms(2,3) unfolding onVolatileComplete_def writeToReadBuffer_def prod.case option.case
    by (simp add: payload_def Let_def cong: if_cong)
qed

lemma rw_call_simps [simp]:
  "rw_call (OnBulkRead, p) = (\<lambda>b tx rx. onBulkRead b tx rx p)" "rw_call (OnVolatileComplete, p) = (\<lambda>b tx rx. onVolatileComplete b tx rx p)"
  "rw_call (OnReadWriteComplete, p) = (\<lambda>b tx rx. onReadWriteComplete b tx rx p)"
  by (simp_all add: rw_call_def fun_eq_iff)

lemma blind_no_callback: "op_cb op = None \<Longrightarrow> blind hw call op"
  by (simp add: blind_def)

lemma comcode_bits [simp]:
  "COMCODE_SET_PAGE AND 0xF0 = COMCODE_SET_PAGE" "COMCODE_BULK_WRITE AND 0xF0 = COMCODE_BULK_WRITE"
  "COMCODE_BULK_READ AND 0xF0 = COMCODE_BULK_READ" "COMCODE_VOLATILE_PREPARE AND 0xF0 = COMCODE_VOLATILE_PREPARE"
  "COMCODE_VOLATILE_EXECUTE AND 0xF0 = COMCODE_VOLATILE_EXECUTE"
  by (simp_all add: comcodes)

lemma handler_simps:
  "packet_handler bus COMCODE_SET_PAGE d h =
    ((COMCODE_SET_PAGE, []), h\<lparr>h_address := push_bit 8 (be_word (take 3 d)) OR (h_address h AND 0xFF)\<rparr>)"
  "packet_handler bus COMCODE_BULK_WRITE d h =
    ((COMCODE_BULK_WRITE, []), bulk_write bus (tl d) (h\<lparr>h_address := load_mult (hd d) (h_address h)\<rparr>))"
  "packet_handler bus COMCODE_BULK_READ d h =
    (case bulk_read 8 bus (d ! 4) (h\<lparr>h_address := be_word (take 4 d)\<rparr>) of (e, h) \<Rightarrow> ((COMCODE_BULK_READ, take 30 e), h))"
  "packet_handler bus COMCODE_VOLATILE_PREPARE d h =
    ((COMCODE_VOLATILE_PREPARE, []), h\<lparr>h_address := be_word (take 4 d), h_data := be_word (take 4 (drop 4 d)),
       h_mask := drop_bit 4 (d ! 8), h_write := bit (d ! 8) 3, h_valid := True\<rparr>)"
  "packet_handler bus COMCODE_VOLATILE_EXECUTE d h =
    (let h = (if h_valid h then bus_op bus h else h)
     in ((COMCODE_VOLATILE_EXECUTE, word_bytes 4 (h_result h) @ [of_bool (h_fault h)]), h))"
  by (simp_all add: packet_handler_def comcodes)

lemma volatile_ops_blind: "\<forall>op \<in> set (volatile_ops a d flags p). blind (packet_handler bus) rw_call op"
proof -
  have "blind (packet_handler bus) rw_call (command COMCODE_VOLATILE_EXECUTE [] 0 (Some (OnVolatileComplete, p)) op)" for op
    unfolding blind_def
  proof (intro allI impI)
    fix cb tx tx' rx rx' c and h :: "'a handler"
    let ?op = "command COMCODE_VOLATILE_EXECUTE [] 0 (Some (OnVolatileComplete, p)) op"
    assume *: "op_cb ?op = Some cb" "same_command tx (op_p ?op)" "same_command tx' (op_p ?op)"
      "payload rx = snd (fst (packet_handler bus (commandCode (op_p ?op) AND 0xF0) (payload (op_p ?op)) h))" "payload rx' = payload rx"
    then have "length (payload rx) = 5" by (simp add: handler_simps Let_def)
    with * show "rw_call cb True (Some tx) (Some rx) c = rw_call cb True (Some tx') (Some rx') c"
      by (auto simp: same_command_def intro!: onVolatileComplete_blind)
  qed
  then show ?thesis by (simp add: volatile_ops_def Let_def blind_no_callback)
qed

text \<open>What the result of a volatile operation does to the callback data.\<close>

definition volatile_result :: "u32 \<Rightarrow> u32 \<times> bool \<Rightarrow> callback_data \<Rightarrow> callback_data" where
  "volatile_result a r d =
     (let d = (if cb_buffer d \<noteq> None
             then store_from (sint (a - cb_address d)) (word_bytes 4 (fst r) @ [of_bool (snd r)]) d else d)
      in d\<lparr>lastFault := snd r, lastFaultCode := if snd r then fst r else lastFaultCode d\<rparr>)"

lemma volatile_result_fault [simp]:
  "lastFault (volatile_result a r d) = snd r" "snd r \<Longrightarrow> lastFaultCode (volatile_result a r d) = fst r"
  by (simp_all add: volatile_result_def Let_def)

lemma align4_idem [simp]: "align4 (align4 a) = align4 a"
  by (simp add: align4_def and.assoc)

lemma volatile_run:
  assumes "rw_heap c p = Some cb" "bus (if bit flags 3 then Bus_Write (align4 a) d (drop_bit 4 flags) else Bus_Read (align4 a)) (h_bus h) = (r, m)"
  shows "\<exists>h'. run_ops (packet_handler bus) rw_call (volatile_ops a d flags p) (h, c) =
      Some (h', put_data p (volatile_result (align4 a) r cb) c) \<and> h_bus h' = m"
proof -
  obtain v f where r: "r = (v, f)" by force
  define pre where "pre = word_bytes 4 (align4 a) @ word_bytes 4 d @ [flags]"
  have pre: "length pre = 9" "be_word (take 4 pre) = align4 a" "be_word (take 4 (drop 4 pre)) = d" "pre ! 8 = flags"
    by (simp_all add: pre_def nth_append be_word_word_bytes)
  let ?h = "h\<lparr>h_address := align4 a, h_data := d, h_mask := drop_bit 4 flags, h_write := bit flags 3, h_valid := True\<rparr>"
  have op: "bus_op bus ?h = ?h\<lparr>h_bus := m, h_result := v, h_fault := f, h_mask := 0, h_write := False, h_valid := False,
      h_address := auto_inc (align4 a)\<rparr>"
    using assms(2) by (cases "bit flags 3") (simp_all add: bus_op_def r)
  let ?tx = "op_p (command COMCODE_VOLATILE_EXECUTE [] 0 (Some (OnVolatileComplete, p)) (barrier None (command COMCODE_VOLATILE_PREPARE pre 9 None (barrier None local_op))))"
  let ?rx = "answer 0 (COMCODE_VOLATILE_EXECUTE, word_bytes 4 v @ [of_bool f])"
  have "onVolatileComplete True (Some ?tx) (Some ?rx) p c = (0, put_data p (volatile_result (align4 a) r cb) c)"
  proof -
    have "pk_data ?rx ! 4 = of_bool f" "take 4 (pk_data ?rx) = word_bytes 4 v" "take (pk_len ?rx) (pk_data ?rx) = word_bytes 4 v @ [of_bool f]"
      "take 4 (pk_data ?tx) = word_bytes 4 (align4 a)"
      using pre(1) by (simp_all add: answer_def nth_append pre_def)
    then show ?thesis
      using assms(1) unfolding onVolatileComplete_def prod.case option.case writeToReadBuffer_def with_data_def
      by (simp add: volatile_result_def r be_word_word_bytes Let_def)
  qed
  moreover have "payload ?tx = []" by (simp add: payload_def)
  moreover have "payload (op_p (command COMCODE_VOLATILE_PREPARE pre 9 None (barrier None local_op))) = pre"
    using pre(1) by (simp add: payload_def)
  ultimately show ?thesis
    by (simp add: volatile_ops_def pre_def [symmetric] handler_simps pre op Let_def)
qed

section \<open>The loop of a read request\<close>

definition read_accesses :: "nat \<Rightarrow> nat \<Rightarrow> bus_request list" where
  "read_accesses a n = (if n = 0 then [] else reads (a - a mod 4) ((a mod 4 + n + 3) div 4))"

definition read_bytes :: "nat \<Rightarrow> nat \<Rightarrow> (u32 \<times> bool) list \<Rightarrow> u8 list" where
  "read_bytes a n rs = take n (drop (a mod 4) (result_bytes rs))"

lemma bulk_words_bounds:
  assumes "unat cur mod 4 = 0" "remain \<ge> 8" "int (unat cur) + remain \<le> 0xFFFFF000"
  obtains n where "bulk_words cur remain = int n" "1 \<le> n" "n \<le> 7" "4 * int n + 4 \<le> remain" "unat cur mod 4096 + 4 * n \<le> 4096"
    "n = 7 \<or> unat cur mod 4096 + 4 * n = 4096 \<or> remain - 4 * int n < 8"
proof -
  define c where "c = unat cur"
  define k where "k = (if remain > 32 then 7 else nat ((remain - 4) div 4))"
  have k: "1 \<le> k" "k \<le> 7" "4 * int k + 4 \<le> remain" "k = 7 \<or> remain - 4 * int k < 8" using assms(2) by (auto simp: k_def)
  have u: "uint cur = int c" by (simp add: c_def)
  have page: "c = 4096 * (c div 4096) + c mod 4096" by simp
  have cdiv: "c div 4096 < 1048575" using assms(3) k(3) page unfolding c_def [symmetric] by linarith
  have "int c + 4 * int k < 2 ^ 32" using assms(3) k(3) unfolding c_def [symmetric] by simp
  then have l: "uint (cur + word_of_int (int k * 4)) = int c + 4 * int k"
  proof -
    have "word_of_int (int k * 4) = (word_of_nat (4 * k) :: u32)" by simp
    moreover have "c + 4 * k < 2 ^ 32" using \<open>int c + 4 * int k < 2 ^ 32\<close> by simp
    ultimately have "unat (cur + word_of_int (int k * 4)) = c + 4 * k"
      using unat_add_small [of cur "4 * k"] by (simp only: c_def)
    then show ?thesis by (simp add: uint_nat del: of_nat_unat)
  qed
  have r: "uint (page_end cur) = (int (c div 4096) + 1) * 4096"
    using cdiv by (simp add: page_mod u zdiv_int)
  have gt: "cur + word_of_int (int k * 4) > page_end cur \<longleftrightarrow> c mod 4096 + 4 * k > 4096"
  proof -
    have "(int q + 1) * 4096 < int (4096 * q + x) + 4 * int k \<longleftrightarrow> x + 4 * k > 4096" for q x by auto
    from this [of "c div 4096" "c mod 4096"] page show ?thesis unfolding word_less_def l r by simp
  qed
  have w: "bulk_words cur remain = (if c mod 4096 + 4 * k > 4096 then int ((4096 - c mod 4096) div 4) else int k)"
  proof -
    have "(if remain > 32 then 7 else (remain - 4) div 4) = int k" using assms(2) by (auto simp: k_def)
    moreover have "c mod 4096 < 4096" by simp
    then have "uint ((page_end cur - cur) div 4) = int ((4096 - c mod 4096) div 4)"
      by (simp add: uint_div_distrib page_rest u zdiv_int of_nat_diff zmod_int)
    ultimately show ?thesis unfolding bulk_words_def Let_def by (simp only: gt)
  qed
  show thesis
  proof (cases "c mod 4096 + 4 * k > 4096")
    case False
    with that [of k] w k show thesis by (auto simp: c_def)
  next
    case True
    have "(c mod 4096) mod 4 = 0" using assms(1) by (simp add: c_def mod_mod_cancel)
    then have "4 dvd 4096 - c mod 4096" by (intro dvd_diff_nat) auto
    then have e: "4 * ((4096 - c mod 4096) div 4) = 4096 - c mod 4096" by simp
    have "c mod 4096 < 4096" by simp
    then have "1 \<le> (4096 - c mod 4096) div 4" using e by (cases "(4096 - c mod 4096) div 4") simp_all
    with that [of "(4096 - c mod 4096) div 4"] w True e k show thesis by (simp add: c_def)
  qed
qed

lemma unat_align4: "unat (align4 a) = unat a - unat a mod 4" "align4 a = word_of_nat (unat a - unat a mod 4)"
proof -
  show "unat (align4 a) = unat a - unat a mod 4"
    unfolding align4_def word_masks by (simp add: unat_masks minus_mod_eq_div_mult)
  moreover have "align4 a = word_of_nat (unat (align4 a))" by simp
  ultimately show "align4 a = word_of_nat (unat a - unat a mod 4)" by simp
qed

lemma aligned_nat: "cur AND 3 = 0 \<longleftrightarrow> unat cur mod 4 = 0" for cur :: u32
  using unat_masks(2) [of cur 2] unfolding word_masks(1) by (simp add: unat_eq_0 [symmetric])

lemma used_bytes_nat: "0 \<le> remain \<Longrightarrow> used_bytes cur remain = int (min (nat remain) (4 - unat cur mod 4))"
proof -
  assume "0 \<le> remain"
  then obtain r where r: "remain = int r" using nonneg_int_cases by blast
  have e: "uint (cur - align4 cur) = int (unat cur mod 4)" by (simp add: align4_mod zmod_int)
  have "unat cur mod 4 < 4" by simp
  then show ?thesis unfolding used_bytes_def e r Let_def by (auto simp: min_def)
qed

text \<open>How the accesses and their bytes split when the loop goes on by \<open>u\<close> bytes.\<close>

lemma read_accesses_Nil: "read_accesses a n = [] \<longleftrightarrow> n = 0"
  by (auto simp: read_accesses_def reads_def div_eq_0_iff)

lemma read_accesses_word:
  assumes "0 < n" "u = min n (4 - a mod 4)"
  shows "read_accesses a n = reads (a - a mod 4) 1 @ read_accesses (a + u) (n - u)"
proof -
  define r where "r = a mod 4"
  have r: "r < 4" "r \<le> a" by (simp_all add: r_def)
  show ?thesis
  proof (cases "n \<le> 4 - r")
    case True
    then have "(r + n + 3) div 4 = 1" using r assms(1) by (intro div_nat_eqI) auto
    with True assms show ?thesis by (simp add: read_accesses_def r_def)
  next
    case False
    then have u: "u = 4 - r" "0 < n - u" using assms(2) by (auto simp: r_def)
    have "a + u = a - r + 4" using u(1) r by simp
    moreover have "(a - r) mod 4 = 0" by (simp add: r_def minus_mod_eq_mult_div)
    ultimately have "(a + u) mod 4 = 0" by simp
    moreover have "(r + n + 3) div 4 = 1 + (n - u + 3) div 4"
    proof -
      have "r + n + 3 = 4 + (n - u + 3)" using u r False by simp
      then show ?thesis using div_add_self1 [of 4 "n - u + 3"] by simp
    qed
    ultimately show ?thesis
      using u(2) assms(1) \<open>a + u = a - r + 4\<close> reads_add [of "a - r" 1 "(n - u + 3) div 4"]
      unfolding read_accesses_def r_def [symmetric] by (simp del: reads_simps(2))
  qed
qed

lemma read_accesses_bulk:
  assumes "a mod 4 = 0" "4 * k < n"
  shows "read_accesses a n = reads a k @ read_accesses (a + 4 * k) (n - 4 * k)"
proof -
  have "(n + 3) div 4 = k + (n - 4 * k + 3) div 4"
  proof -
    have "n + 3 = (n - 4 * k + 3) + 4 * k" using assms(2) by simp
    then show ?thesis by (metis add.commute div_mult_self2 zero_neq_numeral)
  qed
  then show ?thesis using assms by (simp add: read_accesses_def reads_add)
qed

text \<open>One bulk read.\<close>

abbreviation bulk_read_op :: "u32 \<Rightarrow> nat \<Rightarrow> nat \<Rightarrow> rw_cb operation \<Rightarrow> rw_cb operation" where
  "bulk_read_op cur k p op \<equiv> command COMCODE_BULK_READ (word_bytes 4 cur @ [ucast (cur + word_of_nat (4 * k))]) 5 (Some (OnBulkRead, p)) op"

lemma bulk_read_op_blind: "blind hw rw_call (bulk_read_op cur k p op)"
proof -
  have "onBulkRead b (Some tx') (Some rx') p st = onBulkRead b (Some tx) (Some rx) p st"
    if "payload rx' = payload rx" "pk_data tx' = pk_data tx" for b tx tx' rx rx' st
    using that unfolding onBulkRead_def writeToReadBuffer_def prod.case option.case
    by (simp add: payload_def cong: if_cong)
  then show ?thesis unfolding blind_def by (auto simp: same_command_def)
qed

lemma bulk_read_op_run:
  assumes "unat cur mod 4 = 0" "0 < k" "k \<le> 7" "unat cur mod 4096 + 4 * k \<le> 4096" "unat cur + 4 * k < 2 ^ 32"
    and "bus_run bus (reads (unat cur) k) (h_bus h) = (rs, m)" "rw_heap c p = Some cb" "cb_buffer cb = Some b"
  shows "\<exists>h'. run_ops (packet_handler bus) rw_call [bulk_read_op cur k p op] (h, c) =
      Some (h', put_data p (store_from (sint (cur - cb_address cb)) (result_bytes rs) cb) c) \<and> h_bus h' = m"
proof -
  let ?d = "word_bytes 4 cur @ [ucast (cur + word_of_nat (4 * k))]"
  let ?tx = "op_p (bulk_read_op cur k p op)" and ?rx = "answer 0 (COMCODE_BULK_READ, result_bytes rs)"
  have stop: "unat (?d ! 4) mod 32 = (unat cur + 4 * k) mod 32"
  proof -
    have "unat (ucast (cur + word_of_nat (4 * k)) :: u8) = (unat cur + 4 * k) mod 256"
      by (simp only: unsigned_ucast_eq unat_add_small [OF assms(5)]) (simp add: take_bit_eq_mod)
    then show ?thesis by (simp add: nth_append mod_mod_cancel)
  qed
  have "\<exists>g. bulk_read 8 bus (?d ! 4) (h\<lparr>h_address := cur\<rparr>) = (result_bytes rs, g) \<and> h_bus g = m"
    by (rule bulk_read_run) (use assms stop in simp_all)
  then obtain g where g: "bulk_read 8 bus (?d ! 4) (h\<lparr>h_address := cur\<rparr>) = (result_bytes rs, g)" "h_bus g = m" by blast
  have len: "length (result_bytes rs) \<le> 28"
    using bus_run_length [OF assms(6)] assms(3) by (simp add: reads_def)
  have pl: "payload ?tx = ?d" by (simp add: payload_def)
  have "packet_handler bus COMCODE_BULK_READ ?d h = ((COMCODE_BULK_READ, result_bytes rs), g)"
    using g(1) len by (simp add: handler_simps be_word_word_bytes)
  moreover have "onBulkRead True (Some ?tx) (Some ?rx) p c =
      (0, put_data p (store_from (sint (cur - cb_address cb)) (result_bytes rs) cb) c)"
  proof -
    have "take 4 (pk_data ?tx) = word_bytes 4 cur" "take (pk_len ?rx) (pk_data ?rx) = result_bytes rs"
      by (simp_all add: answer_def)
    then show ?thesis
      using assms(7,8) unfolding onBulkRead_def prod.case option.case writeToReadBuffer_def with_data_def
      by (simp add: be_word_word_bytes)
  qed
  ultimately show ?thesis using g(2) pl by simp
qed

text \<open>
  The outcome of the loop from \<open>cur\<close> on, for the callback data \<open>cb\<close> with buffer \<open>b\<close>, of which
  the first \<open>off\<close> bytes were read before.
\<close>

definition read_outcome :: "nat \<Rightarrow> nat \<Rightarrow> nat \<Rightarrow> (u32 \<times> bool) list \<Rightarrow> u8 list \<Rightarrow> callback_data \<Rightarrow> callback_data \<Rightarrow> bool" where
  "read_outcome a off n rs b cb cb' \<longleftrightarrow>
     clientID cb' = clientID cb \<and> cb_address cb' = cb_address cb \<and> bufSize cb' = bufSize cb \<and>
     cb_buffer cb' = Some (take off b @ read_bytes a n rs) \<and>
     (if n = 0 then cb' = cb else lastFault cb' = snd (last rs) \<and> (lastFault cb' \<longrightarrow> lastFaultCode cb' = fst (last rs)))"

lemma put_data_twice: "put_data p x (put_data p y c) = put_data p x c"
  by (simp add: put_data_def)

lemma read_loop_run:
  assumes "rw_heap c p = Some cb" "buffer_ok cb b" "bufSize cb \<le> 4096" "unat (cb_address cb) + bufSize cb \<le> 0xFFFFF000"
    and "unat cur = unat (cb_address cb) + off" "off + n = bufSize cb" "unat cur mod 4 = 0 \<or> off = 0 \<or> n = 0"
    and "bus_run bus (read_accesses (unat cur) n) (h_bus h) = (rs, m)" "length (pk_data (op_p op)) = 30"
  shows "\<exists>ops h' cb'. uart_read_loop p cur (int n) op s = (fst (uart_read_loop p cur (int n) op s), fold debugCommands_queue ops s) \<and>
    (\<forall>op \<in> set ops. operation_ok op \<and> blind (packet_handler bus) rw_call op) \<and>
    run_ops (packet_handler bus) rw_call ops (h, c) = Some (h', put_data p cb' c) \<and> h_bus h' = m \<and>
    read_outcome (unat cur) off n rs b cb cb'"
  using assms
proof (induction n arbitrary: cur op s c cb b off h rs rule: less_induct)
  case (less n)
  show ?case
  proof (cases "n = 0")
    case True
    have "put_data p cb c = c" using less.prems(1) by (simp add: put_data_def fun_upd_idem)
    with True less.prems show ?thesis
      by (intro exI [of _ "[]"] exI [of _ h] exI [of _ cb])
        (simp add: uart_read_loop.simps read_outcome_def read_bytes_def read_accesses_def buffer_ok_def)
  next
    case False
    let ?C = "unat cur"
    obtain ops1 u op' h1 cb1 b1 rs1 rs2 where
      step: "uart_read_loop p cur (int n) op s = uart_read_loop p (cur + word_of_nat u) (int (n - u)) op' (fold debugCommands_queue ops1 s)"
        "\<forall>op \<in> set ops1. operation_ok op \<and> blind (packet_handler bus) rw_call op"
        "run_ops (packet_handler bus) rw_call ops1 (h, c) = Some (h1, put_data p cb1 c)"
        "rs = rs1 @ rs2" "bus_run bus (read_accesses (?C + u) (n - u)) (h_bus h1) = (rs2, m)"
        "0 < u" "u \<le> n" "(?C + u) mod 4 = 0 \<or> n - u = 0" "length (pk_data (op_p op')) = 30"
        "buffer_ok cb1 b1" "clientID cb1 = clientID cb" "cb_address cb1 = cb_address cb" "bufSize cb1 = bufSize cb"
        "take (off + u) b1 = take off b @ take u (drop (?C mod 4) (result_bytes rs1))"
        "n - u = 0 \<Longrightarrow> lastFault cb1 = snd (last rs1) \<and> (lastFault cb1 \<longrightarrow> lastFaultCode cb1 = fst (last rs1))"
        "n - u > 0 \<Longrightarrow> ?C mod 4 + u = 4 * length rs1"
    proof (cases "cur AND 3 = 0 \<and> int n \<ge> 8")
      case True
      then have aligned: "?C mod 4 = 0" by (simp add: aligned_nat)
      have "?C + n \<le> 0xFFFFF000" using less.prems(4-6) by simp
      then have "int ?C + int n \<le> 0xFFFFF000" by linarith
      from bulk_words_bounds [OF aligned _ this] True obtain k where k: "bulk_words cur (int n) = int k" "1 \<le> k" "k \<le> 7"
        "4 * int k + 4 \<le> int n" "?C mod 4096 + 4 * k \<le> 4096" by blast
      obtain rs1 m1 where b1: "bus_run bus (reads ?C k) (h_bus h) = (rs1, m1)" by force
      have C: "?C + n \<le> 4294963200" "?C + 4 * k < 2 ^ 32" "4 * k < n" using less.prems(4-6) k(4) by simp_all
      obtain rs2 where b2: "bus_run bus (read_accesses (?C + 4 * k) (n - 4 * k)) m1 = (rs2, m)" "rs = rs1 @ rs2"
        using less.prems(8) b1 by (auto simp: read_accesses_bulk [OF aligned C(3)] bus_run_append split: prod.splits)
      have len: "length rs1 = k" using bus_run_length [OF b1] by (simp add: reads_def)
      have buf: "cb_buffer cb = Some b" "length b = bufSize cb" using less.prems(2) by (simp_all add: buffer_ok_def)
      from bulk_read_op_run [OF aligned _ k(3,5) C(2) b1 less.prems(1) buf(1), of op] k(2) obtain h1 where
        h1: "run_ops (packet_handler bus) rw_call [bulk_read_op cur k p op] (h, c) =
            Some (h1, put_data p (store_from (sint (cur - cb_address cb)) (result_bytes rs1) cb) c)" "h_bus h1 = m1" by auto
      have "cur - cb_address cb = word_of_nat off" using less.prems(5) by (rule offset_word)
      then have o: "sint (cur - cb_address cb) = int off" using small_offset [of off 0] less.prems(3,6) by simp
      show thesis
      proof (rule that)
        show "uart_read_loop p cur (int n) op s = uart_read_loop p (cur + word_of_nat (4 * k)) (int (n - 4 * k))
            (bulk_read_op cur k p op) (fold debugCommands_queue [bulk_read_op cur k p op] s)"
          using True C(3) k(1) by (subst uart_read_loop.simps) (simp add: Let_def of_nat_diff ac_simps)
        show "run_ops (packet_handler bus) rw_call [bulk_read_op cur k p op] (h, c) =
            Some (h1, put_data p (cb\<lparr>cb_buffer := Some (overlay (int off) (result_bytes rs1) b)\<rparr>) c)"
          using h1(1) store_from_overlay [OF buf] by (simp add: o)
        show "take (off + 4 * k) (overlay (int off) (result_bytes rs1) b) = take off b @ take (4 * k) (drop (?C mod 4) (result_bytes rs1))"
          using overlay_take [of 0 off "4 * k" "result_bytes rs1" b] C(3) len buf(2) less.prems(6) by (simp add: aligned)
      qed (use b2 h1(2) C(3) k(2) len aligned buf bulk_read_op_blind less.prems(9) in
          \<open>auto simp: buffer_ok_def operation_ok_def packet_ok_def\<close>)
    next
      case volatile: False
      define r where "r = ?C mod 4"
      define u where "u = min n (4 - r)"
      have r: "r < 4" "r \<le> ?C" "r = 0 \<or> off = 0" using less.prems(7) False by (auto simp: r_def)
      have u: "0 < u" "u \<le> n" "r + u \<le> 4" "n - u > 0 \<Longrightarrow> r + u = 4" using r False by (auto simp: u_def)
      obtain v f m1 where b1: "bus (Bus_Read (align4 cur)) (h_bus h) = ((v, f), m1)" by (metis prod.exhaust)
      obtain rs2 where b2: "bus_run bus (read_accesses (?C + u) (n - u)) m1 = (rs2, m)" "rs = [(v, f)] @ rs2"
        using less.prems(8) b1 False by (auto simp: read_accesses_word [of n u ?C] u_def r_def unat_align4 bus_run_append split: prod.splits)
      have buf: "cb_buffer cb = Some b" "length b = bufSize cb" using less.prems(2) by (simp_all add: buffer_ok_def)
      from volatile_run [where flags = 0 and a = "align4 cur" and d = 0 and bus = bus and h = h and r = "(v, f)" and m = m1, OF less.prems(1)] b1 obtain h1 where
        h1: "run_ops (packet_handler bus) rw_call (volatile_ops (align4 cur) 0 0 p) (h, c) =
            Some (h1, put_data p (volatile_result (align4 cur) (v, f) cb) c)" "h_bus h1 = m1" by auto
      have "align4 cur - cb_address cb = word_of_nat off - word_of_nat r"
        using offset_word [OF less.prems(5)] r(2) unfolding unat_align4 r_def [symmetric] by (simp add: algebra_simps)
      then have o: "sint (align4 cur - cb_address cb) = int off - int r"
        using small_offset [of off r] less.prems(3,6) r(1) by simp
      define b1 where "b1 = overlay (int off - int r) (word_bytes 4 v @ [of_bool f]) b"
      have res: "volatile_result (align4 cur) (v, f) cb =
          cb\<lparr>cb_buffer := Some b1, lastFault := f, lastFaultCode := if f then v else lastFaultCode cb\<rparr>"
        unfolding volatile_result_def using store_from_overlay [OF buf] by (simp add: o buf(1) b1_def Let_def)
      have "n - u = 0 \<or> (?C + u) mod 4 = 0"
      proof (cases "n - u > 0")
        case True
        then have "?C + u = ?C - r + 4" using u(4) r by simp
        moreover have "(?C - r) mod 4 = 0" by (simp add: r_def minus_mod_eq_mult_div)
        ultimately show ?thesis by simp
      qed simp
      moreover have "take (off + u) b1 = take off b @ take u (drop (?C mod 4) (result_bytes [(v, f)]))"
        using overlay_take [of r off u "word_bytes 4 v @ [of_bool f]" b] r(3) u buf(2) less.prems(6)
        by (simp add: b1_def r_def)
      moreover have "uart_read_loop p cur (int n) op s = uart_read_loop p (cur + word_of_nat u) (int (n - u)) op
          (fold debugCommands_queue (volatile_ops (align4 cur) 0 0 p) s)"
        using volatile False u(2) by (subst uart_read_loop.simps)
          (auto simp: used_bytes_nat u_def r_def queueVolatile_ops Let_def of_nat_diff)
      ultimately show thesis
        using that [of u op "volatile_ops (align4 cur) 0 0 p" h1 _ "[(v, f)]" rs2 b1, OF _ _ h1(1)] b2 h1(2) u buf less.prems(9)
        by (auto simp: res buffer_ok_def r_def volatile_ops_ok volatile_ops_blind b1_def)
    qed
    have C: "unat (cur + word_of_nat u) = ?C + u"
      using less.prems(4-6) step(7) by (intro unat_add_small) simp
    have "\<exists>ops h' cb'. uart_read_loop p (cur + word_of_nat u) (int (n - u)) op' (fold debugCommands_queue ops1 s) =
        (fst (uart_read_loop p (cur + word_of_nat u) (int (n - u)) op' (fold debugCommands_queue ops1 s)),
          fold debugCommands_queue ops (fold debugCommands_queue ops1 s)) \<and>
      (\<forall>op \<in> set ops. operation_ok op \<and> blind (packet_handler bus) rw_call op) \<and>
      run_ops (packet_handler bus) rw_call ops (h1, put_data p cb1 c) = Some (h', put_data p cb' (put_data p cb1 c)) \<and> h_bus h' = m \<and>
      read_outcome (unat (cur + word_of_nat u)) (off + u) (n - u) rs2 b1 cb1 cb'"
    proof (rule less.IH)
      show "n - u < n" using step(6) False by simp
      show "rw_heap (put_data p cb1 c) p = Some cb1" by (simp add: put_data_def)
    qed (use less.prems step in \<open>auto simp: C\<close>)
    then obtain ops h' cb' where ih0: "uart_read_loop p (cur + word_of_nat u) (int (n - u)) op' (fold debugCommands_queue ops1 s) =
        (fst (uart_read_loop p (cur + word_of_nat u) (int (n - u)) op' (fold debugCommands_queue ops1 s)),
          fold debugCommands_queue ops (fold debugCommands_queue ops1 s))"
      "\<forall>op \<in> set ops. operation_ok op \<and> blind (packet_handler bus) rw_call op"
      "run_ops (packet_handler bus) rw_call ops (h1, put_data p cb1 c) = Some (h', put_data p cb' c)" "h_bus h' = m"
      "read_outcome (?C + u) (off + u) (n - u) rs2 b1 cb1 cb'"
      unfolding put_data_twice C by blast
    have ih: "uart_read_loop p (cur + word_of_nat u) (int (n - u)) op' (fold debugCommands_queue ops1 s) =
        (fst (uart_read_loop p (cur + word_of_nat u) (int (n - u)) op' (fold debugCommands_queue ops1 s)),
          fold debugCommands_queue (ops1 @ ops) s)"
      using ih0(1) by simp
    have queued: "\<forall>op \<in> set (ops1 @ ops). operation_ok op \<and> blind (packet_handler bus) rw_call op"
      "run_ops (packet_handler bus) rw_call (ops1 @ ops) (h, c) = Some (h', put_data p cb' c)"
      using ih0(2,3) step(2,3) by (auto simp: run_ops_append)
    have len: "length rs2 = length (read_accesses (?C + u) (n - u))" by (rule bus_run_length [OF step(5)])
    have "read_outcome ?C off n rs b cb cb'"
    proof (cases "n - u = 0")
      case True
      then have "rs2 = []" "u = n" using len step(7) by (auto simp: read_accesses_def)
      with ih0(5) step False show ?thesis by (auto simp: read_outcome_def read_bytes_def buffer_ok_def)
    next
      case more: False
      have "rs2 \<noteq> []" using len more read_accesses_Nil [of "?C + u" "n - u"] by auto
      moreover have "(?C + u) mod 4 = 0" using step(8) more by simp
      moreover have "take n (drop (?C mod 4) (result_bytes rs)) =
          take u (drop (?C mod 4) (result_bytes rs1)) @ take (n - u) (result_bytes rs2)"
      proof -
        have "?C mod 4 + u = 4 * length rs1" using step(16) more by simp
        then have "n + ?C mod 4 - 4 * length rs1 = n - u" "4 * length rs1 - ?C mod 4 = u" using step(7) by linarith+
        with step(4,7) show ?thesis by simp
      qed
      ultimately show ?thesis
        using ih0(5) step more by (auto simp: read_outcome_def read_bytes_def)
    qed
    with ih queued ih0(4) show ?thesis unfolding step(1) by blast
  qed
qed

section \<open>Read requests\<close>

text \<open>The reply, as a function of the results of the bus: the last transfer decides on the fault.\<close>

definition fault_reply :: "string \<Rightarrow> u32 \<Rightarrow> nat \<Rightarrow> u32 \<Rightarrow> string" where
  "fault_reply what a n fault = ''OK, '' @ what @ '', Fault, '' @ hexU 8 (unat a) @ '', '' @ decU n @ '', '' @
     hexU 8 (unat fault) @ '';\<newline>''"

lemma complete_read:
  assumes "cb_buffer d = Some b" "length b = bufSize d"
  shows "complete_reply True d =
    (if lastFault d then fault_reply ''Read'' (cb_address d) (bufSize d) (lastFaultCode d) else read_reply (cb_address d) b)"
proof -
  have "concat (map (\<lambda>i. hexU 2 (unat (b ! i))) [0..<length b]) = hex_bytes b"
    unfolding hex_bytes_def by (intro arg_cong [where f = concat] nth_equalityI) simp_all
  with assms show ?thesis by (simp add: complete_reply_def fault_reply_def read_reply_def)
qed

text \<open>The last barrier of a request sends the reply and frees the callback data.\<close>

definition finished :: "nat \<Rightarrow> int \<Rightarrow> string \<Rightarrow> rw_state \<Rightarrow> rw_state" where
  "finished p who reply c = c\<lparr>rw_heap := (rw_heap c)(p := None), rw_sent := rw_sent c @ [(who, reply)]\<rparr>"

lemma blind_complete: "blind hw rw_call (barrier (Some (OnReadWriteComplete, p)) op)"
proof -
  have "onReadWriteComplete b tx rx p c = onReadWriteComplete b tx' rx' p c" for b tx rx tx' rx' c
    by (simp add: onReadWriteComplete_def)
  then show ?thesis unfolding blind_def by (metis rw_call_simps(3) operation_simps(2) option.inject)
qed

lemma request_run:
  assumes "quiet s" "\<forall>op \<in> set ops. operation_ok op \<and> blind (packet_handler bus) rw_call op"
    and "run_ops (packet_handler bus) rw_call ops (h, upper s) = Some (h', put_data p cb (upper s))"
  shows "\<exists>t. update_all (packet_handler bus) rw_call clock
      (debugCommands_queue (barrier (Some (OnReadWriteComplete, p)) op) (fold debugCommands_queue ops s), h) = (t, h') \<and>
    quiet t \<and> isDone t \<and> upper t = finished p (clientID cb) (complete_reply True cb) (upper s)"
proof -
  let ?last = "barrier (Some (OnReadWriteComplete, p)) op"
  have run: "run_ops (packet_handler bus) rw_call (ops @ [?last]) (h, upper s) =
      Some (h', finished p (clientID cb) (complete_reply True cb) (upper s))"
    by (simp add: run_ops_append assms(3) onReadWriteComplete_def with_data_def put_data_def finished_def)
  have ok: "\<forall>op \<in> set (ops @ [?last]). operation_ok op \<and> blind (packet_handler bus) rw_call op"
    using assms(2) blind_complete by (auto simp: operation_ok_def)
  have n: "queue_contents (opQueue (fold debugCommands_queue (ops @ [?last]) s)) = ops @ [?last]"
    using ok by (intro quiet_queue [OF assms(1)]) blast
  have "fold debugCommands_queue (ops @ [?last]) s = debugCommands_queue ?last (fold debugCommands_queue ops s)" by simp
  with quiet_run [OF handler_ok ok assms(1) run, of clock] n show ?thesis unfolding update_all_def fst_conv by metis
qed

lemma alloc_data_upper: "alloc_data d s = s\<lparr>upper := upper (alloc_data d s)\<rparr>" "rw_heap (upper (alloc_data d s)) (rw_next (upper s)) = Some d"
  by (simp_all add: alloc_data_def)

lemma quiet_alloc: "quiet s \<Longrightarrow> quiet (alloc_data d s)"
  by (subst alloc_data_upper(1)) (rule quiet_upper)

definition served :: "int \<Rightarrow> string \<Rightarrow> rw_state \<Rightarrow> rw_state" where
  "served who reply c = c\<lparr>rw_heap := (rw_heap c)(rw_next c := None), rw_next := rw_next c + 1,
     rw_sent := rw_sent c @ [(who, reply)]\<rparr>"

lemma alloc_finished: "finished (rw_next (upper s)) who reply (upper (alloc_data d s)) = served who reply (upper s)"
  by (simp add: finished_def alloc_data_def served_def)

lemma read_bytes_length: "bus_run bus (read_accesses a n) m = (rs, m') \<Longrightarrow> length (read_bytes a n rs) = n"
proof (cases "n = 0")
  case False
  assume "bus_run bus (read_accesses a n) m = (rs, m')"
  then have "length rs = (a mod 4 + n + 3) div 4"
    using False by (auto dest!: bus_run_length simp: read_accesses_def reads_def)
  then have "a mod 4 + n \<le> 4 * length rs" by presburger
  then show ?thesis by (simp add: read_bytes_def)
qed (simp add: read_bytes_def)

lemma read_request:
  assumes "quiet s" "0 < n" "n \<le> 4096" "unat a + n \<le> 0xFFFFF000"
    and "bus_run bus (read_accesses (unat a) n) (h_bus h) = (rs, m)"
  shows "\<exists>t h'. update_all (packet_handler bus) rw_call clock (handleRead junk a n who s, h) = (t, h') \<and>
    quiet t \<and> isDone t \<and> h_bus h' = m \<and> upper t = served who
      (if snd (last rs) then fault_reply ''Read'' a n (fst (last rs)) else read_reply a (read_bytes (unat a) n rs)) (upper s)"
proof -
  let ?p = "rw_next (upper s)" and ?b = "map junk [0..<n]"
  let ?d = "\<lparr>clientID = who, cb_address = a, cb_buffer = Some ?b, bufSize = n, lastFault = False, lastFaultCode = 0\<rparr>"
  let ?s = "alloc_data ?d s"
  have "buffer_ok ?d ?b" "length (pk_data (op_p local_op)) = 30" by (simp_all add: buffer_ok_def local_op_def zero_packet_def)
  then have "\<exists>ops h' cb. uart_read_loop ?p a (int n) local_op ?s =
        (fst (uart_read_loop ?p a (int n) local_op ?s), fold debugCommands_queue ops ?s) \<and>
      (\<forall>op \<in> set ops. operation_ok op \<and> blind (packet_handler bus) rw_call op) \<and>
      run_ops (packet_handler bus) rw_call ops (h, upper ?s) = Some (h', put_data ?p cb (upper ?s)) \<and> h_bus h' = m \<and>
      read_outcome (unat a) 0 n rs ?b ?d cb"
    using assms by (intro read_loop_run [OF alloc_data_upper(2)]) simp_all
  then obtain ops h' cb where run: "uart_read_loop ?p a (int n) local_op ?s =
        (fst (uart_read_loop ?p a (int n) local_op ?s), fold debugCommands_queue ops ?s)"
      "\<forall>op \<in> set ops. operation_ok op \<and> blind (packet_handler bus) rw_call op"
      "run_ops (packet_handler bus) rw_call ops (h, upper ?s) = Some (h', put_data ?p cb (upper ?s))" "h_bus h' = m"
      "read_outcome (unat a) 0 n rs ?b ?d cb"
    by blast
  have "quiet ?s" by (rule quiet_alloc [OF assms(1)])
  from request_run [OF this run(2,3)] obtain t where
    t: "update_all (packet_handler bus) rw_call clock
        (debugCommands_queue (barrier (Some (OnReadWriteComplete, ?p)) (fst (uart_read_loop ?p a (int n) local_op ?s)))
          (fold debugCommands_queue ops ?s), h) = (t, h')" "quiet t" "isDone t"
      "upper t = finished ?p (clientID cb) (complete_reply True cb) (upper ?s)" by blast
  have h: "handleRead junk a n who s =
      debugCommands_queue (barrier (Some (OnReadWriteComplete, ?p)) (fst (uart_read_loop ?p a (int n) local_op ?s)))
        (fold debugCommands_queue ops ?s)"
    unfolding handleRead_def Let_def by (subst run(1)) simp
  have "length (read_bytes (unat a) n rs) = n"
    by (rule read_bytes_length [OF assms(5)])
  then have "complete_reply True cb =
      (if snd (last rs) then fault_reply ''Read'' a n (fst (last rs)) else read_reply a (read_bytes (unat a) n rs))"
    using run(5) assms(2) by (auto simp: read_outcome_def complete_read)
  then have "upper t = served who
      (if snd (last rs) then fault_reply ''Read'' a n (fst (last rs)) else read_reply a (read_bytes (unat a) n rs)) (upper s)"
    using t(4) run(5) by (simp add: alloc_finished read_outcome_def)
  with t(1-3) run(4) show ?thesis unfolding h by blast
qed

end
