(* ===== verification/Uart_Write.thy ===== *)
theory Uart_Write
  imports Uart_Access
begin

text \<open>
  Write requests over the UART (\<open>handleWrite\<close> in \<open>rvsrv/uart/debugReadWrite.c\<close>), end to end: the
  mix of bulk writes, page changes and volatile writes performs the writes of words, halfwords and
  bytes that \<open>write_accesses\<close> says, each once and in order, on an arbitrary bus.
\<close>

section \<open>The transfers of a write\<close>

function write_accesses :: "nat \<Rightarrow> u8 list \<Rightarrow> bus_request list" where
  "write_accesses a d =
     (if d = [] then []
      else if a mod 4 = 0 \<and> length d \<ge> 4 then
        Bus_Write (word_of_nat a) (be_word (take 4 d)) 0xF # write_accesses (a + 4) (drop 4 d)
      else if a mod 2 = 0 \<and> length d \<ge> 2 then
        Bus_Write (word_of_nat (a - a mod 4)) (be_word (take 2 d @ take 2 d)) (if a mod 4 = 2 then 3 else 0xC) #
          write_accesses (a + 2) (drop 2 d)
      else Bus_Write (word_of_nat (a - a mod 4)) (be_word (replicate 4 (hd d))) (push_bit (3 - a mod 4) 1) #
          write_accesses (a + 1) (drop 1 d))"
  by auto
termination
  by (relation "measure (\<lambda>(a, d). length d)") auto

declare write_accesses.simps [simp del]

lemma write_accesses_Nil [simp]: "write_accesses a [] = []"
  by (simp add: write_accesses.simps)

lemma write_accesses_eq_Nil: "write_accesses a d = [] \<longleftrightarrow> d = []"
  by (subst write_accesses.simps) simp

lemma word_writes_take: "word_writes a k (take (4 * k) d) = word_writes a k d"
  by (induction k arbitrary: a d) (simp_all add: min_def drop_take)

lemma write_accesses_words:
  "a mod 4 = 0 \<Longrightarrow> 4 * k \<le> length d \<Longrightarrow>
    write_accesses a d = word_writes a k d @ write_accesses (a + 4 * k) (drop (4 * k) d)"
proof (induction k arbitrary: a d)
  case (Suc k)
  have "write_accesses a d = Bus_Write (word_of_nat a) (be_word (take 4 d)) 0xF # write_accesses (a + 4) (drop 4 d)"
    using Suc.prems by (subst write_accesses.simps) auto
  also have "write_accesses (a + 4) (drop 4 d) =
      word_writes (a + 4) k (drop 4 d) @ write_accesses (a + 4 + 4 * k) (drop (4 * k) (drop 4 d))"
    using Suc.prems by (intro Suc.IH) auto
  finally show ?case by (simp add: ac_simps)
qed simp

section \<open>Page changes and bulk writes\<close>

definition page_ops :: "u32 \<Rightarrow> rw_cb operation \<Rightarrow> rw_cb operation list" where
  "page_ops cur op =
     (let op1 = barrier None op;
          op2 = command COMCODE_SET_PAGE [ucast (drop_bit 24 cur), ucast (drop_bit 16 cur), ucast (drop_bit 8 cur) AND 0xF0] 3 None op1
      in [op1, op2, barrier None op2])"

lemma set_page_ops: "set_page cur op s = (last (page_ops cur op), fold debugCommands_queue (page_ops cur op) s)"
  by (simp add: set_page_def page_ops_def Let_def)

lemma page_bytes:
  "drop_bit 12 (push_bit 8 (be_word [ucast (drop_bit 24 a), ucast (drop_bit 16 a), ucast (drop_bit 8 a) AND 0xF0]) OR (x AND 0xFF)) = drop_bit 12 a"
  for a x :: u32
proof -
  have m: "(0xF0 :: u8) = NOT (mask 4)" "(0xFF :: u32) = mask 8" by (simp_all add: mask_eq_exp_minus_1)
  show ?thesis
    unfolding m
  proof (rule bit_word_eqI)
    fix n :: nat
    consider "n < 4" | k where "n = 4 + k" "k < 8" | k where "n = 12 + k"
    proof -
      assume *: "n < 4 \<Longrightarrow> thesis" "\<And>k. n = 4 + k \<Longrightarrow> k < 8 \<Longrightarrow> thesis" "\<And>k. n = 12 + k \<Longrightarrow> thesis"
      consider "n < 4" | "4 \<le> n \<and> n < 12" | "12 \<le> n" by linarith
      then show thesis using *(1) *(2) [of "n - 4"] *(3) [of "n - 12"] by cases auto
    qed
    then show "bit (drop_bit 12 (push_bit 8 (be_word [ucast (drop_bit 24 a), ucast (drop_bit 16 a), ucast (drop_bit 8 a) AND NOT (mask 4)])
        OR (x AND mask 8))) n = bit (drop_bit 12 a) n"
      by cases (auto simp: be_word_def bit_simps dest: bit_imp_le_length)
  qed
qed

lemma page_ops_run:
  "\<exists>h'. run_ops (packet_handler bus) rw_call (page_ops cur op) (h, c) = Some (h', c) \<and> h_bus h' = h_bus h \<and>
    unat (h_address h') div 4096 = unat cur div 4096"
proof -
  let ?d = "[ucast (drop_bit 24 cur), ucast (drop_bit 16 cur), ucast (drop_bit 8 cur) AND 0xF0 :: u8]"
  have "payload (op_p (command COMCODE_SET_PAGE ?d 3 None (barrier None op))) = ?d" by (simp add: payload_def)
  moreover have "unat (push_bit 8 (be_word ?d) OR (h_address h AND 0xFF)) div 4096 = unat cur div 4096"
    unfolding unat_drop_page [symmetric] by (simp only: page_bytes)
  ultimately show ?thesis
    by (simp add: page_ops_def handler_simps Let_def del: word_ao_dist)
qed

lemma page_ops_ok:
  "length (pk_data (op_p op)) = 30 \<Longrightarrow> \<forall>x \<in> set (page_ops cur op). operation_ok x \<and> blind hw rw_call x"
  by (simp add: page_ops_def Let_def operation_ok_def packet_ok_def blind_no_callback)

abbreviation bulk_write_op :: "u32 \<Rightarrow> nat \<Rightarrow> u8 list \<Rightarrow> rw_cb operation \<Rightarrow> rw_cb operation" where
  "bulk_write_op cur k d op \<equiv> command COMCODE_BULK_WRITE (ucast ((cur AND 0xFFF) div 28) # take (4 * k) d) (4 * k + 1) None op"

lemma bulk_write_op_run:
  assumes "unat cur mod 4096 mod 28 = 0" "0 < k" "unat cur mod 4096 + 4 * k \<le> 4096" "4 * k \<le> length d"
    and "unat (h_address h) div 4096 = unat cur div 4096" "bus_run bus (word_writes (unat cur) k d) (h_bus h) = (rs, m)"
  shows "\<exists>h'. run_ops (packet_handler bus) rw_call [bulk_write_op cur k d op] (h, c) = Some (h', c) \<and> h_bus h' = m \<and>
    unat (h_address h') div 4096 = unat cur div 4096"
proof -
  let ?i = "ucast ((cur AND 0xFFF) div 28) :: u8"
  have pl: "payload (op_p (bulk_write_op cur k d op)) = ?i # take (4 * k) d" using assms(4) by (simp add: payload_def)
  have "unat (cur AND 0xFFF) = unat cur mod 4096" unfolding word_masks by (simp add: unat_masks)
  then have "unat ((cur AND 0xFFF) div 28) = unat cur mod 4096 div 28" by (simp add: unat_div)
  moreover have "unat cur mod 4096 div 28 < 256" by (simp add: div_less_iff_less_mult)
  ultimately have "unat ?i = unat cur mod 4096 div 28" by (simp add: unsigned_ucast_eq take_bit_eq_mod)
  then have "unat ?i * 28 = unat cur mod 4096" using assms(1) by (metis add.right_neutral div_mult_mod_eq)
  then have a: "unat (load_mult ?i (h_address h)) = unat cur"
    using load_mult_unat [of ?i "h_address h"] assms(5) by (simp add: mult.commute)
  define g where "g = h\<lparr>h_address := load_mult ?i (h_address h)\<rparr>"
  have g: "unat (h_address g) = unat cur" "h_bus g = h_bus h" by (simp_all add: g_def a)
  have "(unat cur mod 4096) mod 4 = 0"
  proof -
    from assms(1) have "28 dvd unat cur mod 4096" by auto
    then have "4 dvd unat cur mod 4096" by (rule dvd_trans [rotated]) simp
    then show ?thesis by simp
  qed
  then have "unat cur mod 4 = 0" by (simp add: mod_mod_cancel)
  then have "h_bus (bulk_write bus (take (4 * k) d) g) = m \<and>
      unat (h_address (bulk_write bus (take (4 * k) d) g)) div 4096 = unat (h_address g) div 4096"
    using assms by (intro bulk_write_run [where k = k]) (simp_all add: g word_writes_take)
  with pl show ?thesis by (simp add: handler_simps g_def [symmetric] g(1))
qed

section \<open>The loop of a write request\<close>

definition write_outcome :: "nat \<Rightarrow> (u32 \<times> bool) list \<Rightarrow> callback_data \<Rightarrow> callback_data \<Rightarrow> bool" where
  "write_outcome n rs cb cb' \<longleftrightarrow>
     clientID cb' = clientID cb \<and> cb_address cb' = cb_address cb \<and> bufSize cb' = bufSize cb \<and> cb_buffer cb' = None \<and>
     (if n = 0 then cb' = cb else lastFault cb' = snd (last rs) \<and> (lastFault cb' \<longrightarrow> lastFaultCode cb' = fst (last rs)))"

text \<open>The page register is what the loop takes it for, or no bulk write will follow.\<close>

definition page_ok :: "int \<Rightarrow> u32 \<Rightarrow> nat \<Rightarrow> 'm handler \<Rightarrow> bool" where
  "page_ok curPage cur n h \<longleftrightarrow> curPage = -1 \<or> n < 8 \<or>
     unat cur mod 4096 mod 28 = 0 \<and> curPage = int (unat (h_address h) div 4096)"

lemma low_bits: "cur AND 1 = 0 \<longleftrightarrow> unat cur mod 2 = 0" "cur AND 2 = 0 \<longleftrightarrow> unat cur mod 4 < 2"
  "cur AND 3 = 0 \<longleftrightarrow> unat cur mod 4 = 0" "cur AND 3 = 1 \<longleftrightarrow> unat cur mod 4 = 1" "cur AND 3 = 2 \<longleftrightarrow> unat cur mod 4 = 2" for cur :: u32
proof -
  have m: "(1 :: u32) = mask 1" "(2 :: u32) = mask 2 AND NOT (mask 1)" "(3 :: u32) = mask 2" by (simp_all add: mask_eq_exp_minus_1)
  have a: "unat (cur AND mask 1) = unat cur mod 2" "unat (cur AND mask 2) = unat cur mod 4"
    using unat_masks(2) [of cur 1] unat_masks(2) [of cur 2] by simp_all
  have b: "unat (cur AND (mask 2 AND NOT (mask 1))) = unat cur mod 4 div 2 * 2"
    unfolding and.assoc [symmetric] using unat_masks(1) [of 1 "cur AND mask 2"] a(2) by simp
  show "cur AND 1 = 0 \<longleftrightarrow> unat cur mod 2 = 0" unfolding m(1) by (simp only: word_unat_eq_iff a) simp
  show "cur AND 2 = 0 \<longleftrightarrow> unat cur mod 4 < 2"
    unfolding m(2) by (simp only: word_unat_eq_iff b) (auto simp: div_eq_0_iff)
  show "cur AND 3 = 0 \<longleftrightarrow> unat cur mod 4 = 0" "cur AND 3 = 1 \<longleftrightarrow> unat cur mod 4 = 1" "cur AND 3 = 2 \<longleftrightarrow> unat cur mod 4 = 2"
    unfolding m(3) by (simp_all only: word_unat_eq_iff a) simp_all
qed

lemma bulk_write_nat: "(cur AND 0xFFF) mod 28 = 0 \<longleftrightarrow> unat cur mod 4096 mod 28 = 0" for cur :: u32
proof -
  have "unat (cur AND 0xFFF) = unat cur mod 4096" unfolding word_masks by (simp add: unat_masks)
  then show ?thesis by (simp add: word_unat_eq_iff unat_mod)
qed

lemma next_offset:
  assumes "c mod 4096 mod 28 = 0" "c mod 4096 + 4 * k \<le> 4096" "k = 7 \<or> c mod 4096 + 4 * k = 4096"
  shows "(c + 4 * k) mod 4096 mod 28 = (0 :: nat)"
proof (cases "c mod 4096 + 4 * k = 4096")
  case True
  then show ?thesis using mod_add_left_eq [of c 4096 "4 * k"] by simp
next
  case False
  with assms(2,3) have "(c + 4 * k) mod 4096 = c mod 4096 + 28" using in_page [of c "4 * k"] by simp
  then show ?thesis using assms(1) by simp
qed

text \<open>One step of the loop that is not a bulk write is a volatile write.\<close>

lemma volatile_step:
  assumes "n = length d" "0 < n" "unat cur + n \<le> 0xFFFFF000" "\<not> ((cur AND 0xFFF) mod 28 = 0 \<and> n \<ge> 8)"
  obtains u v fl where
    "uart_write_loop p cur (int n) d pg op s = uart_write_loop p (cur + word_of_nat u) (int (n - u)) (drop u d) pg op
      (queueVolatile (align4 cur) v fl p s)"
    "write_accesses (unat cur) d = Bus_Write (align4 cur) v (drop_bit 4 fl) # write_accesses (unat cur + u) (drop u d)"
    "bit fl 3" "0 < u" "u \<le> n"
proof -
  have nb: "\<not> ((cur AND 0xFFF) mod 28 = 0 \<and> 8 \<le> int n)" "int n \<noteq> 0" "\<not> int n < 0" "d \<noteq> []"
    using assms by auto
  note loop = uart_write_loop.simps [of p cur "int n" d pg op s,
    unfolded if_not_P [OF nb(2)] if_not_P [OF nb(3)] if_not_P [OF nb(1)]]
  have align: "align4 cur = word_of_nat (unat cur - unat cur mod 4)" by (rule unat_align4)
  show thesis
  proof (cases "unat cur mod 4 = 0 \<and> n \<ge> 4")
    case word: True
    have w: "write_accesses (unat cur) d =
        Bus_Write (align4 cur) (be_word (take 4 d)) (drop_bit 4 0xF8) # write_accesses (unat cur + 4) (drop 4 d)"
      using word assms(1) nb(4) by (subst write_accesses.simps) (simp add: align)
    have l: "uart_write_loop p cur (int n) d pg op s = uart_write_loop p (cur + word_of_nat 4) (int (n - 4)) (drop 4 d) pg op
        (queueVolatile (align4 cur) (be_word (take 4 d)) 0xF8 p s)"
      unfolding loop using word by (simp add: low_bits of_nat_diff)
    show thesis by (rule that [OF l w]) (use word in simp_all)
  next
    case not_word: False
    then have nw: "\<not> (cur AND 3 = 0 \<and> 4 \<le> int n)" by (simp add: low_bits)
    show thesis
    proof (cases "unat cur mod 2 = 0 \<and> n \<ge> 2")
    case half: True
    then have hw: "cur AND 1 = 0 \<and> 2 \<le> int n" by (simp add: low_bits)
    let ?fl = "if cur AND 2 \<noteq> 0 then 0x38 else 0xC8 :: u8"
    have "unat cur mod 4 = 0 \<or> unat cur mod 4 = 2" using half by presburger
    then have m: "drop_bit 4 ?fl = (if unat cur mod 4 = 2 then 3 else 0xC)" "bit ?fl 3" by (auto simp: low_bits)
    have w: "write_accesses (unat cur) d =
        Bus_Write (align4 cur) (be_word (take 2 d @ take 2 d)) (drop_bit 4 ?fl) # write_accesses (unat cur + 2) (drop 2 d)"
      unfolding m(1) using half not_word assms(1) nb(4) by (subst write_accesses.simps) (simp add: align)
    have l: "uart_write_loop p cur (int n) d pg op s = uart_write_loop p (cur + word_of_nat 2) (int (n - 2)) (drop 2 d) pg op
        (queueVolatile (align4 cur) (be_word (take 2 d @ take 2 d)) ?fl p s)"
      unfolding loop if_not_P [OF nw] if_P [OF hw] using conjunct2 [OF half] by (simp only: of_nat_diff) simp
    show thesis by (rule that [OF l w m(2)]) (use half in simp_all)
  next
    case byte: False
    then have nh: "\<not> (cur AND 1 = 0 \<and> 2 \<le> int n)" by (simp add: low_bits)
    let ?fl = "push_bit 4 (if cur AND 3 = 0 then 8 else if cur AND 3 = 1 then 4 else if cur AND 3 = 2 then 2 else 1) OR 8 :: u8"
    have "unat cur mod 4 = 0 \<or> unat cur mod 4 = 1 \<or> unat cur mod 4 = 2 \<or> unat cur mod 4 = 3" by linarith
    then have m: "drop_bit 4 ?fl = push_bit (3 - unat cur mod 4) 1" "bit ?fl 3" by (auto simp: low_bits)
    have w: "write_accesses (unat cur) d =
        Bus_Write (align4 cur) (be_word (replicate 4 (hd d))) (drop_bit 4 ?fl) # write_accesses (unat cur + 1) (drop 1 d)"
      unfolding m(1) align write_accesses.simps [of "unat cur" d] if_not_P [OF nb(4)]
        if_not_P [OF not_word [unfolded assms(1)]] if_not_P [OF byte [unfolded assms(1)]] ..
    have l: "uart_write_loop p cur (int n) d pg op s = uart_write_loop p (cur + word_of_nat 1) (int (n - 1)) (drop 1 d) pg op
        (queueVolatile (align4 cur) (be_word (replicate 4 (hd d))) ?fl p s)"
      unfolding loop if_not_P [OF nw] if_not_P [OF nh] using assms(2) by (simp add: of_nat_diff)
    show thesis by (rule that [OF l w m(2)]) (use assms(2) in simp_all)
    qed
  qed
qed

lemma write_loop_run:
  assumes "rw_heap c p = Some cb" "cb_buffer cb = None" "n = length d" "unat cur + n \<le> 0xFFFFF000" "page_ok curPage cur n h"
    and "op_cb op = None" "length (pk_data (op_p op)) = 30" "bus_run bus (write_accesses (unat cur) d) (h_bus h) = (rs, m)"
  shows "\<exists>op' ops h' cb'. uart_write_loop p cur (int n) d curPage op s = Some (op', fold debugCommands_queue ops s) \<and>
    (\<forall>op \<in> set ops. operation_ok op \<and> blind (packet_handler bus) rw_call op) \<and>
    run_ops (packet_handler bus) rw_call ops (h, c) = Some (h', put_data p cb' c) \<and> h_bus h' = m \<and> write_outcome n rs cb cb'"
  using assms
proof (induction n arbitrary: cur d op curPage s c cb h rs rule: less_induct)
  case (less n)
  show ?case
  proof (cases "n = 0")
    case True
    have "put_data p cb c = c" using less.prems(1) by (simp add: put_data_def fun_upd_idem)
    with True less.prems show ?thesis
      by (intro exI [of _ op] exI [of _ "[]"] exI [of _ h] exI [of _ cb]) (simp add: uart_write_loop.simps write_outcome_def)
  next
    case False
    let ?C = "unat cur"
    obtain ops1 u op1 pg h1 cb1 rs1 rs2 where
      step: "uart_write_loop p cur (int n) d curPage op s =
          uart_write_loop p (cur + word_of_nat u) (int (n - u)) (drop u d) pg op1 (fold debugCommands_queue ops1 s)"
        "\<forall>op \<in> set ops1. operation_ok op \<and> blind (packet_handler bus) rw_call op"
        "run_ops (packet_handler bus) rw_call ops1 (h, c) = Some (h1, put_data p cb1 c)"
        "rs = rs1 @ rs2" "bus_run bus (write_accesses (?C + u) (drop u d)) (h_bus h1) = (rs2, m)"
        "0 < u" "u \<le> n" "page_ok pg (cur + word_of_nat u) (n - u) h1" "op_cb op1 = None" "length (pk_data (op_p op1)) = 30"
        "cb_buffer cb1 = None" "clientID cb1 = clientID cb" "cb_address cb1 = cb_address cb" "bufSize cb1 = bufSize cb"
        "n - u = 0 \<Longrightarrow> lastFault cb1 = snd (last rs1) \<and> (lastFault cb1 \<longrightarrow> lastFaultCode cb1 = fst (last rs1))"
    proof (cases "(cur AND 0xFFF) mod 28 = 0 \<and> n \<ge> 8")
      case volatile: False
      from volatile_step [OF less.prems(3) _ less.prems(4) volatile, of p curPage op s] False obtain u v fl where
        vs: "uart_write_loop p cur (int n) d curPage op s = uart_write_loop p (cur + word_of_nat u) (int (n - u)) (drop u d) curPage op
            (queueVolatile (align4 cur) v fl p s)"
          "write_accesses ?C d = Bus_Write (align4 cur) v (drop_bit 4 fl) # write_accesses (?C + u) (drop u d)"
          "bit fl 3" "0 < u" "u \<le> n" by blast
      obtain r m1 where b1: "bus (Bus_Write (align4 cur) v (drop_bit 4 fl)) (h_bus h) = (r, m1)"
        using prod.exhaust by blast
      obtain rs2 where b2: "bus_run bus (write_accesses (?C + u) (drop u d)) m1 = (rs2, m)" "rs = [r] @ rs2"
        using less.prems(8) b1 by (auto simp: vs(2) split: prod.splits)
      from volatile_run [where flags = fl and a = "align4 cur" and d = v and bus = bus and h = h and r = r and m = m1, OF less.prems(1)] b1 vs(3)
      obtain h1 where h1: "run_ops (packet_handler bus) rw_call (volatile_ops (align4 cur) v fl p) (h, c) =
          Some (h1, put_data p (volatile_result (align4 cur) r cb) c)" "h_bus h1 = m1" by auto
      have "page_ok curPage (cur + word_of_nat u) (n - u) h1"
        using less.prems(5) volatile vs(5) by (auto simp: page_ok_def bulk_write_nat)
      moreover have "volatile_result (align4 cur) r cb = cb\<lparr>lastFault := snd r, lastFaultCode := if snd r then fst r else lastFaultCode cb\<rparr>"
        by (simp add: volatile_result_def less.prems(2))
      ultimately show thesis
        using that [of u curPage op "volatile_ops (align4 cur) v fl p" h1 _ "[r]" rs2, OF _ _ h1(1)] vs b2 h1(2) less.prems(2,6,7)
        by (simp add: queueVolatile_ops volatile_ops_ok volatile_ops_blind)
    next
      case True
      then have off: "?C mod 4096 mod 28 = 0" by (simp add: bulk_write_nat)
      have aligned: "?C mod 4 = 0" using bulk_write_aligned(2) [of cur] True aligned_nat [of cur] aligned_words [of cur] by simp
      have "int ?C + int n \<le> 0xFFFFF000" using less.prems(4) by linarith
      from bulk_words_bounds [OF aligned _ this] True obtain k where k: "bulk_words cur (int n) = int k" "1 \<le> k" "k \<le> 7"
        "4 * int k + 4 \<le> int n" "?C mod 4096 + 4 * k \<le> 4096"
        "k = 7 \<or> ?C mod 4096 + 4 * k = 4096 \<or> int n - 4 * int k < 8" by auto
      define pg where "pg = int (?C div 4096)"
      have pg: "uint (drop_bit 12 cur) = pg" by (simp add: pg_def unat_drop_page [symmetric])
      have C: "?C + 4 * k < 2 ^ 32" "4 * k < n" "8 \<le> n" using less.prems(4) k(4) True by simp_all
      define pre where "pre = (if pg \<noteq> curPage then page_ops cur op else [])"
      define op0 where "op0 = (if pg \<noteq> curPage then last (page_ops cur op) else op)"
      have op0: "op_cb op0 = None" "length (pk_data (op_p op0)) = 30"
        using less.prems(6,7) by (simp_all add: op0_def page_ops_def Let_def)
      have pre_ok: "\<forall>op \<in> set pre. operation_ok op \<and> blind (packet_handler bus) rw_call op"
        using page_ops_ok [OF less.prems(7)] by (auto simp: pre_def)
      obtain h0 where h0: "run_ops (packet_handler bus) rw_call pre (h, c) = Some (h0, c)" "h_bus h0 = h_bus h"
        "unat (h_address h0) div 4096 = ?C div 4096"
      proof (cases "pg = curPage")
        case True
        then have "unat (h_address h) div 4096 = ?C div 4096" using less.prems(5) C(3) by (auto simp: page_ok_def pg_def)
        with that [of h] True show thesis by (simp add: pre_def)
      next
        case False
        with page_ops_run [of bus cur op h c] that show thesis by (auto simp: pre_def)
      qed
      have split: "write_accesses ?C d = word_writes ?C k d @ write_accesses (?C + 4 * k) (drop (4 * k) d)"
        using C(2) less.prems(3) by (intro write_accesses_words aligned) simp
      obtain rs1 m1 where b1: "bus_run bus (word_writes ?C k d) (h_bus h) = (rs1, m1)" using prod.exhaust by blast
      obtain rs2 where b2: "bus_run bus (write_accesses (?C + 4 * k) (drop (4 * k) d)) m1 = (rs2, m)" "rs = rs1 @ rs2"
        using less.prems(8) b1 by (auto simp: split bus_run_append split: prod.splits)
      have "\<exists>h1. run_ops (packet_handler bus) rw_call [bulk_write_op cur k d op0] (h0, c) = Some (h1, c) \<and> h_bus h1 = m1 \<and>
          unat (h_address h1) div 4096 = ?C div 4096"
        using b1 C(2) k(2,5) less.prems(3) h0(2,3) by (intro bulk_write_op_run [OF off]) simp_all
      then obtain h1 where h1: "run_ops (packet_handler bus) rw_call [bulk_write_op cur k d op0] (h0, c) = Some (h1, c)"
        "h_bus h1 = m1" "unat (h_address h1) div 4096 = ?C div 4096" by blast
      have same: "put_data p cb c = c" using less.prems(1) by (simp add: put_data_def fun_upd_idem)
      have page: "page_ok pg (cur + word_of_nat (4 * k)) (n - 4 * k) h1"
      proof -
        have "(?C + 4 * k) mod 4096 mod 28 = 0 \<or> n - 4 * k < 8"
          using k(6) next_offset [OF off k(5)] C(2) by auto
        then show ?thesis unfolding page_ok_def unat_add_small [OF C(1)] h1(3) pg_def by blast
      qed
      show thesis
      proof (rule that)
        show "uart_write_loop p cur (int n) d curPage op s = uart_write_loop p (cur + word_of_nat (4 * k)) (int (n - 4 * k)) (drop (4 * k) d)
            pg (bulk_write_op cur k d op0) (fold debugCommands_queue (pre @ [bulk_write_op cur k d op0]) s)"
        proof -
          have i: "nat (int k * 4) = 4 * k" "nat (int k * 4 + 1) = 4 * k + 1" 
            "word_of_int (int k * 4) = (word_of_nat (4 * k) :: u32)" "int n - int k * 4 = int (n - 4 * k)" using k(3) C(2) by simp_all
          have t: "(if pg \<noteq> curPage then set_page cur op s else (op, s)) = (op0, fold debugCommands_queue pre s)"
            by (simp add: pre_def op0_def set_page_ops)
          have q: "(cur AND 0xFFF) mod 28 = 0 \<and> 8 \<le> int n" using True by simp
          show ?thesis
            unfolding uart_write_loop.simps [of p cur "int n" d curPage op s] if_P [OF q] k(1) pg Let_def t prod.case i op0(1)
            using C(3) k(3) by simp
        qed
        show "run_ops (packet_handler bus) rw_call (pre @ [bulk_write_op cur k d op0]) (h, c) = Some (h1, put_data p cb c)"
          using h0(1) h1(1) by (simp add: run_ops_append same)
      qed (use pre_ok op0 page b2 h1(2) C(2) k(2,3) less.prems(2,3) in
          \<open>auto simp: operation_ok_def packet_ok_def blind_no_callback\<close>)
    qed
    have C: "unat (cur + word_of_nat u) = ?C + u" using less.prems(4) step(7) by (intro unat_add_small) simp
    have "\<exists>op' ops h' cb'. uart_write_loop p (cur + word_of_nat u) (int (n - u)) (drop u d) pg op1 (fold debugCommands_queue ops1 s) =
        Some (op', fold debugCommands_queue ops (fold debugCommands_queue ops1 s)) \<and>
      (\<forall>op \<in> set ops. operation_ok op \<and> blind (packet_handler bus) rw_call op) \<and>
      run_ops (packet_handler bus) rw_call ops (h1, put_data p cb1 c) = Some (h', put_data p cb' (put_data p cb1 c)) \<and>
      h_bus h' = m \<and> write_outcome (n - u) rs2 cb1 cb'"
    proof (rule less.IH)
      show "n - u < n" using step(6) False by simp
      show "rw_heap (put_data p cb1 c) p = Some cb1" by (simp add: put_data_def)
      show "unat (cur + word_of_nat u) + (n - u) \<le> 0xFFFFF000" using less.prems(4) step(7) by (simp add: C)
      show "n - u = length (drop u d)" using less.prems(3) by simp
      show "bus_run bus (write_accesses (unat (cur + word_of_nat u)) (drop u d)) (h_bus h1) = (rs2, m)"
        using step(5) by (simp add: C)
    qed (fact step)+
    then obtain op' ops h' cb' where ih: "uart_write_loop p (cur + word_of_nat u) (int (n - u)) (drop u d) pg op1 (fold debugCommands_queue ops1 s) =
        Some (op', fold debugCommands_queue (ops1 @ ops) s)"
      "\<forall>op \<in> set ops. operation_ok op \<and> blind (packet_handler bus) rw_call op"
      "run_ops (packet_handler bus) rw_call ops (h1, put_data p cb1 c) = Some (h', put_data p cb' c)" "h_bus h' = m"
      "write_outcome (n - u) rs2 cb1 cb'"
      unfolding put_data_twice fold_append comp_apply by blast
    have "\<forall>op \<in> set (ops1 @ ops). operation_ok op \<and> blind (packet_handler bus) rw_call op"
      "run_ops (packet_handler bus) rw_call (ops1 @ ops) (h, c) = Some (h', put_data p cb' c)"
      using ih(2,3) step(2,3) by (auto simp: run_ops_append)
    moreover have "write_outcome n rs cb cb'"
    proof (cases "n - u = 0")
      case True
      then have "rs2 = []" using step(5) less.prems(3) by simp
      with True ih(5) step(4,11-15) False show ?thesis by (auto simp: write_outcome_def)
    next
      case more: False
      have "rs2 \<noteq> []" using bus_run_length [OF step(5)] more less.prems(3) by (auto simp: write_accesses_eq_Nil)
      with more ih(5) step(4,11-14) False show ?thesis by (auto simp: write_outcome_def)
    qed
    ultimately show ?thesis using ih(1,4) unfolding step(1) by blast
  qed
qed

section \<open>Write requests\<close>

lemma complete_write:
  "cb_buffer d = None \<Longrightarrow> complete_reply True d =
    (if lastFault d then fault_reply ''Write'' (cb_address d) (bufSize d) (lastFaultCode d) else write_reply (cb_address d) (bufSize d))"
  by (simp add: complete_reply_def fault_reply_def write_reply_def)

lemma write_request:
  assumes "quiet s" "0 < length d" "unat a + length d \<le> 0xFFFFF000"
    and "bus_run bus (write_accesses (unat a) d) (h_bus h) = (rs, m)"
  shows "\<exists>s' t h'. handleWrite a d who s = Some s' \<and> update_all (packet_handler bus) rw_call clock (s', h) = (t, h') \<and>
    quiet t \<and> isDone t \<and> h_bus h' = m \<and> upper t = served who
      (if snd (last rs) then fault_reply ''Write'' a (length d) (fst (last rs)) else write_reply a (length d)) (upper s)"
proof -
  let ?p = "rw_next (upper s)" and ?n = "length d"
  let ?d = "\<lparr>clientID = who, cb_address = a, cb_buffer = None, bufSize = ?n, lastFault = False, lastFaultCode = 0\<rparr>"
  let ?s = "alloc_data ?d s"
  have "length (pk_data (op_p local_op)) = 30" "op_cb local_op = None" "page_ok (-1) a ?n h"
    by (simp_all add: local_op_def zero_packet_def page_ok_def)
  then have "\<exists>op' ops h' cb'. uart_write_loop ?p a (int ?n) d (-1) local_op ?s = Some (op', fold debugCommands_queue ops ?s) \<and>
      (\<forall>op \<in> set ops. operation_ok op \<and> blind (packet_handler bus) rw_call op) \<and>
      run_ops (packet_handler bus) rw_call ops (h, upper ?s) = Some (h', put_data ?p cb' (upper ?s)) \<and> h_bus h' = m \<and>
      write_outcome ?n rs ?d cb'"
    using assms by (intro write_loop_run [OF alloc_data_upper(2)]) simp_all
  then obtain op' ops h' cb' where run: "uart_write_loop ?p a (int ?n) d (-1) local_op ?s = Some (op', fold debugCommands_queue ops ?s)"
      "\<forall>op \<in> set ops. operation_ok op \<and> blind (packet_handler bus) rw_call op"
      "run_ops (packet_handler bus) rw_call ops (h, upper ?s) = Some (h', put_data ?p cb' (upper ?s))" "h_bus h' = m"
      "write_outcome ?n rs ?d cb'"
    by blast
  have "quiet ?s" by (rule quiet_alloc [OF assms(1)])
  from request_run [OF this run(2,3)] obtain t where
    t: "update_all (packet_handler bus) rw_call clock
        (debugCommands_queue (barrier (Some (OnReadWriteComplete, ?p)) op') (fold debugCommands_queue ops ?s), h) = (t, h')"
      "quiet t" "isDone t" "upper t = finished ?p (clientID cb') (complete_reply True cb') (upper ?s)" by blast
  have w: "handleWrite a d who s =
      Some (debugCommands_queue (barrier (Some (OnReadWriteComplete, ?p)) op') (fold debugCommands_queue ops ?s))"
    by (simp add: handleWrite_def run(1))
  have "upper t = served who
      (if snd (last rs) then fault_reply ''Write'' a ?n (fst (last rs)) else write_reply a ?n) (upper s)"
    using t(4) run(5) assms(2) by (auto simp: alloc_finished write_outcome_def complete_write)
  with t(1-3) run(4) w show ?thesis by blast
qed

end
