(* ===== verification/Uart_Memory.thy ===== *)
theory Uart_Memory
  imports Uart_Write Rvsrv_Server
begin

text \<open>
  The UART back end as the far end of the debug link. The locale \<open>debug_bus\<close> states what a bus
  with a byte memory behind it promises per transfer; from it the whole of server, UART, packet
  handler and bus is an interpretation of \<open>memory_link\<close>, the contract that the client relies on.
  The block RAM of the repository (\<open>lib/rvex/bus/bus_ramBlock_singlePort.vhd\<close>) is the instance.
\<close>

section \<open>Memory behind the bus\<close>

definition store_masked :: "(nat \<Rightarrow> u8) \<Rightarrow> nat \<Rightarrow> u8 list \<Rightarrow> u8 \<Rightarrow> nat \<Rightarrow> u8" where
  "store_masked m a d k = (\<lambda>i. if a \<le> i \<and> i < a + 4 \<and> bit k (3 - (i - a)) then d ! (i - a) else m i)"

lemma load_bytes_append: "load_bytes m a (j + k) = load_bytes m a j @ load_bytes m (a + j) k"
  by (rule nth_equalityI) (auto simp: load_bytes_def nth_append)

lemma masked_part:
  assumes "r + length d \<le> 4" "\<And>j. j < 4 \<Longrightarrow> bit k (3 - j) \<longleftrightarrow> r \<le> j \<and> j < r + length d"
    and "\<And>j. r \<le> j \<Longrightarrow> j < r + length d \<Longrightarrow> e ! j = d ! (j - r)"
  shows "store_masked m b e k = store_bytes m (b + r) d"
proof
  fix i
  show "store_masked m b e k i = store_bytes m (b + r) d i"
  proof (cases "b \<le> i \<and> i < b + 4")
    case True
    then have "i - b < 4" "i = b + (i - b)" by auto
    with assms(2) [OF this(1)] assms(3) [of "i - b"] assms(1) show ?thesis
      by (auto simp: store_masked_def store_bytes_def)
  qed (use assms(1) in \<open>auto simp: store_masked_def store_bytes_def\<close>)
qed

lemma four_cases: "j < 4 \<Longrightarrow> (P 0 \<Longrightarrow> P 1 \<Longrightarrow> P 2 \<Longrightarrow> P 3 \<Longrightarrow> P (j :: nat))"
proof -
  assume "j < 4" "P 0" "P 1" "P 2" "P 3"
  moreover from this(1) have "j = 0 \<or> j = 1 \<or> j = 2 \<or> j = 3" by linarith
  ultimately show "P j" by blast
qed

lemma masked_writes:
  "4 \<le> length d \<Longrightarrow> store_masked m a (word_bytes 4 (be_word (take 4 d))) 0xF = store_bytes m a (take 4 d)"
  "\<lbrakk>a mod 2 = 0; 2 \<le> length d\<rbrakk> \<Longrightarrow>
    store_masked m (a - a mod 4) (word_bytes 4 (be_word (take 2 d @ take 2 d))) (if a mod 4 = 2 then 3 else 0xC) = store_bytes m a (take 2 d)"
  "d \<noteq> [] \<Longrightarrow>
    store_masked m (a - a mod 4) (word_bytes 4 (be_word (replicate 4 (hd d)))) (push_bit (3 - a mod 4) 1) = store_bytes m a (take 1 d)"
proof -
  assume d: "4 \<le> length d"
  have "bit (0xF :: u8) (3 - j)" if "j < 4" for j using that by (rule four_cases) simp_all
  with d show "store_masked m a (word_bytes 4 (be_word (take 4 d))) 0xF = store_bytes m a (take 4 d)"
    using masked_part [of 0 "take 4 d" "0xF" "take 4 d" m a] by (simp add: word_bytes_be_word)
next
  assume a: "a mod 2 = 0" "2 \<le> length d"
  then have r: "a mod 4 = 0 \<or> a mod 4 = 2" by presburger
  let ?k = "if a mod 4 = 2 then 3 else 0xC :: u8"
  have "bit ?k (3 - j) \<longleftrightarrow> a mod 4 \<le> j \<and> j < a mod 4 + 2" if "j < 4" for j
    using that r by (rule_tac four_cases [of j]) auto
  moreover have "(take 2 d @ take 2 d) ! j = take 2 d ! (j - a mod 4)" if "a mod 4 \<le> j" "j < a mod 4 + 2" for j
    using that r a(2) by (auto simp: nth_append)
  ultimately have "store_masked m (a - a mod 4) (take 2 d @ take 2 d) ?k = store_bytes m (a - a mod 4 + a mod 4) (take 2 d)"
    using a(2) r by (intro masked_part) auto
  then show "store_masked m (a - a mod 4) (word_bytes 4 (be_word (take 2 d @ take 2 d))) ?k = store_bytes m a (take 2 d)"
    using a(2) by (simp add: word_bytes_be_word)
next
  assume d: "d \<noteq> []"
  have r: "a mod 4 < 4" by simp
  have "bit (push_bit (3 - a mod 4) 1 :: u8) (3 - j) \<longleftrightarrow> a mod 4 \<le> j \<and> j < a mod 4 + 1" if "j < 4" for j
    using that r by (auto simp: bit_simps)
  moreover have "replicate 4 (hd d) ! j = take 1 d ! (j - a mod 4)" if "a mod 4 \<le> j" "j < a mod 4 + 1" for j
    using that r d by (simp add: hd_conv_nth)
  ultimately have "store_masked m (a - a mod 4) (replicate 4 (hd d)) (push_bit (3 - a mod 4) 1) = store_bytes m (a - a mod 4 + a mod 4) (take 1 d)"
    using d r by (intro masked_part) (auto simp: Suc_le_eq)
  then show "store_masked m (a - a mod 4) (word_bytes 4 (be_word (replicate 4 (hd d)))) (push_bit (3 - a mod 4) 1) = store_bytes m a (take 1 d)"
    by (simp add: word_bytes_be_word)
qed

locale debug_bus =
  fixes bus :: "'m bus"
    and mem :: "'m \<Rightarrow> nat \<Rightarrow> u8"
    and limit :: nat
  assumes limit: "limit \<le> 0xFFFFF000" "4 dvd limit"
    and bus_read: "\<lbrakk>a mod 4 = 0; a < limit\<rbrakk> \<Longrightarrow>
      fst (bus (Bus_Read (word_of_nat a)) m) = (be_word (load_bytes (mem m) a 4), False) \<and>
      mem (snd (bus (Bus_Read (word_of_nat a)) m)) = mem m"
    and bus_write: "\<lbrakk>a mod 4 = 0; a < limit\<rbrakk> \<Longrightarrow>
      \<not> snd (fst (bus (Bus_Write (word_of_nat a) v k) m)) \<and>
      mem (snd (bus (Bus_Write (word_of_nat a) v k) m)) = store_masked (mem m) a (word_bytes 4 v) k"
begin

lemma reads_memory:
  assumes "a mod 4 = 0" "a + 4 * k \<le> limit" "bus_run bus (reads a k) m = (rs, m')"
  shows "result_bytes rs = load_bytes (mem m) a (4 * k) \<and> (\<forall>r \<in> set rs. \<not> snd r) \<and> mem m' = mem m"
  using assms
proof (induction k arbitrary: a m rs)
  case 0
  then show ?case by (simp add: load_bytes_def)
next
  case (Suc k)
  obtain m1 where b: "bus (Bus_Read (word_of_nat a)) m = ((be_word (load_bytes (mem m) a 4), False), m1)" "mem m1 = mem m"
    using bus_read [of a m] Suc.prems(1,2) by (cases "bus (Bus_Read (word_of_nat a)) m") auto
  obtain rs' where r: "bus_run bus (reads (a + 4) k) m1 = (rs', m')" "rs = (be_word (load_bytes (mem m) a 4), False) # rs'"
    using Suc.prems(3) b(1) by (auto split: prod.splits)
  have "load_bytes (mem m) a 4 @ load_bytes (mem m) (a + 4) (4 * k) = load_bytes (mem m) a (4 * Suc k)"
    using load_bytes_append [of "mem m" a 4 "4 * k"] by simp
  with Suc.IH [of "a + 4" m1 rs'] Suc.prems(1,2) r b(2) show ?case
    by (simp add: word_bytes_be_word)
qed

lemma request_memory:
  assumes "0 < n" "a + n \<le> limit" "bus_run bus (read_accesses a n) m = (rs, m')"
  shows "read_bytes a n rs = load_bytes (mem m) a n \<and> \<not> snd (last rs) \<and> mem m' = mem m"
proof -
  let ?k = "(a mod 4 + n + 3) div 4" and ?a = "a - a mod 4"
  have run: "bus_run bus (reads ?a ?k) m = (rs, m')" using assms(1,3) by (simp add: read_accesses_def)
  have a: "?a mod 4 = 0" by (simp add: minus_mod_eq_mult_div)
  have lim: "?a + 4 * ?k \<le> limit"
  proof -
    obtain l where l: "limit = 4 * l" using limit(2) by (rule dvdE)
    have "4 * q + r + n \<le> 4 * l \<Longrightarrow> 4 * q + 4 * ((r + n + 3) div 4) \<le> 4 * l" for q r by presburger
    from this [of "a div 4" "a mod 4"] assms(2) show ?thesis by (simp add: l minus_mod_eq_mult_div)
  qed
  note r = reads_memory [OF a lim run]
  have "read_accesses a n \<noteq> []" using assms(1) by (simp add: read_accesses_Nil)
  then have "rs \<noteq> []" using bus_run_length [OF assms(3)] by auto
  moreover have "take n (drop (a mod 4) (load_bytes (mem m) ?a (4 * ?k))) = load_bytes (mem m) a n"
  proof (rule nth_equalityI)
    have "a mod 4 + n \<le> 4 * ?k" by presburger
    then show "length (take n (drop (a mod 4) (load_bytes (mem m) ?a (4 * ?k)))) = length (load_bytes (mem m) a n)" by simp
  qed (simp add: load_bytes_def)
  ultimately show ?thesis using r by (simp add: read_bytes_def)
qed

lemma writes_memory:
  "\<lbrakk>a + length d \<le> limit; bus_run bus (write_accesses a d) m = (rs, m')\<rbrakk> \<Longrightarrow>
    mem m' = store_bytes (mem m) a d \<and> (\<forall>r \<in> set rs. \<not> snd r)"
proof (induction a d arbitrary: m rs rule: write_accesses.induct)
  case (1 a d)
  show ?case
  proof (cases "d = []")
    case True
    with 1(5) show ?thesis by simp
  next
    case False
    have step: ?thesis
      if q: "write_accesses a d = Bus_Write (word_of_nat (a - a mod 4)) v k # write_accesses (a + u) (drop u d)"
        and u: "0 < u" "u \<le> length d"
        and st: "store_masked (mem m) (a - a mod 4) (word_bytes 4 v) k = store_bytes (mem m) a (take u d)"
        and ih: "\<And>m rs. a + u + length (drop u d) \<le> limit \<Longrightarrow> bus_run bus (write_accesses (a + u) (drop u d)) m = (rs, m') \<Longrightarrow>
          mem m' = store_bytes (mem m) (a + u) (drop u d) \<and> (\<forall>r \<in> set rs. \<not> snd r)" for u v k
    proof -
      obtain r m1 rs' where b: "bus (Bus_Write (word_of_nat (a - a mod 4)) v k) m = (r, m1)"
        "bus_run bus (write_accesses (a + u) (drop u d)) m1 = (rs', m')" "rs = r # rs'"
        using 1(5) unfolding q by (auto split: prod.splits)
      have "(a - a mod 4) mod 4 = 0" "a - a mod 4 < limit" using 1(4) u by (simp_all add: minus_mod_eq_mult_div)
      from bus_write [OF this, of v k m] b(1) st have "\<not> snd r" "mem m1 = store_bytes (mem m) a (take u d)" by simp_all
      moreover from ih [OF _ b(2)] 1(4) u(2) have "mem m' = store_bytes (mem m1) (a + u) (drop u d)" "\<forall>r \<in> set rs'. \<not> snd r"
        by simp_all
      moreover have "store_bytes (store_bytes (mem m) a (take u d)) (a + u) (drop u d) = store_bytes (mem m) a d"
        using u(2) by (auto simp: store_bytes_def fun_eq_iff min_def)
      ultimately show ?thesis by (simp add: b(3))
    qed
    note acc = write_accesses.simps [of a d, unfolded if_not_P [OF False]]
    show ?thesis
    proof (cases "a mod 4 = 0 \<and> length d \<ge> 4")
      case True
      show ?thesis
      proof (rule step)
        show "write_accesses a d = Bus_Write (word_of_nat (a - a mod 4)) (be_word (take 4 d)) 0xF # write_accesses (a + 4) (drop 4 d)"
          using True by (simp add: acc)
        show "store_masked (mem m) (a - a mod 4) (word_bytes 4 (be_word (take 4 d))) 0xF = store_bytes (mem m) a (take 4 d)"
          using masked_writes(1) True by simp
      qed (use True 1(1) [OF False True] in auto)
    next
      case not_word: False
      show ?thesis
      proof (cases "a mod 2 = 0 \<and> length d \<ge> 2")
        case True
        show ?thesis
        proof (rule step)
          show "write_accesses a d = Bus_Write (word_of_nat (a - a mod 4)) (be_word (take 2 d @ take 2 d)) (if a mod 4 = 2 then 3 else 0xC) #
              write_accesses (a + 2) (drop 2 d)"
            unfolding acc if_not_P [OF not_word] if_P [OF True] ..
          show "store_masked (mem m) (a - a mod 4) (word_bytes 4 (be_word (take 2 d @ take 2 d))) (if a mod 4 = 2 then 3 else 0xC) =
              store_bytes (mem m) a (take 2 d)"
            by (rule masked_writes(2) [OF conjunct1 [OF True] conjunct2 [OF True]])
        qed (use True 1(2) [OF False not_word True] in auto)
      next
        case not_half: False
        show ?thesis
        proof (rule step)
          show "write_accesses a d = Bus_Write (word_of_nat (a - a mod 4)) (be_word (replicate 4 (hd d))) (push_bit (3 - a mod 4) 1) #
              write_accesses (a + 1) (drop 1 d)"
            unfolding acc if_not_P [OF not_word] if_not_P [OF not_half] ..
          show "store_masked (mem m) (a - a mod 4) (word_bytes 4 (be_word (replicate 4 (hd d)))) (push_bit (3 - a mod 4) 1) =
              store_bytes (mem m) a (take 1 d)"
            by (rule masked_writes(3) [OF False])
        qed (use False 1(3) [OF False not_word not_half] in \<open>auto simp: Suc_le_eq\<close>)
      qed
    qed
  qed
qed

end

section \<open>The server with the UART back end\<close>

text \<open>
  \<open>handleCommand\<close> of \<open>rvsrv/main.c\<close> when the interface is the UART: the accesses are queued, the
  replies are sent later.
\<close>

definition uart_send :: "int \<Rightarrow> string \<Rightarrow> uart \<Rightarrow> uart" where
  "uart_send who str s = s\<lparr>upper := (upper s)\<lparr>rw_sent := rw_sent (upper s) @ [(who, str)]\<rparr>\<rparr>"

definition uart_handleCommand :: "(nat \<Rightarrow> u8) \<Rightarrow> string \<Rightarrow> int \<Rightarrow> uart \<Rightarrow> (int \<times> uart) option" where
  "uart_handleCommand junk cmd who s =
     (if checkCommand cmd ''Stop'' then Some (1, uart_send who ''OK, Stop;\<newline>'' s)
      else if checkCommand cmd ''Read'' \<or> checkCommand cmd ''Write'' then
        (case parseReadWrite cmd of
           PR_Ok res \<Rightarrow>
             if is_write res then map_option (Pair 2) (handleWrite (address res) (buffer res) who s)
             else Some (2, handleRead junk (address res) (buf_size res) who s)
         | PR_Syntax b \<Rightarrow> map_option (\<lambda>str. (2, uart_send who str s)) (block_string b)
         | PR_Error \<Rightarrow> Some (- 1, s)
         | PR_Undefined \<Rightarrow> None)
      else Some (2, uart_send who (''Error, '' @ takeWhile (\<lambda>c. c \<noteq> CHR '','') cmd @ '', UnknownCommand;\<newline>'') s))"

text \<open>
  The composition: client 0 sends a command (collected as by \<open>server_byte\<close>), the server handles it
  and runs until the queue is done, and the client reads what was sent to it.
\<close>

definition command_of :: "string \<Rightarrow> string option" where
  "command_of cmd =
     (let c = filter command_char (takeWhile (\<lambda>c. c \<noteq> CHR '';'') cmd)
      in if CHR '';'' \<in> set cmd \<and> length c < MAX_DEBUG_COMMAND_SIZE then Some c else None)"

definition sent_to :: "int \<Rightarrow> (int \<times> string) list \<Rightarrow> string" where
  "sent_to who xs = concat (map snd (filter (\<lambda>x. fst x = who) xs))"

definition uart_net :: "(nat \<Rightarrow> u32) \<Rightarrow> (nat \<Rightarrow> u8) \<Rightarrow> 'm bus \<Rightarrow> (uart \<times> 'm handler) net" where
  "uart_net clock junk bus cmd x =
     (case x of (s, h) \<Rightarrow>
        (case Option.bind (command_of cmd) (\<lambda>c. uart_handleCommand junk c 0 s) of
           None \<Rightarrow> (None, (s, h))
         | Some (r, s') \<Rightarrow>
             (case update_all (packet_handler bus) rw_call clock (s', h) of (t, g) \<Rightarrow>
                (Some (sent_to 0 (drop (length (rw_sent (upper s))) (rw_sent (upper t)))), (t, g)))))"

definition uart_ready :: "uart \<times> 'm handler \<Rightarrow> bool" where
  "uart_ready x \<longleftrightarrow> quiet (fst x)"

lemma command_of_request:
  "n \<le> 4096 \<Longrightarrow> command_of (read_command a n) = Some (butlast (read_command a n))"
  "length d \<le> 4096 \<Longrightarrow> command_of (write_command a (length d) (hex_bytes d)) = Some (butlast (write_command a (length d) (hex_bytes d)))"
proof -
  have "command_of (c @ '';'') = Some c" if "\<forall>x \<in> set c. command_char x" "length c < MAX_DEBUG_COMMAND_SIZE" for c
  proof -
    have "CHR '';'' \<notin> set c" using that(1) by (auto simp: command_char_eq)
    then have "takeWhile (\<lambda>x. x \<noteq> CHR '';'') (c @ '';'') = c" by (induction c) auto
    moreover have "filter command_char c = c" using that(1) by simp
    ultimately show ?thesis using that(2) by (simp add: command_of_def Let_def)
  qed
  from this [OF command_chars(1) command_length(1)] this [OF command_chars(2) command_length(2)]
  show "n \<le> 4096 \<Longrightarrow> command_of (read_command a n) = Some (butlast (read_command a n))"
    "length d \<le> 4096 \<Longrightarrow> command_of (write_command a (length d) (hex_bytes d)) = Some (butlast (write_command a (length d) (hex_bytes d)))"
    by (simp_all flip: read_command_butlast write_command_butlast)
qed

lemma sent_to_served: "sent_to 0 (drop (length (rw_sent c)) (rw_sent (served 0 reply c))) = reply"
  by (simp add: sent_to_def served_def)

text \<open>The clock of the server and the contents of fresh memory do not matter.\<close>

locale uart_link = debug_bus bus mem limit for bus :: "'m bus" and mem and limit +
  fixes clock :: "nat \<Rightarrow> u32"
    and junk :: "nat \<Rightarrow> u8"
begin

lemma uart_read:
  assumes "uart_ready (s, h)" "0 < n" "n \<le> 4096" "unat a + n \<le> limit"
  shows "\<exists>t g. uart_net clock junk bus (read_command a n) (s, h) = (Some (read_reply a (load_bytes (mem (h_bus h)) (unat a) n)), (t, g)) \<and>
    uart_ready (t, g) \<and> mem (h_bus g) = mem (h_bus h)"
proof -
  obtain rs m where run: "bus_run bus (read_accesses (unat a) n) (h_bus h) = (rs, m)" by force
  from request_memory [OF assms(2,4) run] have r: "read_bytes (unat a) n rs = load_bytes (mem (h_bus h)) (unat a) n"
    "\<not> snd (last rs)" "mem m = mem (h_bus h)" by blast+
  have "quiet s" "unat a + n \<le> 0xFFFFF000" using assms(1,4) limit(1) by (simp_all add: uart_ready_def)
  from read_request [where clock = clock and junk = junk and who = 0, OF this(1) assms(2,3) this(2) run] obtain t g where
    t: "update_all (packet_handler bus) rw_call clock (handleRead junk a n 0 s, h) = (t, g)" "quiet t" "h_bus g = m"
      "upper t = served 0 (read_reply a (load_bytes (mem (h_bus h)) (unat a) n)) (upper s)"
    using r(1,2) by auto
  have "uart_handleCommand junk (butlast (read_command a n)) 0 s = Some (2, handleRead junk a n 0 s)"
    using parse_read [OF assms(2,3)] by (simp add: uart_handleCommand_def checkCommand_request)
  then have "uart_net clock junk bus (read_command a n) (s, h) =
      (Some (read_reply a (load_bytes (mem (h_bus h)) (unat a) n)), (t, g))"
    using command_of_request(1) [OF assms(3)] t(1,4) by (simp add: uart_net_def sent_to_served)
  then show ?thesis using t(2,3) r(3) by (simp add: uart_ready_def)
qed

lemma uart_write:
  assumes "uart_ready (s, h)" "0 < length d" "length d \<le> 4096" "unat a + length d \<le> limit"
  shows "\<exists>t g. uart_net clock junk bus (write_command a (length d) (hex_bytes d)) (s, h) = (Some (write_reply a (length d)), (t, g)) \<and>
    uart_ready (t, g) \<and> mem (h_bus g) = store_bytes (mem (h_bus h)) (unat a) d"
proof -
  let ?c = "write_command a (length d) (hex_bytes d)"
  obtain rs m where run: "bus_run bus (write_accesses (unat a) d) (h_bus h) = (rs, m)" by force
  from writes_memory [OF assms(4) run] have r: "mem m = store_bytes (mem (h_bus h)) (unat a) d" "\<forall>r \<in> set rs. \<not> snd r" by blast+
  have "rs \<noteq> []" using bus_run_length [OF run] assms(2) by (auto simp: write_accesses_eq_Nil)
  then have last: "\<not> snd (last rs)" using r(2) by simp
  have "quiet s" "unat a + length d \<le> 0xFFFFF000" using assms(1,4) limit(1) by (simp_all add: uart_ready_def)
  from write_request [where clock = clock and who = 0, OF this(1) assms(2) this(2) run] obtain s' t g where
    t: "handleWrite a d 0 s = Some s'" "update_all (packet_handler bus) rw_call clock (s', h) = (t, g)" "quiet t" "h_bus g = m"
      "upper t = served 0 (write_reply a (length d)) (upper s)"
    using last by auto
  have "uart_handleCommand junk (butlast ?c) 0 s = Some (2, s')"
    using parse_write [OF assms(2,3)] t(1) by (simp add: uart_handleCommand_def checkCommand_request)
  then have "uart_net clock junk bus ?c (s, h) = (Some (write_reply a (length d)), (t, g))"
    using command_of_request(2) [OF assms(3)] t(2,5) by (simp add: uart_net_def sent_to_served)
  then show ?thesis using t(3,4) r(1) by (simp add: uart_ready_def)
qed

end

text \<open>Client, server, UART, packet handler and memory: the contract of the debug link.\<close>

sublocale uart_link \<subseteq> far: memory_link "uart_net clock junk bus" "\<lambda>x. mem (h_bus (snd x))" "\<lambda>_. limit" uart_ready
proof
  fix w :: "uart \<times> 'm handler" and n and a :: u32
  assume "uart_ready w" "0 < n" "n \<le> 4096" "unat a + n \<le> limit"
  then show "\<exists>w'. uart_net clock junk bus (read_command a n) w = (Some (read_reply a (load_bytes (mem (h_bus (snd w))) (unat a) n)), w') \<and>
      uart_ready w' \<and> limit = limit \<and> mem (h_bus (snd w')) = mem (h_bus (snd w))"
    using uart_read [of "fst w" "snd w" n a] by auto
next
  fix w :: "uart \<times> 'm handler" and bs :: "u8 list" and a :: u32
  assume "uart_ready w" "0 < length bs" "length bs \<le> 4096" "unat a + length bs \<le> limit"
  then show "\<exists>w'. uart_net clock junk bus (write_command a (length bs) (hex_bytes bs)) w = (Some (write_reply a (length bs)), w') \<and>
      uart_ready w' \<and> limit = limit \<and> mem (h_bus (snd w')) = store_bytes (mem (h_bus (snd w))) (unat a) bs"
    using uart_write [of "fst w" "snd w" bs a] by auto
qed

section \<open>The block RAM\<close>

text \<open>
  \<open>d\<close> is \<open>DEPTH_LOG2B\<close>; the memory is an array of words, mirrored over the address space, and
  never faults. A read gives the word before a write of the same cycle.
\<close>

definition ram_index :: "nat \<Rightarrow> u32 \<Rightarrow> nat" where
  "ram_index d a = unat a div 4 mod 2 ^ (d - 2)"

definition ram_merge :: "u8 \<Rightarrow> u32 \<Rightarrow> u32 \<Rightarrow> u32" where
  "ram_merge k v w =
     fold (\<lambda>b w. if bit k b then (w AND NOT (push_bit (b * 8) 0xFF)) OR (v AND push_bit (b * 8) 0xFF) else w) [0..<4] w"

fun ram_bus :: "nat \<Rightarrow> (nat \<Rightarrow> u32) bus" where
  "ram_bus d (Bus_Read a) r = ((r (ram_index d a), False), r)"
| "ram_bus d (Bus_Write a v k) r =
     ((r (ram_index d a), False), r(ram_index d a := ram_merge k v (r (ram_index d a))))"

definition ram_size :: "nat \<Rightarrow> nat" where
  "ram_size d = 4 * 2 ^ (d - 2)"

definition ram_cells :: "nat \<Rightarrow> (nat \<Rightarrow> u32) \<Rightarrow> nat \<Rightarrow> u8" where
  "ram_cells d r i = (if i < ram_size d then word_bytes 4 (r (i div 4)) ! (i mod 4) else 0)"

definition ram_limit :: "nat \<Rightarrow> nat" where
  "ram_limit d = min (ram_size d) 0xFFFFF000"

lemma bit_merge_step:
  "n < 32 \<Longrightarrow> bit (if c then (w AND NOT (push_bit m 0xFF)) OR (v AND push_bit m 0xFF) else w) n =
    (if c \<and> m \<le> n \<and> n < m + 8 then bit v n else bit w n)" for v w :: u32
proof -
  have m: "(0xFF :: u32) = mask 8" by (simp add: mask_eq_exp_minus_1)
  assume "n < 32"
  then show ?thesis unfolding m by (auto simp: bit_simps)
qed

lemma bit_ram_merge: "n < 32 \<Longrightarrow> bit (ram_merge k v w) n = bit (if bit k (n div 8) then v else w) n"
proof -
  assume n: "n < 32"
  have four: "[0..<4] = [0, 1, 2, 3 :: nat]" by (simp add: upt_rec)
  have m: "bit (ram_merge k v w) n = (if bit k 3 \<and> 3 * 8 \<le> n \<and> n < 3 * 8 + 8 then bit v n
      else if bit k 2 \<and> 2 * 8 \<le> n \<and> n < 2 * 8 + 8 then bit v n
      else if bit k 1 \<and> 1 * 8 \<le> n \<and> n < 1 * 8 + 8 then bit v n
      else if bit k 0 \<and> 0 * 8 \<le> n \<and> n < 0 * 8 + 8 then bit v n else bit w n)"
    unfolding ram_merge_def four fold.simps comp_apply id_apply by (simp only: bit_merge_step [OF n])
  have d: "b * 8 \<le> n \<Longrightarrow> n < b * 8 + 8 \<Longrightarrow> n div 8 = b" for b by (intro div_nat_eqI) auto
  consider "n < 8" | "8 \<le> n" "n < 16" | "16 \<le> n" "n < 24" | "24 \<le> n" using n by linarith
  then show ?thesis
  proof cases
    case 1 then show ?thesis using d [of 0] by (simp add: m)
  next
    case 2 then show ?thesis using d [of 1] by (simp add: m)
  next
    case 3 then show ?thesis using d [of 2] by (simp add: m)
  next
    case 4 then show ?thesis using d [of 3] n by (simp add: m)
  qed
qed

lemma word_bytes_nth: "j < 4 \<Longrightarrow> word_bytes 4 v ! j = ucast (drop_bit (8 * (3 - j)) v)"
  by (rule four_cases [of j]) (simp_all add: eval_nat_numeral)

lemma ram_merge_bytes: "j < 4 \<Longrightarrow> word_bytes 4 (ram_merge k v w) ! j = word_bytes 4 (if bit k (3 - j) then v else w) ! j"
proof -
  assume j: "j < 4"
  have "bit (ram_merge k v w) (8 * (3 - j) + n) = bit (if bit k (3 - j) then v else w) (8 * (3 - j) + n)" if "n < 8" for n
    using bit_ram_merge [of "8 * (3 - j) + n" k v w] that j by simp
  then show ?thesis
    unfolding word_bytes_nth [OF j] by (intro bit_word_eqI) (auto simp: bit_simps)
qed

lemma ram_addresses:
  assumes "a mod 4 = 0" "a < ram_limit d"
  shows "ram_index d (word_of_nat a) = a div 4" "a + 4 \<le> ram_size d"
proof -
  have a: "a < 4 * 2 ^ (d - 2)" "a < 2 ^ 32" using assms(2) by (simp_all add: ram_limit_def ram_size_def)
  then have "a div 4 < 2 ^ (d - 2)" using less_mult_imp_div_less [of a "2 ^ (d - 2)" 4] by (simp only: mult.commute)
  with a(2) show "ram_index d (word_of_nat a) = a div 4"
    by (simp add: ram_index_def unsigned_of_nat take_bit_eq_mod)
  obtain q where "a = 4 * q" using assms(1) by (auto simp: mod_eq_0_iff_dvd)
  with a(1) show "a + 4 \<le> ram_size d" by (simp add: ram_size_def)
qed

lemma in_word: "a mod 4 = 0 \<Longrightarrow> a \<le> i \<and> i < a + 4 \<longleftrightarrow> i div 4 = a div 4" for a :: nat
proof -
  assume "a mod 4 = 0"
  then obtain q where q: "a = 4 * q" by (auto simp: mod_eq_0_iff_dvd)
  have "i div 4 = q \<longleftrightarrow> q \<le> i div 4 \<and> i div 4 < q + 1" by auto
  also have "\<dots> \<longleftrightarrow> 4 * q \<le> i \<and> i < 4 * q + 4"
    by (simp add: less_eq_div_iff_mult_less_eq div_less_iff_less_mult algebra_simps)
  finally show ?thesis by (simp add: q)
qed

interpretation ram: uart_link "ram_bus d" "ram_cells d" "ram_limit d" clock junk for d clock junk
proof
  show "ram_limit d \<le> 0xFFFFF000" "4 dvd ram_limit d" by (simp_all add: ram_limit_def ram_size_def min_def)
next
  fix a and m :: "nat \<Rightarrow> u32"
  assume a: "a mod 4 = 0" "a < ram_limit d"
  note r = ram_addresses [OF a]
  have "load_bytes (ram_cells d m) a 4 = word_bytes 4 (m (a div 4))"
  proof (rule nth_equalityI)
    fix j assume "j < length (load_bytes (ram_cells d m) a 4)"
    then have j: "j < 4" by simp
    with in_word [OF a(1), of "a + j"] have "(a + j) div 4 = a div 4" by simp
    moreover have "(a + j) mod 4 = j" using mod_add_left_eq [of a 4 j] j a(1) by simp
    ultimately show "load_bytes (ram_cells d m) a 4 ! j = word_bytes 4 (m (a div 4)) ! j"
      using j r(2) by (simp add: load_bytes_def ram_cells_def)
  qed simp
  then show "fst (ram_bus d (Bus_Read (word_of_nat a)) m) = (be_word (load_bytes (ram_cells d m) a 4), False) \<and>
      ram_cells d (snd (ram_bus d (Bus_Read (word_of_nat a)) m)) = ram_cells d m"
    by (simp add: r(1) be_word_word_bytes)
next
  fix a v k and m :: "nat \<Rightarrow> u32"
  assume a: "a mod 4 = 0" "a < ram_limit d"
  note r = ram_addresses [OF a]
  have "ram_cells d (m(a div 4 := ram_merge k v (m (a div 4)))) i = store_masked (ram_cells d m) a (word_bytes 4 v) k i" for i
  proof (cases "a \<le> i \<and> i < a + 4")
    case True
    then obtain j where j: "i = a + j" "j < 4" by (metis add_less_cancel_left le_Suc_ex)
    have "(a + j) div 4 = a div 4" using in_word [OF a(1), of i] True j(1) by simp
    moreover have "(a + j) mod 4 = j" using mod_add_left_eq [of a 4 j] j(2) a(1) by simp
    ultimately show ?thesis
      using j r(2) by (simp add: ram_cells_def store_masked_def ram_merge_bytes)
  next
    case False
    then have "i div 4 \<noteq> a div 4" using in_word [OF a(1), of i] by simp
    with False show ?thesis by (auto simp: ram_cells_def store_masked_def)
  qed
  then show "\<not> snd (fst (ram_bus d (Bus_Write (word_of_nat a) v k) m)) \<and>
      ram_cells d (snd (ram_bus d (Bus_Write (word_of_nat a) v k) m)) = store_masked (ram_cells d m) a (word_bytes 4 v) k"
    by (simp add: r(1) fun_eq_iff)
qed

section \<open>Properties of the UART back end\<close>

text \<open>
  C35. A read request over the UART, on any bus and a line that loses and repeats nothing: below the
  last page, the queued mix of bulk and
  volatile reads, pipelined and framed, reads each word that the request touches exactly once, in
  order; the client is sent the requested bytes of the results, or the fault code when the last
  transfer faults; and the link is idle again.
\<close>

theorem uart_read_reads_words_once:
  assumes "quiet s" "0 < n" "n \<le> 4096" "unat a + n \<le> 0xFFFFF000"
    and "bus_run bus (read_accesses (unat a) n) (h_bus h) = (rs, m)"
  shows "\<exists>t h'. update_all (packet_handler bus) rw_call clock (handleRead junk a n who s, h) = (t, h') \<and>
    quiet t \<and> isDone t \<and> h_bus h' = m \<and> upper t = served who
      (if snd (last rs) then fault_reply ''Read'' a n (fst (last rs)) else read_reply a (read_bytes (unat a) n rs)) (upper s)"
  by (rule read_request [OF assms])

definition idle_handler :: "'m \<Rightarrow> 'm handler" where
  "idle_handler m = \<lparr>h_address = 0, h_data = 0, h_mask = 0, h_write = False, h_valid = False, h_result = 0,
     h_fault = False, h_bus = m\<rparr>"

definition idle_rw :: rw_state where
  "idle_rw = \<lparr>rw_heap = (\<lambda>_. None), rw_next = 1, rw_sent = []\<rparr>"

lemma upper_initial [simp]: "upper (initial_commands c) = c"
  by (simp add: initial_commands_def)

text \<open>A bus that counts its transfers and faults on the third one.\<close>

definition counting_bus :: "nat bus" where
  "counting_bus q m = ((0x11223344, m = 2), m + 1)"

theorem uart_read_reads_words_once_witness:
  "\<exists>t h'. update_all (packet_handler counting_bus) rw_call (\<lambda>_. 0) (handleRead (\<lambda>_. 0xAA) 0x1006 7 5 (initial_commands idle_rw), idle_handler 0) = (t, h') \<and>
    quiet t \<and> isDone t \<and> h_bus h' = 3 \<and> upper t = served 5 (fault_reply ''Read'' 0x1006 7 0x11223344) idle_rw"
proof -
  have "read_accesses 0x1006 7 = reads 0x1004 3" by (simp add: read_accesses_def)
  then have "bus_run counting_bus (read_accesses (unat (0x1006 :: u32)) 7) (h_bus (idle_handler 0)) =
      ([(0x11223344, False), (0x11223344, False), (0x11223344, True)], 3)"
    by (simp add: numeral_3_eq_3 counting_bus_def idle_handler_def)
  from uart_read_reads_words_once [OF quiet_initial [of idle_rw] _ _ _ this, where clock = "\<lambda>_. 0" and junk = "\<lambda>_. 0xAA" and who = 5]
  show ?thesis by simp
qed

text \<open>
  C36. A write request over the UART, on any bus and a line that loses and repeats nothing: below the
  last page, the mix of page changes, bulk
  writes of up to 7 words and volatile writes performs exactly the writes of the request, words
  where an aligned word is left, then halfwords and bytes with their masks, each once and in order.
\<close>

theorem uart_write_writes_once:
  assumes "quiet s" "0 < length d" "unat a + length d \<le> 0xFFFFF000"
    and "bus_run bus (write_accesses (unat a) d) (h_bus h) = (rs, m)"
  shows "\<exists>s' t h'. handleWrite a d who s = Some s' \<and> update_all (packet_handler bus) rw_call clock (s', h) = (t, h') \<and>
    quiet t \<and> isDone t \<and> h_bus h' = m \<and> upper t = served who
      (if snd (last rs) then fault_reply ''Write'' a (length d) (fst (last rs)) else write_reply a (length d)) (upper s)"
  by (rule write_request [OF assms])

theorem uart_write_writes_once_witness:
  "\<exists>s' t h'. handleWrite 0x1002 [1, 2, 3] 5 (initial_commands idle_rw) = Some s' \<and>
    update_all (packet_handler counting_bus) rw_call (\<lambda>_. 0) (s', idle_handler 0) = (t, h') \<and>
    quiet t \<and> isDone t \<and> h_bus h' = 2 \<and> upper t = served 5 (write_reply 0x1002 3) idle_rw"
proof -
  have "bus_run counting_bus (write_accesses (unat (0x1002 :: u32)) [1, 2, 3]) (h_bus (idle_handler 0)) =
      ([(0x11223344, False), (0x11223344, False)], 2)"
    by (simp add: write_accesses.simps counting_bus_def idle_handler_def)
  from uart_write_writes_once [OF quiet_initial [of idle_rw] _ _ this, where clock = "\<lambda>_. 0" and who = 5]
  show ?thesis by (simp add: numeral_3_eq_3)
qed

text \<open>
  C37. Client, TCP server, UART protocol, packet handler and block RAM together: a byte, halfword or
  word that the debugger writes lands in the memory big endian, changes nothing else, and is what
  the debugger reads back.
\<close>

theorem uart_link_write_read:
  assumes "uart_ready x" "valid_access a n (ram_limit d)"
  shows "\<exists>y z. rvsrv_writeSingle (uart_net clock junk (ram_bus d)) a v n x = (BusOk (), y) \<and>
    rvsrv_readSingle (uart_net clock junk (ram_bus d)) a n y = (BusOk (take_bit (8 * n) v), z) \<and> uart_ready z \<and>
    ram_cells d (h_bus (snd z)) = store_bytes (ram_cells d (h_bus (snd x))) (unat a) (word_bytes n v)"
  by (rule ram.far.write_then_read [OF assms])

theorem uart_link_write_read_witness:
  "\<exists>y z. rvsrv_writeSingle (uart_net (\<lambda>_. 0) (\<lambda>_. 0) (ram_bus 12)) 0x102 0xBEEF 2 (initial_commands idle_rw, idle_handler (\<lambda>_. 0)) = (BusOk (), y) \<and>
    rvsrv_readSingle (uart_net (\<lambda>_. 0) (\<lambda>_. 0) (ram_bus 12)) 0x102 2 y = (BusOk 0xBEEF, z) \<and> uart_ready z"
proof -
  have "valid_access 0x102 2 (ram_limit 12)" by (simp add: valid_access_def ram_limit_def ram_size_def)
  moreover have "uart_ready (initial_commands idle_rw, idle_handler (\<lambda>_. 0))" by (simp add: uart_ready_def quiet_initial)
  ultimately show ?thesis
    using uart_link_write_read [of "(initial_commands idle_rw, idle_handler (\<lambda>_. 0))" "0x102" 2 12 "\<lambda>_. 0" "\<lambda>_. 0" "0xBEEF"] by auto
qed

text \<open>
  C38. The last page of the address space: the test for the page boundary wraps around, the bulk
  write takes the rest of the page, and \<open>memcpy\<close> writes behind the 30 bytes of the packet.
\<close>

theorem last_page_write_overruns:
  assumes "0xFFFFF000 \<le> unat a" "unat a mod 4096 mod 28 = 0" "unat a mod 4096 < 4088" "8 \<le> length d"
  shows "handleWrite a d who s = None"
proof -
  define off where "off = unat a mod 4096"
  have "unat a < 4294967296" using unsigned_less [of a, where 'a = nat] by simp
  then have "unat a div 4096 = 1048575" using assms(1) by (intro div_nat_eqI) (simp_all add: word_le_nat_alt)
  then have a: "unat a = 4294963200 + off" using div_mult_mod_eq [of "unat a" 4096] by (simp add: off_def)
  obtain i where i: "off = 28 * i" using assms(2) by (auto simp: off_def mod_eq_0_iff_dvd)
  then have off: "off \<le> 4060" using assms(3) by (simp add: off_def)
  define n0 where "n0 = (if int (length d) > 32 then 7 else (int (length d) - 4) div 4)"
  have n0: "1 \<le> n0" "n0 \<le> 7" using assms(4) by (auto simp: n0_def)
  define k where "k = nat n0"
  then have k: "n0 = int k" "1 \<le> k" "k \<le> 7" using n0 by simp_all
  have "uint a div 4096 = int (unat a div 4096)" by (simp add: zdiv_int)
  then have "uint a div 4096 = 1048575" using \<open>unat a div 4096 = 1048575\<close> by simp
  then have pe: "page_end a = 0" using page_mod(2) [of a] by (simp add: uint_0_iff)
  have "unat (a + word_of_nat (4 * k)) = unat a + 4 * k" using a off k by (intro unat_add_small) simp
  then have "a + word_of_int (n0 * 4) \<noteq> 0" using a k by (auto simp: unat_eq_0 [symmetric] mult.commute)
  then have "bulk_words a (int (length d)) = uint ((page_end a - a) div 4)"
    unfolding bulk_words_def Let_def n0_def [symmetric] pe by (simp add: word_gt_0)
  also have "\<dots> = (4096 - int off) div 4" by (simp add: uint_div_distrib page_rest off_def zmod_int)
  finally have w: "bulk_words a (int (length d)) * 4 + 1 > 30" using off by simp
  have q: "(a AND 0xFFF) mod 28 = 0 \<and> 8 \<le> int (length d)" using assms(2,4) by (simp add: bulk_write_nat)
  have l: "uart_write_loop p a (int (length d)) d (-1) op s = None" for p op s
    unfolding uart_write_loop.simps [of p a "int (length d)" d "-1" op s] if_P [OF q]
    using w assms(4) by (auto simp: Let_def split: prod.split)
  show ?thesis by (simp add: handleWrite_def l Let_def)
qed

theorem last_page_write_overruns_witness:
  "handleWrite 0xFFFFF01C [1, 2, 3, 4, 5, 6, 7, 8] 5 (initial_commands idle_rw) = None"
  using last_page_write_overruns [of "0xFFFFF01C" "[1, 2, 3, 4, 5, 6, 7, 8]" 5 "initial_commands idle_rw"] by simp

end
