(* ===== verification/Debug_Callbacks.thy ===== *)
theory Debug_Callbacks
  imports Debug_Delivery
begin

section \<open>Callbacks under arbitrary replies\<close>

text \<open>
  At most one call of each callback does not need the window: whatever arrives, late and duplicate
  replies and garbage included, an operation is in one place only, and it leaves that place when its
  callback is called.
\<close>

definition slot_tally :: "(nat \<Rightarrow> bool) \<Rightarrow> (nat \<Rightarrow> 'cb operation) \<Rightarrow> 'cb multiset" where
  "slot_tally valid sl = (\<Sum>i<16. if valid i then callbacks [sl i] else {#})"

definition held :: "('cb, 'c) commands \<Rightarrow> 'cb multiset" where
  "held s = slot_tally (slotsValid s) (slots s) + callbacks (queue_contents (reissueQueue s)) + callbacks (queue_contents (opQueue s))"

definition tally :: "('cb, ('cb \<times> bool) list) commands \<Rightarrow> 'cb multiset" where
  "tally s = mset (map fst (upper s)) + held s"

definition sound :: "('cb, 'c) commands \<Rightarrow> bool" where
  "sound s \<longleftrightarrow> queue_ok (opQueue s) \<and> queue_ok (reissueQueue s) \<and> txSeqCounter s < 16 \<and> rxSeqCounter s < 16"

definition spends :: "('cb, ('cb \<times> bool) list) commands \<Rightarrow> ('cb, ('cb \<times> bool) list) commands \<Rightarrow> bool" where
  "spends s s' \<longleftrightarrow> (sound s \<longrightarrow> sound s' \<and> tally s' \<subseteq># tally s)"

lemma spends_refl [simp]: "spends s s"
  by (simp add: spends_def)




















section \<open>An example with a loss and a doubled reply\<close>















end
