(* ===== verification/Trace_Packet.thy ===== *)
theory Trace_Packet
  imports Prelude
begin

text \<open>
  The packet decoder of the trace dumper (\<open>rvtrace/traceParse.c\<close>, \<open>getTracePacket\<close>), and the
  encoder at the other end, the trace unit of the core (\<open>lib/rvex/core/core_trace.vhd\<close>).

  \<open>*rawDataPtr\<close> and \<open>*rawDataRemain\<close> are the list of the bytes that are left. The fields that a
  packet does not carry keep what the local variable of the caller held; that is the parameter
  \<open>junk\<close>. Flags that are only ever 0 or 1 are Booleans.
\<close>

section \<open>The decoder\<close>

record trace_packet =
  lane :: nat
  hasPC :: u32
  pc :: u32
  hasBranched :: bool
  hasMem :: int
  memAddr :: u32
  memWriteData :: u32
  hasWrittenGP :: nat
  gpWriteData :: u32
  hasWrittenLink :: bool
  linkWriteData :: u32
  hasWrittenBranch :: u8
  branchWriteData :: u8
  hasTrapped :: bool
  trapPoint :: u32
  trapCause :: u8
  trapArg :: u32
  hasNewConfiguration :: bool
  newConfiguration :: u8
  cacheStatus :: u8
  hasSyllable :: bool
  syllable :: u32

text \<open>The values returned: 1 or 2, 0 when the data ends, -1 for an error, each with what is left.\<close>

datatype 'a scanned = Scanned 'a "u8 list" | No_Data "u8 list" | Bad_Data "u8 list"

fun and_then :: "'a scanned \<Rightarrow> ('a \<Rightarrow> u8 list \<Rightarrow> 'b scanned) \<Rightarrow> 'b scanned" where
  "and_then (Scanned x data) f = f x data"
| "and_then (No_Data data) f = No_Data data"
| "and_then (Bad_Data data) f = Bad_Data data"

definition SCAN :: "nat \<Rightarrow> u8 list \<Rightarrow> u8 list scanned" where
  "SCAN n data = (if length data < n then No_Data data else Scanned (take n data) (drop n data))"

fun le_word :: "u8 list \<Rightarrow> u32" where
  "le_word [] = 0"
| "le_word (b # bs) = ucast b OR push_bit 8 (le_word bs)"

definition reset_flags :: "trace_packet \<Rightarrow> trace_packet" where
  "reset_flags p = p\<lparr>hasPC := 0, hasMem := 0, hasWrittenGP := 0, hasWrittenLink := False, hasWrittenBranch := 0,
     hasTrapped := False, hasNewConfiguration := False, cacheStatus := 0, hasSyllable := False\<rparr>"

definition scan_pc :: "bool \<Rightarrow> trace_packet \<Rightarrow> u8 list \<Rightarrow> trace_packet scanned" where
  "scan_pc flag p data =
     (if \<not> flag then Scanned p data
      else and_then (SCAN 1 data) (\<lambda>d data.
        let low = ucast (d ! 0 AND 0xFC); mode = d ! 0 AND 3
        in if mode = 3 \<or> mode = 2 then
             and_then (SCAN 3 data) (\<lambda>e. Scanned (p\<lparr>hasBranched := (mode = 3), hasPC := 0xFFFFFFFF, pc := low OR push_bit 8 (le_word e)\<rparr>))
           else if mode = 1 then
             and_then (SCAN 1 data) (\<lambda>e. Scanned (p\<lparr>hasBranched := False, hasPC := 0xFFFF, pc := low OR push_bit 8 (le_word e)\<rparr>))
           else Scanned (p\<lparr>hasBranched := False, hasPC := 0xFF, pc := low\<rparr>) data))"

text \<open>The start of the address and the value of \<open>hasMem\<close> for the cases of \<open>MEMFLAGS\<close>.\<close>

definition mem_flags :: "u8 \<Rightarrow> (u32 \<times> int) option" where
  "mem_flags d =
     (if d = 0 then Some (0, -1)
      else if d = 8 \<or> d = 4 \<or> d = 2 \<or> d = 1 then Some (0, 1)
      else if d = 0xC then Some (0, 2)
      else if d = 3 then Some (2, 2)
      else if d = 0xF then Some (0, 4)
      else None)"

definition scan_mem_data :: "nat \<Rightarrow> (u8 list \<Rightarrow> trace_packet \<Rightarrow> trace_packet) \<Rightarrow> bool \<Rightarrow> trace_packet \<Rightarrow> u8 list \<Rightarrow> trace_packet scanned" where
  "scan_mem_data n f flag p data = (if flag then and_then (SCAN n data) (\<lambda>d. Scanned (f d p)) else Scanned p data)"

definition scan_mem :: "bool \<Rightarrow> trace_packet \<Rightarrow> u8 list \<Rightarrow> trace_packet scanned" where
  "scan_mem flag p data =
     (if \<not> flag then Scanned p data
      else and_then (SCAN 1 data) (\<lambda>d data.
        case mem_flags (d ! 0) of None \<Rightarrow> Bad_Data data
        | Some (start, m) \<Rightarrow>
            and_then (SCAN 4 data) (\<lambda>d data.
              let p = p\<lparr>hasMem := m, memAddr := (start + ucast (d ! 0)) OR push_bit 8 (le_word (tl d))\<rparr>
              in and_then (scan_mem_data 1 (\<lambda>d p. p\<lparr>memWriteData := ucast (d ! 0)\<rparr>) (m \<ge> 1) p data) (\<lambda>p data.
                 and_then (scan_mem_data 1 (\<lambda>d p. p\<lparr>memWriteData := memWriteData p OR push_bit 8 (le_word d)\<rparr>) (m \<ge> 2) p data) (\<lambda>p data.
                 scan_mem_data 2 (\<lambda>d p. p\<lparr>memWriteData := memWriteData p OR push_bit 16 (le_word d)\<rparr>) (m \<ge> 4) p data)))))"

definition scan_regs :: "bool \<Rightarrow> trace_packet \<Rightarrow> u8 list \<Rightarrow> trace_packet scanned" where
  "scan_regs flag p data =
     (if \<not> flag then Scanned p data
      else and_then (SCAN 1 data) (\<lambda>d data.
        let br = bit (d ! 0) 7; link = bit (d ! 0) 6; gp = unat (d ! 0 AND 0x3F);
            p = p\<lparr>hasWrittenBranch := of_bool br, hasWrittenLink := link, hasWrittenGP := gp\<rparr>
        in and_then (if link \<or> gp \<noteq> 0 then and_then (SCAN 4 data) (\<lambda>d. Scanned (p\<lparr>gpWriteData := le_word d, linkWriteData := le_word d\<rparr>))
                     else Scanned p data) (\<lambda>p data.
           if br then and_then (SCAN 2 data) (\<lambda>d. Scanned (p\<lparr>hasWrittenBranch := d ! 0, branchWriteData := d ! 1\<rparr>))
           else Scanned p data)))"

definition scan_exflags :: "bool \<Rightarrow> trace_packet \<Rightarrow> u8 list \<Rightarrow> trace_packet scanned" where
  "scan_exflags flag p data =
     (if \<not> flag then Scanned p data
      else and_then (SCAN 1 data) (\<lambda>d data.
        if d ! 0 AND 0x0F \<noteq> 0 then Bad_Data data
        else Scanned (p\<lparr>hasTrapped := bit (d ! 0) 7, hasNewConfiguration := bit (d ! 0) 6, cacheStatus := of_bool (bit (d ! 0) 5),
          hasSyllable := bit (d ! 0) 4\<rparr>) data))"

definition scan_trap :: "trace_packet \<Rightarrow> u8 list \<Rightarrow> trace_packet scanned" where
  "scan_trap p data =
     (if \<not> hasTrapped p then Scanned p data
      else and_then (SCAN 9 data) (\<lambda>d. Scanned (p\<lparr>trapCause := d ! 0, trapPoint := le_word (take 4 (drop 1 d)), trapArg := le_word (drop 5 d)\<rparr>)))"

definition scan_cfg :: "trace_packet \<Rightarrow> u8 list \<Rightarrow> trace_packet scanned" where
  "scan_cfg p data =
     (if \<not> hasNewConfiguration p then Scanned p data
      else and_then (SCAN 1 data) (\<lambda>d. Scanned (p\<lparr>newConfiguration := d ! 0 AND 0x0F\<rparr>)))"

definition scan_cache :: "trace_packet \<Rightarrow> u8 list \<Rightarrow> trace_packet scanned" where
  "scan_cache p data =
     (if cacheStatus p = 0 then Scanned p data
      else and_then (SCAN 1 data) (\<lambda>d data. if bit (d ! 0) 0 then Bad_Data data else Scanned (p\<lparr>cacheStatus := d ! 0\<rparr>) data))"

definition scan_syllable :: "trace_packet \<Rightarrow> u8 list \<Rightarrow> trace_packet scanned" where
  "scan_syllable p data =
     (if \<not> hasSyllable p then Scanned p data else and_then (SCAN 4 data) (\<lambda>d. Scanned (p\<lparr>syllable := le_word d\<rparr>)))"

definition scan_padding :: "u8 list \<Rightarrow> u8 list" where
  "scan_padding data = dropWhile (\<lambda>b. b = 0) data"

definition getTracePacket :: "trace_packet \<Rightarrow> nat \<Rightarrow> u8 list \<Rightarrow> (bool \<times> trace_packet) scanned" where
  "getTracePacket junk numLanes data =
     (let data = scan_padding data in
      if data = [] then No_Data data
      else and_then (SCAN 1 data) (\<lambda>d data.
        let flags = d ! 0; p = (reset_flags junk)\<lparr>lane := unat (drop_bit 1 flags AND 15)\<rparr>
        in if lane p \<ge> numLanes then Bad_Data data
           else and_then (scan_pc (bit flags 7) p data) (\<lambda>p data.
                and_then (scan_mem (bit flags 6) p data) (\<lambda>p data.
                and_then (scan_regs (bit flags 5) p data) (\<lambda>p data.
                and_then (scan_exflags (bit flags 0) p data) (\<lambda>p data.
                and_then (scan_trap p data) (\<lambda>p data.
                and_then (scan_cfg p data) (\<lambda>p data.
                and_then (scan_cache p data) (\<lambda>p data.
                and_then (scan_syllable p data) (\<lambda>p data.
                Scanned (lane p + 1 = numLanes \<or> (data \<noteq> [] \<and> hd data = 0), p) (scan_padding data))))))))))) "


section \<open>The encoder in the core\<close>

text \<open>
  What the trace unit has to report of a lane in a cycle, field by field as the packet buffer holds
  it: the update mode and value of the PC, write mask, address and data of a memory access, and so
  on. A register field holds the index or 0, whether the link register is written, the data, and
  mask and values of the branch registers.
\<close>

record lane_trace =
  tr_pc :: "(u8 \<times> u32) option"
  tr_mem :: "(u8 \<times> u32 \<times> u32) option"
  tr_reg :: "(u8 \<times> bool \<times> u32 \<times> u8 \<times> u8) option"
  tr_trap :: "(u8 \<times> u32 \<times> u32) option"
  tr_cfg :: "u8 option"
  tr_cache :: "u8 option"
  tr_instr :: "u32 option"

definition le_bytes :: "nat \<Rightarrow> u32 \<Rightarrow> u8 list" where
  "le_bytes n w = map (\<lambda>i. ucast (drop_bit (8 * i) w)) [0..<n]"

definition flags_byte :: "bool \<Rightarrow> bool \<Rightarrow> bool \<Rightarrow> nat \<Rightarrow> bool \<Rightarrow> u8" where
  "flags_byte p m r n x = push_bit 7 (of_bool p) OR push_bit 6 (of_bool m) OR push_bit 5 (of_bool r) OR push_bit 1 (of_nat n) OR of_bool x"

definition exflags_byte :: "bool \<Rightarrow> bool \<Rightarrow> bool \<Rightarrow> bool \<Rightarrow> u8" where
  "exflags_byte t c k i = push_bit 7 (of_bool t) OR push_bit 6 (of_bool c) OR push_bit 5 (of_bool k) OR push_bit 4 (of_bool i)"

definition has_ex :: "lane_trace \<Rightarrow> bool" where
  "has_ex f \<longleftrightarrow> tr_trap f \<noteq> None \<or> tr_cfg f \<noteq> None \<or> tr_cache f \<noteq> None \<or> tr_instr f \<noteq> None"

definition pending :: "lane_trace \<Rightarrow> bool" where
  "pending f \<longleftrightarrow> tr_pc f \<noteq> None \<or> tr_mem f \<noteq> None \<or> tr_reg f \<noteq> None \<or> has_ex f"

definition pc_bytes :: "(u8 \<times> u32) option \<Rightarrow> u8 list" where
  "pc_bytes x = (case x of None \<Rightarrow> []
   | Some (mode, a) \<Rightarrow> (ucast a AND 0xFC OR mode) # (if bit mode 1 then le_bytes 3 (drop_bit 8 a) else if bit mode 0 then le_bytes 1 (drop_bit 8 a) else []))"

definition mem_data :: "u8 \<Rightarrow> u32 \<Rightarrow> u8 list" where
  "mem_data k v = concat (map (\<lambda>i. if bit k i then [ucast (drop_bit (8 * i) v)] else []) [0..<4])"

definition mem_bytes :: "(u8 \<times> u32 \<times> u32) option \<Rightarrow> u8 list" where
  "mem_bytes x = (case x of None \<Rightarrow> []
   | Some (k, a, v) \<Rightarrow> k # le_bytes 4 a @ mem_data k v)"

definition reg_bytes :: "(u8 \<times> bool \<times> u32 \<times> u8 \<times> u8) option \<Rightarrow> u8 list" where
  "reg_bytes x = (case x of None \<Rightarrow> []
   | Some (gp, link, v, k, b) \<Rightarrow>
       (push_bit 7 (of_bool (k \<noteq> 0)) OR push_bit 6 (of_bool link) OR gp) #
       (if link \<or> gp \<noteq> 0 then le_bytes 4 v else []) @ (if k \<noteq> 0 then [k, b] else []))"

definition ex_bytes :: "lane_trace \<Rightarrow> u8 list" where
  "ex_bytes f =
     (if has_ex f then
        exflags_byte (tr_trap f \<noteq> None) (tr_cfg f \<noteq> None) (tr_cache f \<noteq> None) (tr_instr f \<noteq> None) #
        (case tr_trap f of None \<Rightarrow> [] | Some (c, p, a) \<Rightarrow> c # le_bytes 4 p @ le_bytes 4 a) @
        (case tr_cfg f of None \<Rightarrow> [] | Some c \<Rightarrow> [c]) @
        (case tr_cache f of None \<Rightarrow> [] | Some c \<Rightarrow> [c]) @
        (case tr_instr f of None \<Rightarrow> [] | Some w \<Rightarrow> le_bytes 4 w)
      else [])"

definition lane_bytes :: "nat \<Rightarrow> lane_trace \<Rightarrow> u8 list" where
  "lane_bytes n f = flags_byte (tr_pc f \<noteq> None) (tr_mem f \<noteq> None) (tr_reg f \<noteq> None) n (has_ex f) #
     pc_bytes (tr_pc f) @ mem_bytes (tr_mem f) @ reg_bytes (tr_reg f) @ ex_bytes f"

text \<open>The values the trace unit produces.\<close>

definition lane_trace_ok :: "lane_trace \<Rightarrow> bool" where
  "lane_trace_ok f \<longleftrightarrow>
     (\<forall>(mode, a) \<in> set_option (tr_pc f). mode < 4) \<and>
     (\<forall>(k, a, v) \<in> set_option (tr_mem f). k \<in> {0, 8, 4, 2, 1, 0xC, 3, 0xF}) \<and>
     (\<forall>(gp, link, v, k, b) \<in> set_option (tr_reg f). gp < 64) \<and>
     (\<forall>c \<in> set_option (tr_cfg f). c < 16) \<and>
     (\<forall>c \<in> set_option (tr_cache f). \<not> bit c 0)"

section \<open>Decoding what was encoded\<close>

lemma push_flag: "j < 8 \<Longrightarrow> bit (push_bit j (of_bool c) :: u8) k = (k = j \<and> c)"
  by (auto simp: bit_push_bit_iff bit_1_iff)

lemma flags_byte_bits:
  assumes "n < 16"
  shows "bit (flags_byte p m r n x) 7 = p" "bit (flags_byte p m r n x) 6 = m" "bit (flags_byte p m r n x) 5 = r"
    "bit (flags_byte p m r n x) 0 = x" "unat (drop_bit 1 (flags_byte p m r n x) AND 15) = n" "flags_byte p m r n x = 0 \<longleftrightarrow> \<not> p \<and> \<not> m \<and> \<not> r \<and> \<not> x \<and> n = 0"
proof -
  have t: "(of_nat n :: u8) = take_bit 4 (of_nat n)"
    using assms by (simp add: word_unat_eq_iff unat_of_nat take_bit_eq_mod unat_mod_distrib)
  have b: "bit (flags_byte p m r n x) k = ((0 < k \<and> k < 5 \<and> bit (of_nat n :: u8) (k - 1)) \<or> (k = 7 \<and> p) \<or> (k = 6 \<and> m) \<or> (k = 5 \<and> r) \<or> (k = 0 \<and> x))" for k
  proof -
    have "bit (push_bit 1 (take_bit 4 (of_nat n :: u8))) k = (0 < k \<and> k < 5 \<and> bit (of_nat n :: u8) (k - 1))"
      unfolding bit_push_bit_iff bit_take_bit_iff by auto
    then have "bit (push_bit 1 (of_nat n :: u8)) k = (0 < k \<and> k < 5 \<and> bit (of_nat n :: u8) (k - 1))"
      unfolding t [symmetric] .
    moreover have "bit (of_bool x :: u8) k = (k = 0 \<and> x)" using push_flag [of 0 x k] by simp
    moreover have "bit (push_bit 7 (of_bool p) :: u8) k = (k = 7 \<and> p)" "bit (push_bit 6 (of_bool m) :: u8) k = (k = 6 \<and> m)"
      "bit (push_bit 5 (of_bool r) :: u8) k = (k = 5 \<and> r)" by (rule push_flag, simp)+
    ultimately show ?thesis unfolding flags_byte_def bit_or_iff by blast
  qed
  show f: "bit (flags_byte p m r n x) 7 = p" "bit (flags_byte p m r n x) 6 = m" "bit (flags_byte p m r n x) 5 = r" "bit (flags_byte p m r n x) 0 = x"
    unfolding b by simp_all
  have m: "(15 :: u8) = mask 4" by (simp add: mask_eq_exp_minus_1)
  have "drop_bit 1 (flags_byte p m r n x) AND 15 = take_bit 4 (of_nat n :: u8)"
    unfolding m by (auto intro!: bit_word_eqI simp: bit_and_iff bit_drop_bit_eq bit_take_bit_iff bit_mask_iff b)
  then show l: "unat (drop_bit 1 (flags_byte p m r n x) AND 15) = n"
    unfolding t [symmetric] using assms by (simp add: unat_of_nat)
  show "flags_byte p m r n x = 0 \<longleftrightarrow> \<not> p \<and> \<not> m \<and> \<not> r \<and> \<not> x \<and> n = 0"
  proof
    assume z: "flags_byte p m r n x = 0"
    then have "unat (drop_bit 1 (0 :: u8) AND 15) = n" using l by simp
    with f z show "\<not> p \<and> \<not> m \<and> \<not> r \<and> \<not> x \<and> n = 0" by simp
  qed (simp add: flags_byte_def)
qed

lemma exflags_byte_bits:
  "bit (exflags_byte t c k i) 7 = t" "bit (exflags_byte t c k i) 6 = c" "bit (exflags_byte t c k i) 5 = k" "bit (exflags_byte t c k i) 4 = i"
  "exflags_byte t c k i AND 0x0F = 0"
proof -
  have "\<forall>t c k i. bit (exflags_byte t c k i) 7 = t \<and> bit (exflags_byte t c k i) 6 = c \<and> bit (exflags_byte t c k i) 5 = k \<and>
      bit (exflags_byte t c k i) 4 = i \<and> exflags_byte t c k i AND 0x0F = 0"
    by code_simp
  then show "bit (exflags_byte t c k i) 7 = t" "bit (exflags_byte t c k i) 6 = c" "bit (exflags_byte t c k i) 5 = k" "bit (exflags_byte t c k i) 4 = i"
    "exflags_byte t c k i AND 0x0F = 0" by blast+
qed

lemma length_le_bytes [simp]: "length (le_bytes n w) = n"
  by (simp add: le_bytes_def)

lemma le_bytes_simps [simp]: "le_bytes 0 w = []" "le_bytes (Suc n) w = ucast w # le_bytes n (drop_bit 8 w)"
  by (simp_all add: le_bytes_def upt_conv_Cons map_Suc_upt [symmetric] ac_simps del: upt_Suc)

lemma le_word_bytes: "le_word (le_bytes n w) = take_bit (8 * n) w"
proof (induction n arbitrary: w)
  case (Suc n)
  have "bit (ucast (ucast w :: u8) OR push_bit 8 (take_bit (8 * n) (drop_bit 8 w))) k = bit (take_bit (8 * Suc n) w) k" for k
    by (cases "k < 8") (auto simp: bit_simps dest: bit_imp_le_length)
  then have "ucast (ucast w :: u8) OR push_bit 8 (take_bit (8 * n) (drop_bit 8 w)) = take_bit (8 * Suc n) w"
    by (intro bit_eqI) blast
  with Suc show ?case by simp
qed simp

lemma take_bit_32 [simp]: "take_bit 32 w = w" for w :: u32
  by (simp add: take_bit_word_eq_self)

lemma SCAN_append [simp]: "n = length d \<Longrightarrow> SCAN n (d @ rest) = Scanned d rest"
  by (simp add: SCAN_def)

lemma SCAN_Cons [simp]: "SCAN 1 (b # rest) = Scanned [b] rest" "SCAN (Suc 0) (b # rest) = Scanned [b] rest"
  by (simp_all add: SCAN_def)


text \<open>What the decoder should make of each field.\<close>

definition pc_mask :: "u8 \<Rightarrow> u32" where
  "pc_mask mode = (if bit mode 1 then 0xFFFFFFFF else if bit mode 0 then 0xFFFF else 0xFF)"

definition see_pc :: "(u8 \<times> u32) option \<Rightarrow> trace_packet \<Rightarrow> trace_packet" where
  "see_pc x p = (case x of None \<Rightarrow> p
   | Some (mode, a) \<Rightarrow> p\<lparr>hasBranched := (mode = 3), hasPC := pc_mask mode, pc := (a AND 0xFFFFFFFC) AND pc_mask mode\<rparr>)"

text \<open>The written bytes, as a number: those whose bit in the write mask is set.\<close>

definition mem_value :: "u8 \<Rightarrow> u32 \<Rightarrow> u32" where
  "mem_value k v =
     (if k = 0xF then v else if k = 0xC then drop_bit 16 v else if k = 3 then take_bit 16 v
      else if k = 8 then drop_bit 24 v else if k = 4 then take_bit 8 (drop_bit 16 v)
      else if k = 2 then take_bit 8 (drop_bit 8 v) else take_bit 8 v)"

definition mem_size :: "u8 \<Rightarrow> int" where
  "mem_size k = (if k = 0 then -1 else if k = 0xF then 4 else if k = 0xC \<or> k = 3 then 2 else 1)"

definition see_mem :: "(u8 \<times> u32 \<times> u32) option \<Rightarrow> trace_packet \<Rightarrow> trace_packet" where
  "see_mem x p = (case x of None \<Rightarrow> p
   | Some (k, a, v) \<Rightarrow> p\<lparr>hasMem := mem_size k, memAddr := a, memWriteData := (if k = 0 then memWriteData p else mem_value k v)\<rparr>)"

definition see_reg :: "(u8 \<times> bool \<times> u32 \<times> u8 \<times> u8) option \<Rightarrow> trace_packet \<Rightarrow> trace_packet" where
  "see_reg x p = (case x of None \<Rightarrow> p
   | Some (gp, link, v, k, b) \<Rightarrow> p\<lparr>hasWrittenBranch := k, branchWriteData := (if k = 0 then branchWriteData p else b),
       hasWrittenLink := link, hasWrittenGP := unat gp,
       gpWriteData := (if link \<or> gp \<noteq> 0 then v else gpWriteData p), linkWriteData := (if link \<or> gp \<noteq> 0 then v else linkWriteData p)\<rparr>)"

definition see_ex :: "lane_trace \<Rightarrow> trace_packet \<Rightarrow> trace_packet" where
  "see_ex f p =
     (let p = (case tr_trap f of None \<Rightarrow> p | Some (c, a, x) \<Rightarrow> p\<lparr>hasTrapped := True, trapCause := c, trapPoint := a, trapArg := x\<rparr>);
          p = (case tr_cfg f of None \<Rightarrow> p | Some c \<Rightarrow> p\<lparr>hasNewConfiguration := True, newConfiguration := c\<rparr>);
          p = (case tr_cache f of None \<Rightarrow> p | Some c \<Rightarrow> p\<lparr>cacheStatus := c\<rparr>)
      in (case tr_instr f of None \<Rightarrow> p | Some w \<Rightarrow> p\<lparr>hasSyllable := True, syllable := w\<rparr>))"

definition see_lane :: "trace_packet \<Rightarrow> nat \<Rightarrow> lane_trace \<Rightarrow> trace_packet" where
  "see_lane junk n f = see_ex f (see_reg (tr_reg f) (see_mem (tr_mem f) (see_pc (tr_pc f) ((reset_flags junk)\<lparr>lane := n\<rparr>))))"

text \<open>
  One field is not decoded: the core sends the address of an upper halfword that is written, and
  the decoder adds the offset of the half once more, to the low byte. \<open>shown_lane\<close> is the packet of
  the decoder, with this address where it occurs.
\<close>

definition shown_address :: "u8 \<Rightarrow> u32 \<Rightarrow> u32" where
  "shown_address k a = (if k = 3 then (2 + (a AND 0xFF)) OR (a AND 0xFFFFFF00) else a)"

definition misplace :: "lane_trace \<Rightarrow> trace_packet \<Rightarrow> trace_packet" where
  "misplace f p = (case tr_mem f of None \<Rightarrow> p | Some (k, a, v) \<Rightarrow> p\<lparr>memAddr := shown_address k a\<rparr>)"

definition shown_lane :: "trace_packet \<Rightarrow> nat \<Rightarrow> lane_trace \<Rightarrow> trace_packet" where
  "shown_lane junk n f = misplace f (see_lane junk n f)"

definition shown_mem :: "(u8 \<times> u32 \<times> u32) option \<Rightarrow> trace_packet \<Rightarrow> trace_packet" where
  "shown_mem x p = (case x of None \<Rightarrow> p | Some (k, a, v) \<Rightarrow> see_mem x p\<lparr>memAddr := shown_address k a\<rparr>)"

lemma shown_lane_fields:
  "shown_lane junk n f = see_ex f (see_reg (tr_reg f) (shown_mem (tr_mem f) (see_pc (tr_pc f) ((reset_flags junk)\<lparr>lane := n\<rparr>))))"
proof (cases "tr_mem f")
  case (Some x)
  have ex: "(see_ex f p)\<lparr>memAddr := a\<rparr> = see_ex f (p\<lparr>memAddr := a\<rparr>)" for p a
    by (auto simp: see_ex_def Let_def split: option.split)
  have reg: "(see_reg y p)\<lparr>memAddr := a\<rparr> = see_reg y (p\<lparr>memAddr := a\<rparr>)" for y p a
    by (auto simp: see_reg_def split: option.split)
  show ?thesis
    by (cases x) (simp add: shown_lane_def misplace_def see_lane_def shown_mem_def ex reg Some)
qed (simp add: shown_lane_def misplace_def see_lane_def shown_mem_def see_mem_def)

text \<open>Unless the upper half of a word is written, the packet is what was reported.\<close>

lemma shown_lane_faithful:
  "(\<And>a v. tr_mem f \<noteq> Some (3, a, v)) \<Longrightarrow> shown_lane junk n f = see_lane junk n f"
proof -
  assume "\<And>a v. tr_mem f \<noteq> Some (3, a, v)"
  then have "shown_mem (tr_mem f) p = see_mem (tr_mem f) p" for p
    by (cases p) (auto simp: shown_mem_def shown_address_def see_mem_def split: option.split)
  then show ?thesis by (simp add: shown_lane_fields see_lane_def)
qed

lemma small_mode: "mode < 4 \<Longrightarrow> mode = 0 \<or> mode = 1 \<or> mode = 2 \<or> mode = 3" for mode :: u8
  by (simp add: word_less_nat_alt word_unat_eq_iff) linarith

lemma pc_byte:
  fixes mode :: u8 and a :: u32
  assumes "mode < 4"
  shows "(ucast a AND 0xFC OR mode) AND 3 = mode" "(ucast a AND 0xFC OR mode) AND 0xFC = ucast a AND 0xFC"
proof -
  from small_mode [OF assms] have "mode AND 3 = mode" "mode AND 0xFC = 0" by auto
  then show "(ucast a AND 0xFC OR mode) AND 3 = mode" "(ucast a AND 0xFC OR mode) AND 0xFC = ucast a AND 0xFC"
    by (simp_all add: bit.conj_disj_distrib2 and.assoc)
qed

lemma scan_pc_bytes:
  "\<forall>(mode, a) \<in> set_option x. mode < 4 \<Longrightarrow> scan_pc (x \<noteq> None) p (pc_bytes x @ rest) = Scanned (see_pc x p) rest"
proof (cases x)
  case (Some ma)
  assume "\<forall>(mode, a) \<in> set_option x. mode < 4"
  then obtain mode a where x: "x = Some (mode, a)" "mode < 4" using Some by (cases ma) auto
  have m: "(0xFC :: u8) = NOT (mask 2)" "(0xFFFFFFFC :: u32) = NOT (mask 2)" "(0xFFFF :: u32) = mask 16" "(0xFF :: u32) = mask 8"
      "(0xFFFFFFFF :: u32) = - 1"
    by (simp_all add: mask_eq_exp_minus_1)
  have pcs: "ucast (ucast a AND (0xFC :: u8)) OR push_bit 8 (take_bit 24 (drop_bit 8 a)) = (a AND 0xFFFFFFFC) AND 0xFFFFFFFF"
      "ucast (ucast a AND (0xFC :: u8)) OR push_bit 8 (take_bit 8 (drop_bit 8 a)) = (a AND 0xFFFFFFFC) AND 0xFFFF"
      "ucast (ucast a AND (0xFC :: u8)) = (a AND 0xFFFFFFFC) AND 0xFF"
    unfolding m by (auto intro!: bit_word_eqI simp: bit_simps not_less)
  note scan = scan_pc_def x pc_bytes_def see_pc_def pc_mask_def Let_def
  from small_mode [OF x(2)] show ?thesis
  proof (elim disjE)
    assume "mode = 0"
    then show ?thesis using pc_byte [of 0 a] pcs(3) by (simp add: scan)
  next
    assume "mode = 1"
    then show ?thesis using pc_byte [of 1 a] pcs(2) le_word_bytes [of 1 "drop_bit 8 a"] by (simp add: scan del: le_bytes_simps)
  next
    assume "mode = 2"
    then show ?thesis using pc_byte [of 2 a] pcs(1) le_word_bytes [of 3 "drop_bit 8 a"] by (simp add: scan del: le_bytes_simps)
  next
    assume "mode = 3"
    then show ?thesis using pc_byte [of 3 a] pcs(1) le_word_bytes [of 3 "drop_bit 8 a"] by (simp add: scan del: le_bytes_simps)
  qed
qed (simp add: scan_pc_def pc_bytes_def see_pc_def)


lemma le_word_parts:
  "(ucast (ucast w :: u8) :: u32) = take_bit 8 w" "le_word (le_bytes 3 w) = take_bit 24 w" "le_word (le_bytes 4 w) = w"
  using le_word_bytes [of 3 w] le_word_bytes [of 4 w] by (auto intro!: bit_word_eqI simp: bit_simps)

lemma split_le_4: "le_bytes 4 a = ucast a # le_bytes 3 (drop_bit 8 a)"
  using le_bytes_simps(2) [of 3 a] by (simp del: le_bytes_simps)

lemma byte_parts:
  "take_bit 8 a OR (a AND 0xFFFFFF00) = a" "push_bit 8 (take_bit 24 (drop_bit 8 a)) = a AND 0xFFFFFF00" "a AND 0xFF = take_bit 8 a" for a :: u32
proof -
  have m: "(0xFFFFFF00 :: u32) = NOT (mask 8)" "(0xFF :: u32) = mask 8" by (simp_all add: mask_eq_exp_minus_1)
  show "take_bit 8 a OR (a AND 0xFFFFFF00) = a" "push_bit 8 (take_bit 24 (drop_bit 8 a)) = a AND 0xFFFFFF00" "a AND 0xFF = take_bit 8 a"
    unfolding m by (auto intro!: bit_word_eqI simp: bit_simps not_less)
qed

lemma mem_data_cases:
  "mem_data 0 v = []" "mem_data 8 v = [ucast (drop_bit 24 v)]" "mem_data 4 v = [ucast (drop_bit 16 v)]"
  "mem_data 2 v = [ucast (drop_bit 8 v)]" "mem_data 1 v = [ucast v]" "mem_data 0xC v = [ucast (drop_bit 16 v), ucast (drop_bit 24 v)]"
  "mem_data 3 v = [ucast v, ucast (drop_bit 8 v)]" "mem_data 0xF v = [ucast v, ucast (drop_bit 8 v), ucast (drop_bit 16 v), ucast (drop_bit 24 v)]"
proof -
  have "[0..<4] = [0, 1, 2, 3 :: nat]" by (simp add: upt_rec)
  then show "mem_data 0 v = []" "mem_data 8 v = [ucast (drop_bit 24 v)]" "mem_data 4 v = [ucast (drop_bit 16 v)]"
    "mem_data 2 v = [ucast (drop_bit 8 v)]" "mem_data 1 v = [ucast v]" "mem_data 0xC v = [ucast (drop_bit 16 v), ucast (drop_bit 24 v)]"
    "mem_data 3 v = [ucast v, ucast (drop_bit 8 v)]" "mem_data 0xF v = [ucast v, ucast (drop_bit 8 v), ucast (drop_bit 16 v), ucast (drop_bit 24 v)]"
    by (simp_all add: mem_data_def bit_1_iff)
qed

lemma split_word: "take_bit n v OR push_bit n (drop_bit n v) = v" for v :: "'a::len word"
proof (rule bit_word_eqI)
  fix k assume "k < LENGTH('a)"
  then show "bit (take_bit n v OR push_bit n (drop_bit n v)) k = bit v k"
    by (cases "k < n") (simp_all add: bit_or_iff bit_take_bit_iff bit_push_bit_iff bit_drop_bit_eq)
qed

lemma take_split: "take_bit m v OR push_bit m (take_bit n (drop_bit m v)) = take_bit (m + n) v" for v :: "'a::len word"
proof (rule bit_word_eqI)
  fix k assume "k < LENGTH('a)"
  then show "bit (take_bit m v OR push_bit m (take_bit n (drop_bit m v))) k = bit (take_bit (m + n) v) k"
    by (cases "k < m") (auto simp: bit_or_iff bit_take_bit_iff bit_push_bit_iff bit_drop_bit_eq)
qed

lemma high_bytes: "take_bit 8 (drop_bit 24 v) = drop_bit 24 v" "take_bit 16 (drop_bit 16 v) = drop_bit 16 v" for v :: u32
  by (rule bit_word_eqI; auto simp: bit_take_bit_iff bit_drop_bit_eq dest: bit_imp_le_length)+

lemma written_word:
  "take_bit 8 v OR push_bit 8 (take_bit 8 (drop_bit 8 v)) = take_bit 16 v"
  "take_bit 8 (drop_bit 16 v) OR push_bit 8 (drop_bit 24 v) = drop_bit 16 v"
  "take_bit 16 v OR push_bit 16 (drop_bit 16 v) = v" for v :: u32
proof -
  show "take_bit 8 v OR push_bit 8 (take_bit 8 (drop_bit 8 v)) = take_bit 16 v" using take_split [of 8 v 8] by simp
  show "take_bit 8 (drop_bit 16 v) OR push_bit 8 (drop_bit 24 v) = drop_bit 16 v"
    using take_split [of 8 "drop_bit 16 v" 8] by (simp add: high_bytes)
  show "take_bit 16 v OR push_bit 16 (drop_bit 16 v) = v" by (rule split_word)
qed

lemma scan_mem_bytes:
  assumes "\<forall>(k, a, v) \<in> set_option x. k \<in> {0, 8, 4, 2, 1, 0xC, 3, 0xF}"
  shows "scan_mem (x \<noteq> None) p (mem_bytes x @ rest) = Scanned (shown_mem x p) rest"
proof (cases x)
  case (Some y)
  then obtain k a v where x: "x = Some (k, a, v)" by (cases y) auto
  have four: "SCAN 4 (le_bytes 4 a @ d) = Scanned (le_bytes 4 a) d" for d by (rule SCAN_append) simp
  have parts: "le_bytes 4 a ! 0 = ucast a" "tl (le_bytes 4 a) = le_bytes 3 (drop_bit 8 a)" by (simp_all add: split_le_4 del: le_bytes_simps)
  have two: "SCAN 2 (c # d # e) = Scanned [c, d] e" for c d :: u8 and e by (simp add: SCAN_def)
  note scan = scan_mem_def mem_bytes_def shown_mem_def see_mem_def x scan_mem_data_def Let_def mem_size_def mem_value_def shown_address_def
    mem_flags_def mem_data_cases four parts two le_word_parts byte_parts written_word high_bytes or.assoc [symmetric]
  consider "k = 0" | "k = 8" | "k = 4" | "k = 2" | "k = 1" | "k = 0xC" | "k = 3" | "k = 0xF" using assms x by auto
  then show ?thesis
    by cases (simp_all add: scan del: le_bytes_simps)
qed (simp add: scan_mem_def mem_bytes_def shown_mem_def)

lemma scan_regs_bytes:
  assumes "\<forall>(gp, link, v, k, b) \<in> set_option x. gp < 64"
  shows "scan_regs (x \<noteq> None) p (reg_bytes x @ rest) = Scanned (see_reg x p) rest"
proof (cases x)
  case (Some y)
  then obtain gp link v k b where x: "x = Some (gp, link, v, k, b)" by (cases y) auto
  then have "gp < 64" using assms by simp
  then have gp: "gp = take_bit 6 gp" by (simp add: word_unat_eq_iff take_bit_eq_mod unat_mod_distrib word_less_nat_alt)
  have m: "(0x3F :: u8) = mask 6" by (simp add: mask_eq_exp_minus_1)
  let ?f = "push_bit 7 (of_bool (k \<noteq> 0)) OR push_bit 6 (of_bool link) OR gp"
  have g: "\<not> bit gp 7" "\<not> bit gp 6" by (subst gp, simp add: bit_take_bit_iff)+
  have pf: "bit (push_bit 7 (of_bool (k \<noteq> 0)) :: u8) j = (j = 7 \<and> k \<noteq> 0)" "bit (push_bit 6 (of_bool link) :: u8) j = (j = 6 \<and> link)" for j
    by (rule push_flag, simp)+
  have f: "bit ?f j = ((j = 7 \<and> k \<noteq> 0) \<or> (j = 6 \<and> link) \<or> bit gp j)" for j
    by (simp only: bit_or_iff pf disj_assoc)
  have "?f AND 0x3F = take_bit 6 gp" unfolding m
    by (rule bit_word_eqI) (auto simp: bit_and_iff bit_take_bit_iff bit_mask_iff f)
  then have "?f AND 0x3F = gp" using gp by simp
  moreover have "bit ?f 7 = (k \<noteq> 0)" "bit ?f 6 = link" using f [of 7] f [of 6] g by auto
  moreover have "unat gp \<noteq> 0 \<longleftrightarrow> gp \<noteq> 0" by (simp add: unat_eq_0)
  ultimately show ?thesis
    unfolding x option.set reg_bytes_def scan_regs_def
    by (cases "link \<or> gp \<noteq> 0"; cases "k \<noteq> 0")
      (simp_all add: Let_def see_reg_def le_word_parts SCAN_append [of 2 "[_, _]", simplified] del: le_bytes_simps)
qed (simp add: scan_regs_def reg_bytes_def see_reg_def)


lemma and_then_assoc: "and_then (and_then x f) g = and_then x (\<lambda>y data. and_then (f y data) g)"
  by (cases x) simp_all

lemma scan_ex_bytes:
  assumes "lane_trace_ok f" "\<not> hasTrapped p" "\<not> hasNewConfiguration p" "cacheStatus p = 0" "\<not> hasSyllable p"
  shows "and_then (scan_exflags (has_ex f) p (ex_bytes f @ rest)) (\<lambda>p data. and_then (scan_trap p data) (\<lambda>p data.
      and_then (scan_cfg p data) (\<lambda>p data. and_then (scan_cache p data) scan_syllable))) = Scanned (see_ex f p) rest"
proof (cases "has_ex f")
  case True
  define q where "q = p\<lparr>hasTrapped := tr_trap f \<noteq> None, hasNewConfiguration := tr_cfg f \<noteq> None,
    cacheStatus := of_bool (tr_cache f \<noteq> None), hasSyllable := tr_instr f \<noteq> None\<rparr>"
  define t where "t = (case tr_trap f of None \<Rightarrow> q | Some (c, a, x) \<Rightarrow> q\<lparr>trapCause := c, trapPoint := a, trapArg := x\<rparr>)"
  define c where "c = (case tr_cfg f of None \<Rightarrow> t | Some c \<Rightarrow> t\<lparr>newConfiguration := c\<rparr>)"
  define k where "k = (case tr_cache f of None \<Rightarrow> c | Some x \<Rightarrow> c\<lparr>cacheStatus := x\<rparr>)"
  have tq: "hasTrapped q = (tr_trap f \<noteq> None)" "hasNewConfiguration t = (tr_cfg f \<noteq> None)"
      "(cacheStatus c \<noteq> 0) = (tr_cache f \<noteq> None)" "hasSyllable k = (tr_instr f \<noteq> None)"
    by (auto simp: q_def t_def c_def k_def split: option.splits prod.splits)
  have trap: "scan_trap q ((case tr_trap f of None \<Rightarrow> [] | Some (c, p, a) \<Rightarrow> c # le_bytes 4 p @ le_bytes 4 a) @ d) = Scanned t d" for d
  proof (cases "tr_trap f")
    case (Some y)
    then obtain u a x where y: "tr_trap f = Some (u, a, x)" by (cases y) auto
    have "SCAN 9 ((u # le_bytes 4 a @ le_bytes 4 x) @ d) = Scanned (u # le_bytes 4 a @ le_bytes 4 x) d" by (rule SCAN_append) simp
    then show ?thesis using tq(1) by (simp add: y scan_trap_def t_def le_word_parts del: le_bytes_simps)
  qed (simp add: scan_trap_def t_def tq)
  have cfg: "scan_cfg t ((case tr_cfg f of None \<Rightarrow> [] | Some c \<Rightarrow> [c]) @ d) = Scanned c d" for d
  proof (cases "tr_cfg f")
    case (Some y)
    have "y < 16" using assms(1) Some by (simp add: lane_trace_ok_def)
    then have "take_bit 4 y = y" by (simp add: word_unat_eq_iff take_bit_eq_mod unat_mod_distrib word_less_nat_alt)
    then have "y AND 0x0F = y" by (simp add: take_bit_eq_mask mask_eq_exp_minus_1)
    then show ?thesis using tq(2) Some by (simp add: scan_cfg_def c_def)
  qed (simp add: scan_cfg_def c_def tq)
  have cache: "scan_cache c ((case tr_cache f of None \<Rightarrow> [] | Some c \<Rightarrow> [c]) @ d) = Scanned k d" for d
    using tq(3) assms(1) by (auto simp: scan_cache_def k_def lane_trace_ok_def split: option.split)
  have instr: "scan_syllable k ((case tr_instr f of None \<Rightarrow> [] | Some w \<Rightarrow> le_bytes 4 w) @ d) = Scanned (see_ex f p) d" for d
  proof -
    have "(case tr_instr f of None \<Rightarrow> k | Some w \<Rightarrow> k\<lparr>syllable := w\<rparr>) = see_ex f p"
      using assms(2-5) by (auto simp: see_ex_def k_def c_def t_def q_def Let_def split: option.split)
    then show ?thesis using tq(4) by (auto simp: scan_syllable_def le_word_parts simp del: le_bytes_simps split: option.splits)
  qed
  show ?thesis
    using trap cfg cache instr by (simp add: scan_exflags_def ex_bytes_def True exflags_byte_bits q_def [symmetric] del: not_None_eq)
next
  case False
  then have "tr_trap f = None" unfolding has_ex_def by blast
  with False show ?thesis using assms(2-5)
    by (simp add: scan_exflags_def ex_bytes_def scan_trap_def scan_cfg_def scan_cache_def scan_syllable_def see_ex_def has_ex_def)
qed

lemma see_keeps:
  "hasTrapped (see_pc x p) = hasTrapped p" "hasNewConfiguration (see_pc x p) = hasNewConfiguration p" "cacheStatus (see_pc x p) = cacheStatus p"
  "hasSyllable (see_pc x p) = hasSyllable p" "lane (see_pc x p) = lane p"
  "hasTrapped (shown_mem y p) = hasTrapped p" "hasNewConfiguration (shown_mem y p) = hasNewConfiguration p" "cacheStatus (shown_mem y p) = cacheStatus p"
  "hasSyllable (shown_mem y p) = hasSyllable p" "lane (shown_mem y p) = lane p"
  "hasTrapped (see_reg z p) = hasTrapped p" "hasNewConfiguration (see_reg z p) = hasNewConfiguration p" "cacheStatus (see_reg z p) = cacheStatus p"
  "hasSyllable (see_reg z p) = hasSyllable p" "lane (see_reg z p) = lane p" "lane (see_ex f p) = lane p"
  by (auto simp: see_pc_def shown_mem_def see_mem_def see_reg_def see_ex_def Let_def split: option.split)

text \<open>The decoder reads what the trace unit wrote, whatever padding comes before it.\<close>

lemma decode_lane:
  assumes "lane_trace_ok f" "pending f" "n < numLanes" "numLanes \<le> 16"
  shows "getTracePacket junk numLanes (replicate z 0 @ lane_bytes n f @ rest) =
    Scanned (n + 1 = numLanes \<or> rest \<noteq> [] \<and> hd rest = 0, shown_lane junk n f) (scan_padding rest)"
proof -
  let ?fl = "flags_byte (tr_pc f \<noteq> None) (tr_mem f \<noteq> None) (tr_reg f \<noteq> None) n (has_ex f)"
  have n: "n < 16" using assms by simp
  have "?fl \<noteq> 0" using assms(2) unfolding flags_byte_bits(6) [OF n] unfolding pending_def by blast
  then have start: "scan_padding (replicate z 0 @ lane_bytes n f @ rest) = lane_bytes n f @ rest"
    by (simp add: scan_padding_def lane_bytes_def dropWhile_append)
  let ?r = "(reset_flags junk)\<lparr>lane := n\<rparr>"
  define q where "q = see_reg (tr_reg f) (shown_mem (tr_mem f) (see_pc (tr_pc f) ?r))"
  have ok: "\<forall>(mode, a) \<in> set_option (tr_pc f). mode < 4" "\<forall>(k, a, v) \<in> set_option (tr_mem f). k \<in> {0, 8, 4, 2, 1, 0xC, 3, 0xF}"
      "\<forall>(gp, link, v, k, b) \<in> set_option (tr_reg f). gp < 64"
    using assms(1) unfolding lane_trace_ok_def by blast+
  have q: "\<not> hasTrapped q" "\<not> hasNewConfiguration q" "cacheStatus q = 0" "\<not> hasSyllable q" "lane q = n"
    by (simp_all add: q_def see_keeps reset_flags_def)
  have "and_then (scan_exflags (has_ex f) q (ex_bytes f @ rest)) (\<lambda>p data. and_then (scan_trap p data) (\<lambda>p data.
      and_then (scan_cfg p data) (\<lambda>p data. and_then (scan_cache p data) (\<lambda>p data. and_then (scan_syllable p data) g)))) =
    g (see_ex f q) rest" for g :: "trace_packet \<Rightarrow> u8 list \<Rightarrow> (bool \<times> trace_packet) scanned"
    using arg_cong [OF scan_ex_bytes [OF assms(1) q(1-4), of rest], of "\<lambda>x. and_then x g"] by (simp add: and_then_assoc)
  then show ?thesis
    using assms(3)
    by (simp add: getTracePacket_def start Let_def del: not_None_eq One_nat_def)
      (simp del: not_None_eq One_nat_def add: lane_bytes_def flags_byte_bits [OF n] scan_pc_bytes [OF ok(1)] scan_mem_bytes [OF ok(2)] scan_regs_bytes [OF ok(3)]
        q_def [symmetric] shown_lane_fields see_keeps q(5))
qed


text \<open>
  C14. Packet format: whatever the trace unit reports of a lane, the decoder reads from its bytes
  the lane, the part of the program counter that is sent, the memory access with the bytes
  written, the register, branch and link values, trap, configuration, cache status and syllable,
  and stops at the right byte; the fields that are not sent keep their flags clear. One field is
  excepted, the address of a write to the upper half of a word, which \<open>misplace\<close> gives as the decoder
  has it: two bytes too high (\<open>half_write_address_too_high\<close>).
\<close>

theorem getTracePacket_decodes:
  assumes "lane_trace_ok f" "pending f" "n < numLanes" "numLanes \<le> 16"
  shows "getTracePacket junk numLanes (replicate z 0 @ lane_bytes n f @ rest) =
    Scanned (n + 1 = numLanes \<or> rest \<noteq> [] \<and> hd rest = 0, misplace f (see_lane junk n f)) (scan_padding rest)"
  using decode_lane [OF assms] by (simp add: shown_lane_def)

definition no_trace :: lane_trace where
  "no_trace = \<lparr>tr_pc = None, tr_mem = None, tr_reg = None, tr_trap = None, tr_cfg = None, tr_cache = None, tr_instr = None\<rparr>"

definition no_packet :: trace_packet where
  "no_packet = \<lparr>lane = 0, hasPC = 0, pc = 0, hasBranched = False, hasMem = 0, memAddr = 0, memWriteData = 0, hasWrittenGP = 0,
     gpWriteData = 0, hasWrittenLink = False, linkWriteData = 0, hasWrittenBranch = 0, branchWriteData = 0, hasTrapped = False,
     trapPoint = 0, trapCause = 0, trapArg = 0, hasNewConfiguration = False, newConfiguration = 0, cacheStatus = 0,
     hasSyllable = False, syllable = 0\<rparr>"

theorem getTracePacket_decodes_witness:
  "getTracePacket no_packet 8 [0, 0, 0xC4, 0x09, 0x12, 0x8, 0x00, 0x20, 0, 0, 0x5A, 0, 7] =
    Scanned (True, no_packet\<lparr>lane := 2, hasPC := 0xFFFF, pc := 0x1208, hasMem := 1, memAddr := 0x2000, memWriteData := 0x5A\<rparr>) [7]"
proof -
  let ?f = "no_trace\<lparr>tr_pc := Some (1, 0x1208), tr_mem := Some (8, 0x2000, 0x5A000000)\<rparr>"
  have "lane_trace_ok ?f" "pending ?f" by (simp_all add: lane_trace_ok_def pending_def no_trace_def)
  from getTracePacket_decodes [OF this, of 2 8 no_packet 2 "[0, 7]"]
  have "getTracePacket no_packet 8 (replicate 2 0 @ lane_bytes 2 ?f @ [0, 7]) = Scanned (True, misplace ?f (see_lane no_packet 2 ?f)) (scan_padding [0, 7])" by simp
  moreover have "replicate 2 0 @ lane_bytes 2 ?f @ [0, 7] = [0, 0, 0xC4, 0x09, 0x12, 0x8, 0x00, 0x20, 0, 0, 0x5A, 0, 7]" by code_simp
  moreover have "misplace ?f (see_lane no_packet 2 ?f) = no_packet\<lparr>lane := 2, hasPC := 0xFFFF, pc := 0x1208, hasMem := 1, memAddr := 0x2000, memWriteData := 0x5A\<rparr>"
    by (simp add: misplace_def shown_address_def see_lane_def see_ex_def see_reg_def see_mem_def see_pc_def no_packet_def no_trace_def reset_flags_def pc_mask_def
        mem_size_def mem_value_def)
  moreover have "scan_padding [0, 7] = [7]" by code_simp
  ultimately show ?thesis by simp
qed

lemma or_disjoint_add: "a OR b = a + b" if "a AND b = 0" for a b :: u32
  using word_plus_and_or [of a b] that by simp

text \<open>
  A halfword written to the upper half of a word is shown two bytes too high: the core sends the
  address of the halfword, and the decoder adds the offset of the half once more.
\<close>

theorem half_write_address_too_high:
  assumes "lane_trace_ok f" "n < numLanes" "numLanes \<le> 16" "tr_mem f = Some (3, a, v)" "unat a mod 256 < 254"
  shows "\<exists>e p r. getTracePacket junk numLanes (lane_bytes n f @ rest) = Scanned (e, p) r \<and>
    hasMem p = 2 \<and> memWriteData p = take_bit 16 v \<and> memAddr p = a + 2"
proof -
  have "pending f" using assms(4) by (simp add: pending_def)
  from decode_lane [OF assms(1) this assms(2,3), of junk 0 rest]
  have get: "getTracePacket junk numLanes (lane_bytes n f @ rest) = Scanned (n + 1 = numLanes \<or> rest \<noteq> [] \<and> hd rest = 0, shown_lane junk n f) (scan_padding rest)"
    by simp
  have see: "hasMem (shown_lane junk n f) = 2" "memWriteData (shown_lane junk n f) = take_bit 16 v" "memAddr (shown_lane junk n f) = shown_address 3 a"
    by (auto simp: shown_lane_fields shown_mem_def see_ex_def see_reg_def see_mem_def assms(4) mem_size_def mem_value_def Let_def split: option.split)
  have m: "(0xFFFFFF00 :: u32) = NOT (mask 8)" by (simp add: mask_eq_exp_minus_1)
  have low: "unat (take_bit 8 w) = unat w mod 256" for w :: u32 by (simp add: take_bit_eq_mod unat_mod_distrib)
  have two: "unat (2 + take_bit 8 a) = 2 + unat a mod 256" using assms(5) low [of a] by (simp add: unat_word_ariths)
  have "unat (take_bit 8 (2 + take_bit 8 a)) = unat (2 + take_bit 8 a)" unfolding low two using assms(5) by simp
  then have "take_bit 8 (2 + take_bit 8 a) = 2 + take_bit 8 a" by (simp only: word_unat_eq_iff)
  then have "(2 + take_bit 8 a) AND (a AND NOT (mask 8)) = take_bit 8 (2 + take_bit 8 a) AND (a AND NOT (mask 8))" by simp
  also have "\<dots> = 0" by (rule bit_word_eqI) (simp add: bit_simps)
  finally have d: "(2 + take_bit 8 a) AND (a AND 0xFFFFFF00) = 0" unfolding m .
  have "take_bit 8 a AND (a AND 0xFFFFFF00) = 0" unfolding m by (rule bit_word_eqI) (simp add: bit_simps)
  from or_disjoint_add [OF this] have "take_bit 8 a + (a AND 0xFFFFFF00) = a" by (simp add: byte_parts(1))
  then have "shown_address 3 a = a + 2" using or_disjoint_add [OF d] by (simp add: shown_address_def byte_parts(3))
  with get see show ?thesis by simp
qed

theorem half_write_address_too_high_witness:
  "\<exists>e p r. getTracePacket no_packet 8 (lane_bytes 2 (no_trace\<lparr>tr_mem := Some (3, 0x1002, 0xBEEFBEEF)\<rparr>) @ []) = Scanned (e, p) r \<and>
    hasMem p = 2 \<and> memWriteData p = 0xBEEF \<and> memAddr p = 0x1004"
  using half_write_address_too_high [of "no_trace\<lparr>tr_mem := Some (3, 0x1002, 0xBEEFBEEF)\<rparr>" 2 8 "0x1002" "0xBEEFBEEF" no_packet "[]"]
  by (simp add: lane_trace_ok_def no_trace_def)

end
