(* ===== verification/Trace_Cycle.thy ===== *)
theory Trace_Cycle
  imports Trace_Packet
begin

text \<open>
  The cycle decoder of the trace dumper (\<open>rvtrace/traceParse.c\<close>, \<open>getCycleInfo\<close>): the packets of
  a cycle are sorted into the issue slots of the traced context, and the state of the context is
  brought up to date.

  \<open>entry.c\<close> admits 2, 4, 8 or 16 lanes and fewer groups than lanes, so the division by the
  number of lanes per group is defined.
\<close>

section \<open>The decoder\<close>

record cycle_data =
  cy_pc :: u32
  cy_hasBranched :: bool
  cy_hasTrapped :: bool
  cy_trapPoint :: u32
  cy_trapCause :: u8
  cy_trapArg :: u32
  cy_hasNewConfiguration :: bool
  cy_config :: u32
  cy_cacheStatus :: "u8 list"
  usedSlots :: nat
  slot :: "trace_packet list"

definition group_shift :: "nat \<Rightarrow> nat \<Rightarrow> nat \<Rightarrow> nat" where
  "group_shift numLanes numGroups i = (i div (numLanes div numGroups)) * 4"

text \<open>The context that configuration \<open>cfg\<close> assigns to lane \<open>i\<close>.\<close>

definition lane_context :: "nat \<Rightarrow> nat \<Rightarrow> u32 \<Rightarrow> nat \<Rightarrow> nat" where
  "lane_context numLanes numGroups cfg i = unat (drop_bit (group_shift numLanes numGroups i) cfg AND 0xF)"

definition slot_index :: "(nat \<Rightarrow> nat) \<Rightarrow> nat \<Rightarrow> nat \<Rightarrow> nat" where
  "slot_index ctx contextToTrace l = length (filter (\<lambda>i. ctx i = contextToTrace) [0..<l])"

text \<open>
  What is traced after the stop bit goes to the last slot. \<open>None\<close> is an error. The code updates
  \<open>linkWriteData\<close> with the branch mask where \<open>branchWriteData\<close> is meant.
\<close>

definition merge_last :: "trace_packet \<Rightarrow> trace_packet \<Rightarrow> trace_packet option" where
  "merge_last q p =
     (if hasMem p \<noteq> 0 \<and> hasMem q \<noteq> 0 then None
      else let q = (if hasMem p \<noteq> 0 then q\<lparr>hasMem := hasMem p, memAddr := memAddr p, memWriteData := memWriteData p\<rparr> else q)
      in if hasWrittenGP p \<noteq> 0 \<and> hasWrittenGP q \<noteq> 0 then None
      else let q = (if hasWrittenGP p \<noteq> 0 then q\<lparr>hasWrittenGP := hasWrittenGP p, gpWriteData := gpWriteData p\<rparr> else q)
      in if hasWrittenLink p \<and> hasWrittenLink q then None
      else let q = (if hasWrittenLink p then q\<lparr>hasWrittenLink := hasWrittenLink p, linkWriteData := linkWriteData p\<rparr> else q)
      in Some (if hasWrittenBranch p \<noteq> 0
           then q\<lparr>linkWriteData := (linkWriteData q AND NOT (ucast (hasWrittenBranch q))) OR (linkWriteData p AND ucast (hasWrittenBranch p)),
                  hasWrittenBranch := hasWrittenBranch q OR hasWrittenBranch p\<rparr>
           else q))"

definition copy_to_slot :: "nat \<Rightarrow> trace_packet \<Rightarrow> cycle_data \<Rightarrow> cycle_data option" where
  "copy_to_slot s p cd =
     (if usedSlots cd = 0 then Some (cd\<lparr>slot := (slot cd)[s := p]\<rparr>)
      else map_option (\<lambda>q. cd\<lparr>slot := (slot cd)[usedSlots cd - 1 := q]\<rparr>) (merge_last (slot cd ! (usedSlots cd - 1)) p))"

definition update_pc :: "nat \<Rightarrow> trace_packet \<Rightarrow> cycle_data \<Rightarrow> cycle_data option" where
  "update_pc s p cd =
     (if hasPC p = 0 then Some cd
      else if usedSlots cd \<noteq> 0 then None
      else Some (cd\<lparr>usedSlots := s + 1, cy_pc := (pc p AND hasPC p) OR (cy_pc cd AND NOT (hasPC p)), cy_hasBranched := hasBranched p\<rparr>))"

definition update_context :: "nat \<Rightarrow> nat \<Rightarrow> trace_packet \<Rightarrow> cycle_data \<Rightarrow> cycle_data" where
  "update_context shift i p cd =
     (let cd = (if hasTrapped p then cd\<lparr>cy_hasTrapped := True, cy_trapPoint := trapPoint p, cy_trapCause := trapCause p, cy_trapArg := trapArg p\<rparr> else cd);
          cd = (if cacheStatus p \<noteq> 0 then cd\<lparr>cy_cacheStatus := (cy_cacheStatus cd)[i := cacheStatus p]\<rparr> else cd)
      in if hasNewConfiguration p
         then cd\<lparr>cy_hasNewConfiguration := True,
                 cy_config := (cy_config cd AND NOT (push_bit shift 0xF)) OR push_bit shift (ucast (newConfiguration p))\<rparr>
         else cd)"

text \<open>The lane loop: one packet, into the slot that its lane has in the context.\<close>

definition lane_packet :: "nat \<Rightarrow> nat \<Rightarrow> nat \<Rightarrow> u32 \<Rightarrow> trace_packet \<Rightarrow> cycle_data \<Rightarrow> cycle_data option" where
  "lane_packet numLanes numGroups contextToTrace currentCfg p cd =
     (let ctx = lane_context numLanes numGroups currentCfg; i = lane p
      in if ctx i \<noteq> contextToTrace then Some cd
         else let s = slot_index ctx contextToTrace i
              in Option.bind (copy_to_slot s p cd) (\<lambda>cd. map_option (update_context (group_shift numLanes numGroups i) i p) (update_pc s p cd)))"

lemma and_then_Scanned: "and_then x f = Scanned y rest \<longleftrightarrow> (\<exists>z r. x = Scanned z r \<and> f z r = Scanned y rest)"
  by (cases x) auto

lemma SCAN_shorter: "SCAN n data = Scanned d rest \<longleftrightarrow> n \<le> length data \<and> d = take n data \<and> rest = drop n data"
  by (auto simp: SCAN_def)

lemma scan_padding_shorter: "length (scan_padding data) \<le> length data"
  by (simp add: scan_padding_def length_dropWhile_le)

lemma scan_fields_shorter:
  "scan_pc b p data = Scanned q rest \<Longrightarrow> length rest \<le> length data"
  "scan_mem b p data = Scanned q rest \<Longrightarrow> length rest \<le> length data"
  "scan_regs b p data = Scanned q rest \<Longrightarrow> length rest \<le> length data"
  "scan_exflags b p data = Scanned q rest \<Longrightarrow> length rest \<le> length data"
  "scan_trap p data = Scanned q rest \<Longrightarrow> length rest \<le> length data"
  "scan_cfg p data = Scanned q rest \<Longrightarrow> length rest \<le> length data"
  "scan_cache p data = Scanned q rest \<Longrightarrow> length rest \<le> length data"
  "scan_syllable p data = Scanned q rest \<Longrightarrow> length rest \<le> length data"
  by (auto simp: scan_pc_def scan_mem_def scan_mem_data_def scan_regs_def scan_exflags_def scan_trap_def scan_cfg_def scan_cache_def
      scan_syllable_def and_then_Scanned SCAN_shorter Let_def split: if_splits option.splits)

lemma getTracePacket_shorter:
  assumes "getTracePacket junk numLanes data = Scanned x rest"
  shows "length rest < length data"
proof -
  let ?d = "scan_padding data"
  have ne: "?d \<noteq> []" using assms by (auto simp: getTracePacket_def Let_def)
  with assms obtain p1 r1 p2 r2 p3 r3 p4 r4 p5 r5 p6 r6 p7 r7 p8 r8 where
    s: "scan_pc (bit (?d ! 0) 7) p1 (drop 1 ?d) = Scanned p2 r1" "scan_mem (bit (?d ! 0) 6) p2 r1 = Scanned p3 r2"
      "scan_regs (bit (?d ! 0) 5) p3 r2 = Scanned p4 r3" "scan_exflags (bit (?d ! 0) 0) p4 r3 = Scanned p5 r4"
      "scan_trap p5 r4 = Scanned p6 r5" "scan_cfg p6 r5 = Scanned p7 r6" "scan_cache p7 r6 = Scanned p8 r7"
      "\<exists>q. scan_syllable p8 r7 = Scanned q r8" "rest = scan_padding r8"
    by (auto simp: getTracePacket_def Let_def and_then_Scanned SCAN_shorter split: if_splits)
  then have "length r8 \<le> length (drop 1 ?d)" by (fastforce dest!: scan_fields_shorter)
  also have "\<dots> < length ?d" using ne by (cases ?d) auto
  finally show ?thesis using scan_padding_shorter [of r8] scan_padding_shorter [of data] s(9) by simp
qed

text \<open>
  The packets of a cycle; \<open>valid\<close> are the lanes that have had a packet. The result says also
  whether cache information was found.
\<close>

function read_cycle :: "trace_packet \<Rightarrow> nat \<Rightarrow> nat \<Rightarrow> nat \<Rightarrow> u32 \<Rightarrow> u32 \<Rightarrow> cycle_data \<Rightarrow> bool \<Rightarrow> u8 list \<Rightarrow> (cycle_data \<times> bool) scanned" where
  "read_cycle junk numLanes numGroups contextToTrace currentCfg lanesValid cd cached data =
     (case getTracePacket junk numLanes data of
        No_Data r \<Rightarrow> No_Data r
      | Bad_Data r \<Rightarrow> Bad_Data r
      | Scanned (endOfCycle, p) r \<Rightarrow>
          if bit lanesValid (lane p) then Bad_Data r
          else case lane_packet numLanes numGroups contextToTrace currentCfg p cd of
              None \<Rightarrow> Bad_Data r
            | Some cd \<Rightarrow>
                let cached = (cached \<or> lane_context numLanes numGroups currentCfg (lane p) = contextToTrace \<and> cacheStatus p \<noteq> 0)
                in if endOfCycle then Scanned (cd, cached) r
                   else read_cycle junk numLanes numGroups contextToTrace currentCfg (lanesValid OR push_bit (lane p) 1) cd cached r)"
  by auto
termination
  by (relation "measure (\<lambda>(junk, numLanes, numGroups, contextToTrace, currentCfg, lanesValid, cd, cached, data). length data)")
    (auto dest: getTracePacket_shorter)

declare read_cycle.simps [simp del]

lemma read_cycle_shorter: "read_cycle junk numLanes numGroups contextToTrace currentCfg valid cd cached data = Scanned x rest \<Longrightarrow> length rest < length data"
proof (induction junk numLanes numGroups contextToTrace currentCfg valid cd cached data rule: read_cycle.induct)
  case (1 junk numLanes numGroups contextToTrace currentCfg valid cd cached data)
  note run = "1.prems" [unfolded read_cycle.simps [of junk numLanes numGroups contextToTrace currentCfg valid]]
  then obtain e p r where p: "getTracePacket junk numLanes data = Scanned (e, p) r" by (auto split: scanned.splits)
  note r = getTracePacket_shorter [OF p]
  from run p obtain cd' where cd: "\<not> bit valid (lane p)" "lane_packet numLanes numGroups contextToTrace currentCfg p cd = Some cd'"
    by (auto split: if_splits option.splits)
  show ?case
  proof (cases e)
    case True with run p cd r show ?thesis by (simp add: Let_def)
  next
    case False
    with run p cd "1.IH" [OF p refl cd refl False] r show ?thesis by (simp add: Let_def)
  qed
qed

text \<open>Cycles are read until the context has executed something, or has been reconfigured.\<close>

function cycle_loop :: "trace_packet \<Rightarrow> nat \<Rightarrow> nat \<Rightarrow> nat \<Rightarrow> u32 \<Rightarrow> cycle_data \<Rightarrow> bool \<Rightarrow> u8 list \<Rightarrow> cycle_data scanned" where
  "cycle_loop junk numLanes numGroups contextToTrace currentCfg cd cached data =
     (if usedSlots cd \<noteq> 0 then Scanned cd data
      else case read_cycle junk numLanes numGroups contextToTrace currentCfg 0 cd cached data of
          No_Data r \<Rightarrow> No_Data r
        | Bad_Data r \<Rightarrow> Bad_Data r
        | Scanned (cd, cached) r \<Rightarrow>
            if cy_hasNewConfiguration cd \<or> cached then Scanned cd r
            else cycle_loop junk numLanes numGroups contextToTrace currentCfg cd cached r)"
  by auto
termination
  by (relation "measure (\<lambda>(junk, numLanes, numGroups, contextToTrace, currentCfg, cd, cached, data). length data)")
    (auto dest: read_cycle_shorter)

declare cycle_loop.simps [simp del]

definition reset_cycle :: "cycle_data \<Rightarrow> cycle_data" where
  "reset_cycle cd = cd\<lparr>cy_hasBranched := False, cy_hasTrapped := False, cy_hasNewConfiguration := False, usedSlots := 0,
     cy_cacheStatus := replicate 16 0, slot := map reset_flags (slot cd)\<rparr>"

definition getCycleInfo :: "trace_packet \<Rightarrow> nat \<Rightarrow> cycle_data \<Rightarrow> nat \<Rightarrow> nat \<Rightarrow> u8 list \<Rightarrow> cycle_data scanned" where
  "getCycleInfo junk contextToTrace cd numLanes numGroups data =
     cycle_loop junk numLanes numGroups contextToTrace (cy_config cd) (reset_cycle cd) False data"


section \<open>The cycles of the trace unit\<close>

text \<open>
  What a core reports in a cycle: for each lane nothing, or a pending packet. The serializer sends
  the pending packets in the order of the lanes, and a zero byte when the last lane has none.
\<close>

type_synonym core_cycle = "nat \<Rightarrow> lane_trace option"

definition cycle_packets :: "nat \<Rightarrow> core_cycle \<Rightarrow> (nat \<times> lane_trace) list" where
  "cycle_packets n fs = concat (map (\<lambda>i. case fs i of None \<Rightarrow> [] | Some f \<Rightarrow> [(i, f)]) [0..<n])"

definition cycle_bytes :: "nat \<Rightarrow> core_cycle \<Rightarrow> u8 list" where
  "cycle_bytes numLanes fs = concat (map (\<lambda>(i, f). lane_bytes i f) (cycle_packets numLanes fs)) @
     (if fs (numLanes - 1) = None then [0] else [])"

definition core_cycle_ok :: "nat \<Rightarrow> core_cycle \<Rightarrow> bool" where
  "core_cycle_ok n fs \<longleftrightarrow> (\<forall>i < n. \<forall>f. fs i = Some f \<longrightarrow> lane_trace_ok f \<and> pending f) \<and> (\<exists>i < n. fs i \<noteq> None)"

lemma cycle_packets_Suc: "cycle_packets (Suc n) fs = cycle_packets n fs @ (case fs n of None \<Rightarrow> [] | Some f \<Rightarrow> [(n, f)])"
  by (simp add: cycle_packets_def)

lemma set_cycle_packets: "(i, f) \<in> set (cycle_packets n fs) \<longleftrightarrow> i < n \<and> fs i = Some f"
  by (induction n) (auto simp: cycle_packets_Suc less_Suc_eq split: option.splits, simp add: cycle_packets_def)

lemma sorted_cycle_packets: "sorted_wrt (<) (map fst (cycle_packets n fs))"
proof (induction n)
  case (Suc n)
  have "\<forall>x \<in> set (map fst (cycle_packets n fs)). x < n" by (auto simp: set_cycle_packets)
  with Suc show ?case by (auto simp: cycle_packets_Suc sorted_wrt_append split: option.split)
qed (simp add: cycle_packets_def)

lemma last_cycle_packets:
  assumes "0 < n" "\<exists>i < n. fs i \<noteq> None"
  shows "cycle_packets n fs \<noteq> []" "fst (last (cycle_packets n fs)) + 1 = n \<longleftrightarrow> fs (n - 1) \<noteq> None"
proof -
  from assms obtain i f where "(i, f) \<in> set (cycle_packets n fs)" by (auto simp: set_cycle_packets)
  then show ne: "cycle_packets n fs \<noteq> []" by auto
  obtain m where m: "n = Suc m" using assms(1) by (cases n) auto
  show "fst (last (cycle_packets n fs)) + 1 = n \<longleftrightarrow> fs (n - 1) \<noteq> None"
  proof (cases "fs m")
    case None
    then have "last (cycle_packets n fs) \<in> set (cycle_packets m fs)" using ne last_in_set by (fastforce simp: m cycle_packets_Suc)
    moreover have "\<forall>x \<in> set (cycle_packets m fs). fst x < m" by (auto simp: set_cycle_packets)
    ultimately have "fst (last (cycle_packets n fs)) < m" by blast
    with None show ?thesis by (simp add: m)
  qed (simp add: m cycle_packets_Suc)
qed

fun absorb :: "trace_packet \<Rightarrow> nat \<Rightarrow> nat \<Rightarrow> nat \<Rightarrow> u32 \<Rightarrow> (nat \<times> lane_trace) list \<Rightarrow> cycle_data \<times> bool \<Rightarrow> (cycle_data \<times> bool) option" where
  "absorb junk numLanes numGroups c cfg [] x = Some x"
| "absorb junk numLanes numGroups c cfg ((i, f) # ps) (cd, cached) =
     (case lane_packet numLanes numGroups c cfg (shown_lane junk i f) cd of
        None \<Rightarrow> None
      | Some cd \<Rightarrow> absorb junk numLanes numGroups c cfg ps
          (cd, cached \<or> lane_context numLanes numGroups cfg i = c \<and> cacheStatus (shown_lane junk i f) \<noteq> 0))"

lemma absorb_append:
  "absorb junk numLanes numGroups c cfg (ps @ qs) x =
    (case absorb junk numLanes numGroups c cfg ps x of None \<Rightarrow> None | Some y \<Rightarrow> absorb junk numLanes numGroups c cfg qs y)"
  by (induction junk numLanes numGroups c cfg ps x rule: absorb.induct) (auto split: option.split)

lemma lane_of_shown: "lane (shown_lane junk i f) = i"
  by (simp add: shown_lane_fields see_keeps)

lemma lane_bytes_start: "n < 16 \<Longrightarrow> pending f \<Longrightarrow> scan_padding (lane_bytes n f @ r) = lane_bytes n f @ r \<and> hd (lane_bytes n f @ r) \<noteq> 0 \<and> lane_bytes n f \<noteq> []"
  unfolding scan_padding_def lane_bytes_def using flags_byte_bits(6) [of n "tr_pc f \<noteq> None" "tr_mem f \<noteq> None" "tr_reg f \<noteq> None" "has_ex f"]
  by (simp add: pending_def del: not_None_eq) blast

lemma scan_padding_zero [simp]: "scan_padding (0 # r) = scan_padding r"
  by (simp add: scan_padding_def)

text \<open>Reading the bytes of a cycle absorbs its packets, one after the other.\<close>

lemma read_packets:
  assumes "absorb junk numLanes numGroups c cfg ps (cd, cached) = Some x" "ps \<noteq> []" "sorted_wrt (<) (map fst ps)" "numLanes \<le> 16"
    and "\<And>i f. (i, f) \<in> set ps \<Longrightarrow> i < numLanes \<and> lane_trace_ok f \<and> pending f \<and> \<not> bit valid i"
    and "end = (if fst (last ps) + 1 = numLanes then [] else [0])"
  shows "read_cycle junk numLanes numGroups c cfg valid cd cached (concat (map (\<lambda>(i, f). lane_bytes i f) ps) @ end @ rest) =
    Scanned x (scan_padding rest)"
  using assms
proof (induction ps arbitrary: valid cd cached)
  case (Cons y ps)
  obtain i f where y: "y = (i, f)" by (cases y)
  have i: "i < numLanes" "lane_trace_ok f" "pending f" "\<not> bit valid i" using Cons.prems(5) [of i f] y by auto
  let ?p = "shown_lane junk i f" and ?data = "concat (map (\<lambda>(i, f). lane_bytes i f) ps) @ end @ rest"
  obtain cd' where cd: "lane_packet numLanes numGroups c cfg ?p cd = Some cd'"
      "absorb junk numLanes numGroups c cfg ps (cd', cached \<or> lane_context numLanes numGroups cfg i = c \<and> cacheStatus ?p \<noteq> 0) = Some x"
    using Cons.prems(1) by (auto simp: y split: option.splits)
  have get: "getTracePacket junk numLanes (lane_bytes i f @ ?data) = Scanned (i + 1 = numLanes \<or> ?data \<noteq> [] \<and> hd ?data = 0, ?p) (scan_padding ?data)"
    using decode_lane [OF i(2,3,1) Cons.prems(4), of junk 0 ?data] by simp
  show ?case
  proof (cases ps)
    case Nil
    have "(i + 1 = numLanes \<or> ?data \<noteq> [] \<and> hd ?data = 0) \<and> scan_padding ?data = scan_padding rest"
      using Cons.prems(6) by (auto simp: Nil y)
    with get cd show ?thesis
      by (subst read_cycle.simps) (simp add: y Nil lane_of_shown i(4))
  next
    case (Cons z qs)
    obtain j g where z: "z = (j, g)" by (cases z)
    have j: "i < j" "j < numLanes" "pending g" using Cons.prems(3,5) Cons y z by auto
    have deq: "?data = lane_bytes j g @ concat (map (\<lambda>(i, f). lane_bytes i f) qs) @ end @ rest" by (simp add: Cons z)
    have "j < 16" using j Cons.prems(4) by simp
    then have d: "scan_padding ?data = ?data" "hd ?data \<noteq> 0" unfolding deq using lane_bytes_start [OF _ j(3)] by blast+
    have e: "\<not> (i + 1 = numLanes)" using j by simp
    have "read_cycle junk numLanes numGroups c cfg (valid OR push_bit i 1) cd'
        (cached \<or> lane_context numLanes numGroups cfg i = c \<and> cacheStatus ?p \<noteq> 0) ?data = Scanned x (scan_padding rest)"
    proof (rule Cons.IH [OF cd(2)])
      show "k < numLanes \<and> lane_trace_ok h \<and> pending h \<and> \<not> bit (valid OR push_bit i 1) k" if "(k, h) \<in> set ps" for k h
      proof -
        have "i < k" using Cons.prems(3) y that by (force)
        then show ?thesis using Cons.prems(5) [of k h] that by (auto simp: bit_or_iff bit_push_bit_iff bit_1_iff bit_exp_iff)
      qed
    qed (use Cons.prems Cons y in auto)
    with get cd(1) d e show ?thesis
      by (subst read_cycle.simps) (simp add: y lane_of_shown i(4))
  qed
qed simp


lemma read_core_cycle:
  assumes "core_cycle_ok numLanes fs" "numLanes \<le> 16" "absorb junk numLanes numGroups c cfg (cycle_packets numLanes fs) (cd, cached) = Some x"
  shows "read_cycle junk numLanes numGroups c cfg 0 cd cached (cycle_bytes numLanes fs @ rest) = Scanned x (scan_padding rest)"
proof -
  have n: "0 < numLanes" "\<exists>i < numLanes. fs i \<noteq> None" using assms(1) by (auto simp: core_cycle_ok_def)
  note l = last_cycle_packets [OF n]
  have "read_cycle junk numLanes numGroups c cfg 0 cd cached (concat (map (\<lambda>(i, f). lane_bytes i f) (cycle_packets numLanes fs)) @
      (if fs (numLanes - 1) = None then [0] else []) @ rest) = Scanned x (scan_padding rest)"
  proof (rule read_packets [OF assms(3) l(1) sorted_cycle_packets assms(2)])
    show "i < numLanes \<and> lane_trace_ok f \<and> pending f \<and> \<not> bit (0 :: u32) i" if "(i, f) \<in> set (cycle_packets numLanes fs)" for i f
      using that assms(1) by (auto simp: set_cycle_packets core_cycle_ok_def)
    show "(if fs (numLanes - 1) = None then [0 :: u8] else []) = (if fst (last (cycle_packets numLanes fs)) + 1 = numLanes then [] else [0])"
      unfolding l(2) by simp
  qed
  then show ?thesis by (simp add: cycle_bytes_def)
qed

section \<open>The slots of a context\<close>

lemma slot_index_mono: "i < j \<Longrightarrow> ctx i = c \<Longrightarrow> slot_index ctx c i < slot_index ctx c j"
proof -
  assume a: "i < j" "ctx i = c"
  then have "[0..<j] = [0..<i] @ i # [Suc i..<j]" using upt_add_eq_append [of 0 i "j - i"] by (simp add: upt_conv_Cons)
  then show ?thesis using a by (simp add: slot_index_def)
qed

lemma slot_index_inj: "ctx i = c \<Longrightarrow> ctx j = c \<Longrightarrow> slot_index ctx c i = slot_index ctx c j \<longleftrightarrow> i = j"
  using slot_index_mono [of i j ctx c] slot_index_mono [of j i ctx c] by (cases i j rule: linorder_cases) auto

lemma slot_index_le: "slot_index ctx c i \<le> i"
  unfolding slot_index_def using length_filter_le [of _ "[0..<i]"] by simp

text \<open>
  The cycle of a context that executes: its stop bit is in lane \<open>l\<close>, the one lane that reports a
  program counter. Lanes behind it may report too: the core may move the last syllable of a bundle
  to the last lane, where the branch unit is. Their reports belong to the slot of lane \<open>l\<close>; \<open>unite\<close> is
  the slot with one of them added.
\<close>

definition executes :: "core_cycle \<Rightarrow> (nat \<Rightarrow> nat) \<Rightarrow> nat \<Rightarrow> nat \<Rightarrow> u8 \<Rightarrow> u32 \<Rightarrow> bool" where
  "executes fs ctx c l mode a \<longleftrightarrow> ctx l = c \<and> (\<exists>f. fs l = Some f \<and> tr_pc f = Some (mode, a)) \<and>
     (\<forall>i f. ctx i = c \<longrightarrow> i \<noteq> l \<longrightarrow> fs i = Some f \<longrightarrow> tr_pc f = None)"

definition unite :: "trace_packet \<Rightarrow> trace_packet \<Rightarrow> trace_packet" where
  "unite q p =
     q\<lparr>hasMem := (if hasMem p \<noteq> 0 then hasMem p else hasMem q),
       memAddr := (if hasMem p \<noteq> 0 then memAddr p else memAddr q),
       memWriteData := (if hasMem p \<noteq> 0 then memWriteData p else memWriteData q),
       hasWrittenGP := (if hasWrittenGP p \<noteq> 0 then hasWrittenGP p else hasWrittenGP q),
       gpWriteData := (if hasWrittenGP p \<noteq> 0 then gpWriteData p else gpWriteData q),
       hasWrittenLink := (hasWrittenLink q \<or> hasWrittenLink p),
       linkWriteData := (if hasWrittenLink p then linkWriteData p else linkWriteData q),
       hasWrittenBranch := hasWrittenBranch q OR hasWrittenBranch p,
       branchWriteData := (branchWriteData q AND NOT (hasWrittenBranch p)) OR (branchWriteData p AND hasWrittenBranch p)\<rparr>"

text \<open>The packets of the lanes of context \<open>c\<close> behind lane \<open>l\<close> and before lane \<open>n\<close>.\<close>

definition behind :: "trace_packet \<Rightarrow> core_cycle \<Rightarrow> (nat \<Rightarrow> nat) \<Rightarrow> nat \<Rightarrow> nat \<Rightarrow> nat \<Rightarrow> trace_packet list" where
  "behind junk fs ctx c l n = List.map_filter (\<lambda>i. if ctx i = c then map_option (shown_lane junk i) (fs i) else None) [Suc l..<n]"

text \<open>Two lanes that both report a memory access, or both write a general register, or the link register.\<close>

definition clash :: "trace_packet \<Rightarrow> trace_packet \<Rightarrow> bool" where
  "clash p q \<longleftrightarrow> hasMem p \<noteq> 0 \<and> hasMem q \<noteq> 0 \<or> hasWrittenGP p \<noteq> 0 \<and> hasWrittenGP q \<noteq> 0 \<or> hasWrittenLink p \<and> hasWrittenLink q"

text \<open>
  The code puts branch registers written behind the stop bit into the link data. \<open>agrees\<close> leaves the
  two data fields open when there are such writes.
\<close>

definition blank :: "trace_packet \<Rightarrow> trace_packet" where
  "blank q = q\<lparr>linkWriteData := 0, branchWriteData := 0\<rparr>"

definition agrees :: "bool \<Rightarrow> trace_packet \<Rightarrow> trace_packet \<Rightarrow> bool" where
  "agrees late q r \<longleftrightarrow> (if late then blank q = blank r else q = r)"

lemma blank_unite: "blank (unite q p) = blank (unite (blank q) p)"
  by (simp add: blank_def unite_def)

lemma blank_clash: "clash (blank q) p = clash q p"
  by (simp add: blank_def clash_def)

lemma merge_last_exact:
  assumes "\<not> clash q p" "hasWrittenBranch p = 0"
  shows "merge_last q p = Some (unite q p)"
  using assms
  by (cases q; cases "hasMem p = 0"; cases "hasWrittenGP p = 0"; cases "hasWrittenLink p")
    (simp_all add: merge_last_def Let_def unite_def clash_def)

lemma merge_last_blank:
  assumes "\<not> clash q p"
  shows "\<exists>q'. merge_last q p = Some q' \<and> blank q' = blank (unite q p)"
  using assms
  by (cases q; cases "hasMem p = 0"; cases "hasWrittenGP p = 0"; cases "hasWrittenLink p")
    (simp_all add: merge_last_def Let_def unite_def clash_def blank_def)

lemma merge_last_unite:
  assumes "agrees late q r" "\<not> clash r p"
  shows "\<exists>q'. merge_last q p = Some q' \<and> agrees (late \<or> hasWrittenBranch p \<noteq> 0) q' (unite r p)"
proof (cases "late \<or> hasWrittenBranch p \<noteq> 0")
  case True
  have b: "blank q = blank r" using assms(1) by (auto simp: agrees_def split: if_splits)
  then have "\<not> clash q p" using assms(2) blank_clash [of q p] blank_clash [of r p] by simp
  from merge_last_blank [OF this] blank_unite [of q p] blank_unite [of r p] b True show ?thesis by (auto simp: agrees_def)
next
  case False
  then show ?thesis using assms merge_last_exact [of r p] by (simp add: agrees_def)
qed

lemma unite_clash:
  "clash (unite q r) p \<longleftrightarrow> clash q p \<or> clash r p"
  by (auto simp: clash_def unite_def)

lemma foldl_unite_clash:
  "clash (foldl unite q ps) p \<longleftrightarrow> clash q p \<or> (\<exists>r \<in> set ps. clash r p)"
  by (induction ps arbitrary: q) (auto simp: unite_clash)

lemma set_behind: "p \<in> set (behind junk fs ctx c l n) \<longleftrightarrow> (\<exists>i f. l < i \<and> i < n \<and> ctx i = c \<and> fs i = Some f \<and> p = shown_lane junk i f)"
  by (auto simp: behind_def map_filter_def Suc_le_eq split: if_splits) force+

lemma behind_Suc:
  "behind junk fs ctx c l (Suc n) = behind junk fs ctx c l n @
    (if l < n \<and> ctx n = c then (case fs n of None \<Rightarrow> [] | Some f \<Rightarrow> [shown_lane junk n f]) else [])"
  by (auto simp: behind_def map_filter_def split: option.split)

text \<open>No two of the lanes that share the last slot clash.\<close>

definition settled :: "trace_packet \<Rightarrow> core_cycle \<Rightarrow> (nat \<Rightarrow> nat) \<Rightarrow> nat \<Rightarrow> nat \<Rightarrow> nat \<Rightarrow> bool" where
  "settled junk fs ctx c l n \<longleftrightarrow> (\<forall>i j f g. l \<le> i \<longrightarrow> i < j \<longrightarrow> j < n \<longrightarrow> ctx i = c \<longrightarrow> ctx j = c \<longrightarrow>
     fs i = Some f \<longrightarrow> fs j = Some g \<longrightarrow> \<not> clash (shown_lane junk i f) (shown_lane junk j g))"

definition sees :: "trace_packet \<Rightarrow> core_cycle \<Rightarrow> (nat \<Rightarrow> nat) \<Rightarrow> nat \<Rightarrow> nat \<Rightarrow> u8 \<Rightarrow> u32 \<Rightarrow> cycle_data \<Rightarrow> nat \<Rightarrow> cycle_data \<Rightarrow> bool" where
  "sees junk fs ctx c l mode a cd n cd' \<longleftrightarrow>
     length (slot cd') = length (slot cd) \<and>
     usedSlots cd' = (if l < n then slot_index ctx c l + 1 else 0) \<and>
     cy_pc cd' = (if l < n then ((a AND 0xFFFFFFFC) AND pc_mask mode) OR (cy_pc cd AND NOT (pc_mask mode)) else cy_pc cd) \<and>
     cy_hasBranched cd' = (l < n \<and> mode = 3) \<and>
     (\<forall>i < 16. ctx i = c \<longrightarrow> i \<noteq> l \<longrightarrow> slot cd' ! slot_index ctx c i =
        (case fs i of Some f \<Rightarrow> if i < n \<and> i < l then shown_lane junk i f else slot cd ! slot_index ctx c i | None \<Rightarrow> slot cd ! slot_index ctx c i)) \<and>
     (l < n \<longrightarrow> agrees (\<exists>p \<in> set (behind junk fs ctx c l n). hasWrittenBranch p \<noteq> 0) (slot cd' ! slot_index ctx c l)
        (foldl unite (shown_lane junk l (the (fs l))) (behind junk fs ctx c l n)))"

lemma shown_lane_pc:
  "hasPC (shown_lane junk i f) = (case tr_pc f of None \<Rightarrow> 0 | Some (mode, a) \<Rightarrow> pc_mask mode)"
  "tr_pc f = Some (mode, a) \<Longrightarrow> pc (shown_lane junk i f) = (a AND 0xFFFFFFFC) AND pc_mask mode \<and> hasBranched (shown_lane junk i f) = (mode = 3)"
  by (auto simp: shown_lane_fields see_ex_def see_reg_def shown_mem_def see_mem_def see_pc_def Let_def reset_flags_def split: option.split)

lemma pc_mask_nonzero: "pc_mask mode \<noteq> 0"
  by (simp add: pc_mask_def)

lemma update_context_keeps:
  "slot (update_context s i p cd) = slot cd" "usedSlots (update_context s i p cd) = usedSlots cd" "cy_pc (update_context s i p cd) = cy_pc cd"
  "cy_hasBranched (update_context s i p cd) = cy_hasBranched cd"
  by (simp_all add: update_context_def Let_def)

lemma behind_start [simp]: "n \<le> Suc l \<Longrightarrow> behind junk fs ctx c l n = []"
  by (simp add: behind_def map_filter_def)

text \<open>A packet of a lane in front of the stop bit, of the stop bit, and of a lane behind it.\<close>

lemma absorb_front:
  assumes "sees junk fs ctx c l mode a cd n cd'" "executes fs ctx c l mode a" "fs n = Some f" "n \<le> l" "l < 16" "length (slot cd) = 16"
    and "ctx = lane_context numLanes numGroups cfg" "ctx n = c"
  shows "\<exists>cd''. lane_packet numLanes numGroups c cfg (shown_lane junk n f) cd' = Some cd'' \<and> sees junk fs ctx c l mode a cd (Suc n) cd''"
proof -
  have n: "n \<noteq> l \<longrightarrow> tr_pc f = None" "n = l \<longrightarrow> tr_pc f = Some (mode, a)"
    using assms(2,3,8) unfolding executes_def by (metis option.inject)+
  have seen: "length (slot cd') = 16" "usedSlots cd' = 0"
    using assms(1,6) assms(4) by (simp_all add: sees_def)
  note u = seen(2)
  let ?p = "shown_lane junk n f" and ?s = "slot_index ctx c n"
  define b where "b = cd'\<lparr>slot := (slot cd')[?s := ?p]\<rparr>"
  have s: "?s < 16" using slot_index_le [of ctx c n] assms(4,5) by simp
  have b: "slot b ! slot_index ctx c i = (if i = n then ?p else slot cd' ! slot_index ctx c i)" if "ctx i = c" for i
    using slot_index_inj [of ctx i c n] that assms(8) s seen(1) by (auto simp: b_def nth_list_update)
  show ?thesis
  proof (cases "n = l")
    case l: True
    let ?q = "b\<lparr>usedSlots := ?s + 1, cy_pc := (pc ?p AND hasPC ?p) OR (cy_pc b AND NOT (hasPC ?p)), cy_hasBranched := hasBranched ?p\<rparr>"
    have p: "hasPC ?p = pc_mask mode" "pc ?p = (a AND 0xFFFFFFFC) AND pc_mask mode" "hasBranched ?p = (mode = 3)"
      using n(2) l shown_lane_pc by auto
    have "lane_packet numLanes numGroups c cfg ?p cd' = Some (update_context (group_shift numLanes numGroups n) n ?p ?q)"
      using assms(8) u p(1) pc_mask_nonzero [of mode]
      by (simp add: lane_packet_def lane_of_shown assms(7) [symmetric] Let_def copy_to_slot_def update_pc_def b_def)
    moreover have "sees junk fs ctx c l mode a cd (Suc n) (update_context (group_shift numLanes numGroups n) n ?p ?q)"
      unfolding sees_def update_context_keeps using assms(1,3,8) l p b
      by (auto simp: sees_def b_def less_Suc_eq agrees_def split: option.split)
    ultimately show ?thesis by blast
  next
    case l: False
    then have p: "hasPC ?p = 0" using n(1) shown_lane_pc(1) [of junk n f] by simp
    have "lane_packet numLanes numGroups c cfg ?p cd' = Some (update_context (group_shift numLanes numGroups n) n ?p b)"
      using assms(8) u p by (simp add: lane_packet_def lane_of_shown assms(7) [symmetric] Let_def copy_to_slot_def update_pc_def b_def)
    moreover have "sees junk fs ctx c l mode a cd (Suc n) (update_context (group_shift numLanes numGroups n) n ?p b)"
      unfolding sees_def update_context_keeps using assms(1,3,4) l b
      by (auto simp: sees_def b_def less_Suc_eq split: option.split)
    ultimately show ?thesis by blast
  qed
qed

lemma absorb_behind:
  assumes "sees junk fs ctx c l mode a cd n cd'" "executes fs ctx c l mode a" "settled junk fs ctx c l (Suc n)"
    and "fs n = Some f" "l < n" "n < 16" "length (slot cd) = 16" "ctx = lane_context numLanes numGroups cfg" "ctx n = c"
  shows "\<exists>cd''. lane_packet numLanes numGroups c cfg (shown_lane junk n f) cd' = Some cd'' \<and> sees junk fs ctx c l mode a cd (Suc n) cd''"
proof -
  let ?p = "shown_lane junk n f" and ?s = "slot_index ctx c l" and ?ps = "behind junk fs ctx c l n"
  let ?r = "foldl unite (shown_lane junk l (the (fs l))) ?ps"
  obtain g where l: "ctx l = c" "fs l = Some g" using assms(2) by (auto simp: executes_def)
  have p: "hasPC ?p = 0" using assms(2,4,5,9) shown_lane_pc(1) [of junk n f] by (auto simp: executes_def)
  have seen: "length (slot cd') = 16" "usedSlots cd' = ?s + 1" using assms(1,5,7) by (simp_all add: sees_def)
  have s: "?s < 16" using slot_index_le [of ctx c l] assms(5,6) by simp
  have "\<not> clash (shown_lane junk l g) ?p" using assms(3-5,9) l by (auto simp: settled_def)
  moreover have "\<not> clash r ?p" if "r \<in> set ?ps" for r
    using that assms(3,4,9) unfolding set_behind settled_def by (metis less_SucI less_imp_le lessI)
  ultimately have "\<not> clash ?r ?p" by (simp add: foldl_unite_clash l(2))
  moreover have "agrees (\<exists>p \<in> set ?ps. hasWrittenBranch p \<noteq> 0) (slot cd' ! ?s) ?r" using assms(1,5) by (simp add: sees_def)
  ultimately obtain q where q: "merge_last (slot cd' ! ?s) ?p = Some q"
      "agrees ((\<exists>p \<in> set ?ps. hasWrittenBranch p \<noteq> 0) \<or> hasWrittenBranch ?p \<noteq> 0) q (unite ?r ?p)"
    using merge_last_unite by blast
  define b where "b = cd'\<lparr>slot := (slot cd')[?s := q]\<rparr>"
  have b: "slot b ! slot_index ctx c i = (if i = l then q else slot cd' ! slot_index ctx c i)" if "ctx i = c" for i
    using slot_index_inj [of ctx i c l] that l(1) s seen(1) by (auto simp: b_def nth_list_update)
  have "lane_packet numLanes numGroups c cfg ?p cd' = Some (update_context (group_shift numLanes numGroups n) n ?p b)"
    using assms(9) seen(2) p q(1)
    by (simp add: lane_packet_def lane_of_shown assms(8) [symmetric] Let_def copy_to_slot_def update_pc_def b_def)
  moreover have "agrees (\<exists>p \<in> set (behind junk fs ctx c l (Suc n)). hasWrittenBranch p \<noteq> 0) q
      (foldl unite (shown_lane junk l (the (fs l))) (behind junk fs ctx c l (Suc n)))"
    using q(2) assms(4,5,9) by (simp add: behind_Suc disj_commute)
  then have "sees junk fs ctx c l mode a cd (Suc n) (update_context (group_shift numLanes numGroups n) n ?p b)"
    unfolding sees_def update_context_keeps using assms(1,5) b b [OF l(1)]
    by (auto simp: sees_def b_def split: option.split)
  ultimately show ?thesis by blast
qed

lemma sees_skip:
  assumes "sees junk fs ctx c l mode a cd n cd'" "l \<noteq> n" "fs n = None \<or> ctx n \<noteq> c"
  shows "sees junk fs ctx c l mode a cd (Suc n) cd'"
proof -
  have "behind junk fs ctx c l (Suc n) = behind junk fs ctx c l n" using assms(3) by (auto simp: behind_Suc)
  moreover have "l < Suc n \<longleftrightarrow> l < n" using assms(2) by auto
  moreover have "i < Suc n \<and> i < l \<longleftrightarrow> i < n \<and> i < l" if "fs i = Some f" "ctx i = c" for i f
    using that assms(3) by (auto simp: less_Suc_eq)
  ultimately show ?thesis
    using assms(1) unfolding sees_def by (auto split: option.splits)
qed

lemma absorb_step:
  assumes "sees junk fs ctx c l mode a cd n cd'" "executes fs ctx c l mode a" "settled junk fs ctx c l (Suc n)"
    and "fs n = Some f" "n < 16" "l < 16" "length (slot cd) = 16" "ctx = lane_context numLanes numGroups cfg"
  shows "\<exists>cd''. lane_packet numLanes numGroups c cfg (shown_lane junk n f) cd' = Some cd'' \<and> sees junk fs ctx c l mode a cd (Suc n) cd''"
proof (cases "ctx n = c")
  case False
  have "l \<noteq> n" using False assms(2) by (auto simp: executes_def)
  then have "sees junk fs ctx c l mode a cd (Suc n) cd'"
    by (rule sees_skip [OF assms(1)]) (simp add: False)
  then show ?thesis using False assms(8) by (simp add: lane_packet_def lane_of_shown)
next
  case True
  show ?thesis
    using absorb_front [OF assms(1,2,4) _ assms(6,7,8) True] absorb_behind [OF assms(1-4) _ assms(5,7,8) True] by (meson not_le)
qed

lemma absorb_cycle:
  assumes "executes fs ctx c l mode a" "length (slot cd) = 16" "usedSlots cd = 0" "\<not> cy_hasBranched cd" "n \<le> 16" "l < 16"
    and "ctx = lane_context numLanes numGroups cfg" "settled junk fs ctx c l n"
  shows "\<exists>cd' k'. absorb junk numLanes numGroups c cfg (cycle_packets n fs) (cd, k) = Some (cd', k') \<and> sees junk fs ctx c l mode a cd n cd'"
  using assms(5,8)
proof (induction n)
  case 0
  have "sees junk fs ctx c l mode a cd 0 cd" using assms(2-4) by (auto simp: sees_def split: option.split)
  then show ?case by (simp add: cycle_packets_def)
next
  case (Suc n)
  have "settled junk fs ctx c l n" using Suc.prems(2) by (auto simp: settled_def)
  with Suc obtain cd' k' where IH: "absorb junk numLanes numGroups c cfg (cycle_packets n fs) (cd, k) = Some (cd', k')" "sees junk fs ctx c l mode a cd n cd'"
    by auto
  show ?case
  proof (cases "fs n")
    case None
    then have "l \<noteq> n" using assms(1) by (auto simp: executes_def)
    then have "sees junk fs ctx c l mode a cd (Suc n) cd'"
      by (rule sees_skip [OF IH(2)]) (simp add: None)
    with IH(1) None show ?thesis by (simp add: cycle_packets_Suc)
  next
    case (Some f)
    from absorb_step [OF IH(2) assms(1) Suc.prems(2) Some _ assms(6,2,7)] Suc.prems(1) obtain cd'' where
      "lane_packet numLanes numGroups c cfg (shown_lane junk n f) cd' = Some cd''" "sees junk fs ctx c l mode a cd (Suc n) cd''" by auto
    with IH(1) Some show ?thesis by (simp add: cycle_packets_Suc absorb_append)
  qed
qed

text \<open>Cycles in which the context reports nothing are passed over.\<close>

lemma absorb_other:
  assumes "\<And>i f. (i, f) \<in> set ps \<Longrightarrow> lane_context numLanes numGroups cfg i \<noteq> c"
  shows "absorb junk numLanes numGroups c cfg ps (cd, k) = Some (cd, k)"
  using assms
proof (induction ps arbitrary: k)
  case (Cons y ps)
  obtain i f where y: "y = (i, f)" by (cases y)
  have "lane_context numLanes numGroups cfg i \<noteq> c" using Cons.prems y by auto
  moreover have "absorb junk numLanes numGroups c cfg ps (cd, k) = Some (cd, k)" using Cons by auto
  ultimately show ?case by (simp add: y lane_packet_def lane_of_shown)
qed simp

definition silent :: "nat \<Rightarrow> (nat \<Rightarrow> nat) \<Rightarrow> nat \<Rightarrow> core_cycle \<Rightarrow> bool" where
  "silent n ctx c fs \<longleftrightarrow> core_cycle_ok n fs \<and> (\<forall>i < n. ctx i = c \<longrightarrow> fs i = None)"

lemma scan_padding_lanes:
  assumes "core_cycle_ok n fs" "n \<le> 16"
  shows "scan_padding (cycle_bytes n fs @ rest) = cycle_bytes n fs @ rest"
proof -
  obtain i f ps where ps: "cycle_packets n fs = (i, f) # ps"
    using last_cycle_packets(1) [of n fs] assms(1) by (cases "cycle_packets n fs") (auto simp: core_cycle_ok_def)
  then have "i < n" "fs i = Some f" using set_cycle_packets [of i f n fs] by auto
  then have "i < 16" "pending f" using assms by (auto simp: core_cycle_ok_def)
  then show ?thesis using lane_bytes_start [of i f] by (simp add: cycle_bytes_def ps)
qed

lemma read_cycle_padding: "read_cycle junk numLanes numGroups c cfg v cd k (scan_padding data) = read_cycle junk numLanes numGroups c cfg v cd k data"
proof -
  have "scan_padding (scan_padding data) = scan_padding data" by (induction data) (auto simp: scan_padding_def)
  then have "getTracePacket junk numLanes (scan_padding data) = getTracePacket junk numLanes data" by (simp add: getTracePacket_def)
  then show ?thesis by (simp add: read_cycle.simps [of _ _ _ _ _ _ _ _ data] read_cycle.simps [of _ _ _ _ _ _ _ _ "scan_padding data"])
qed

lemma silent_cycles:
  assumes "\<forall>fs \<in> set idle. silent numLanes (lane_context numLanes numGroups cfg) c fs" "numLanes \<le> 16"
    and "usedSlots cd = 0" "\<not> cy_hasNewConfiguration cd"
  shows "cycle_loop junk numLanes numGroups c cfg cd False (concat (map (cycle_bytes numLanes) idle) @ rest) =
    cycle_loop junk numLanes numGroups c cfg cd False (if idle = [] then rest else scan_padding rest)"
  using assms(1)
proof (induction idle)
  case (Cons fs idle)
  let ?rest = "concat (map (cycle_bytes numLanes) idle) @ rest"
  have fs: "core_cycle_ok numLanes fs" using Cons.prems by (simp add: silent_def)
  have "absorb junk numLanes numGroups c cfg (cycle_packets numLanes fs) (cd, False) = Some (cd, False)"
    using Cons.prems by (intro absorb_other) (auto simp: set_cycle_packets silent_def)
  from read_core_cycle [OF fs assms(2) this] have
    "read_cycle junk numLanes numGroups c cfg 0 cd False (cycle_bytes numLanes fs @ ?rest) = Scanned (cd, False) (scan_padding ?rest)" .
  then have step: "cycle_loop junk numLanes numGroups c cfg cd False (cycle_bytes numLanes fs @ ?rest) =
      cycle_loop junk numLanes numGroups c cfg cd False (scan_padding ?rest)"
    using assms(3,4) by (subst cycle_loop.simps) simp
  show ?case
  proof (cases idle)
    case Nil
    then show ?thesis using step by simp
  next
    case c: (Cons gs qs)
    then have "core_cycle_ok numLanes gs" using Cons.prems by (simp add: silent_def)
    then have "scan_padding ?rest = ?rest" using scan_padding_lanes [OF _ assms(2)] by (simp add: c)
    then show ?thesis using step Cons.IH Cons.prems c by simp
  qed
qed simp

text \<open>
  C13. The dumper reads what the trace unit wrote: after any number of cycles of other contexts, the
  cycle in which the traced context executes gives the number of issue slots up to the stop bit,
  the new program counter, put together from the bytes that changed, for each slot in front of the
  stop bit the packet of its lane, and for the last slot the packet of its lane together with what
  the lanes behind the stop bit report. The lanes that share the last slot must not report two
  memory accesses, two general registers or two writes of the link register, which is an error;
  and when a lane behind the stop bit writes branch registers, the link and branch data of the last
  slot are left open, since the code mixes them up (\<open>merge_last\<close>).
\<close>

theorem getCycleInfo_decodes_cycle:
  assumes "numLanes \<le> 16" "length (slot cd) = 16" "l < numLanes" "ctx = lane_context numLanes numGroups (cy_config cd)"
    and "\<forall>fs \<in> set idle. silent numLanes ctx c fs" "core_cycle_ok numLanes fs" "executes fs ctx c l mode a"
    and "settled junk fs ctx c l numLanes"
  shows "\<exists>cd'. getCycleInfo junk c cd numLanes numGroups (concat (map (cycle_bytes numLanes) idle) @ cycle_bytes numLanes fs @ rest) =
      Scanned cd' (scan_padding rest) \<and>
    usedSlots cd' = slot_index ctx c l + 1 \<and> cy_hasBranched cd' = (mode = 3) \<and>
    cy_pc cd' = ((a AND 0xFFFFFFFC) AND pc_mask mode) OR (cy_pc cd AND NOT (pc_mask mode)) \<and>
    (\<forall>i < l. ctx i = c \<longrightarrow> slot cd' ! slot_index ctx c i =
      (case fs i of None \<Rightarrow> reset_flags (slot cd ! slot_index ctx c i) | Some f \<Rightarrow> shown_lane junk i f)) \<and>
    agrees (\<exists>p \<in> set (behind junk fs ctx c l numLanes). hasWrittenBranch p \<noteq> 0) (slot cd' ! slot_index ctx c l)
      (foldl unite (shown_lane junk l (the (fs l))) (behind junk fs ctx c l numLanes))"
proof -
  let ?cd = "reset_cycle cd" and ?data = "cycle_bytes numLanes fs @ rest"
  have r: "length (slot ?cd) = 16" "usedSlots ?cd = 0" "\<not> cy_hasBranched ?cd" "\<not> cy_hasNewConfiguration ?cd" "cy_pc ?cd = cy_pc cd"
    using assms(2) by (simp_all add: reset_cycle_def)
  have "cycle_loop junk numLanes numGroups c (cy_config cd) ?cd False (concat (map (cycle_bytes numLanes) idle) @ ?data) =
      cycle_loop junk numLanes numGroups c (cy_config cd) ?cd False ?data"
    using silent_cycles [OF assms(5) [unfolded assms(4)] assms(1) r(2,4), of junk ?data] scan_padding_lanes [OF assms(6,1), of rest] by simp
  moreover obtain cd' k' where ab: "absorb junk numLanes numGroups c (cy_config cd) (cycle_packets numLanes fs) (?cd, False) = Some (cd', k')"
      "sees junk fs ctx c l mode a ?cd numLanes cd'"
    using absorb_cycle [OF assms(7) r(1-3) assms(1) _ assms(4,8), of False] assms(1,3) by auto
  have u: "usedSlots cd' = slot_index ctx c l + 1" using ab(2) assms(3) by (simp add: sees_def)
  have "cycle_loop junk numLanes numGroups c (cy_config cd) ?cd False ?data = Scanned cd' (scan_padding rest)"
    using r(2) u read_core_cycle [OF assms(6,1) ab(1), of rest] by (simp add: cycle_loop.simps)
  ultimately have "getCycleInfo junk c cd numLanes numGroups (concat (map (cycle_bytes numLanes) idle) @ ?data) = Scanned cd' (scan_padding rest)"
    by (simp add: getCycleInfo_def)
  moreover have "slot ?cd ! slot_index ctx c i = reset_flags (slot cd ! slot_index ctx c i)" if "i \<le> l" for i
    using slot_index_le [of ctx c i] that assms(1-3) by (simp add: reset_cycle_def)
  ultimately show ?thesis
    using ab(2) u assms(1,3) r(5) by (intro exI [of _ cd']) (auto simp: sees_def split: option.split)
qed

section \<open>The decoder on arbitrary data\<close>

definition lane_pc_ok :: "nat \<Rightarrow> trace_packet \<Rightarrow> bool" where
  "lane_pc_ok numLanes p \<longleftrightarrow> lane p < numLanes \<and> (hasPC p \<noteq> 0 \<longrightarrow> pc p AND 3 = 0)"

lemma aligned_or: "(x OR y) AND 3 = 0 \<longleftrightarrow> x AND 3 = 0 \<and> y AND 3 = 0" for x y :: u32
  by (auto simp: bit_eq_iff bit_simps)

lemma aligned_parts: "ucast (b AND 0xFC :: u8) AND (3 :: u32) = 0" "push_bit 8 w AND (3 :: u32) = 0"
proof -
  have m: "(3 :: u32) = mask 2" "(0xFC :: u8) = NOT (mask 2)" by (simp_all add: mask_eq_exp_minus_1)
  show "ucast (b AND 0xFC :: u8) AND (3 :: u32) = 0" "push_bit 8 w AND (3 :: u32) = 0"
    unfolding m by (auto intro!: bit_word_eqI simp: bit_simps)
qed

lemma aligned_and: "x AND 3 = 0 \<Longrightarrow> (x AND y) AND 3 = 0" for x y :: u32
  by (metis and.commute and.left_commute and_zero_eq)

lemma scan_pc_ok: "scan_pc b p data = Scanned q rest \<Longrightarrow> hasPC p = 0 \<Longrightarrow> lane q = lane p \<and> (hasPC q \<noteq> 0 \<longrightarrow> pc q AND 3 = 0)"
  by (auto simp: scan_pc_def and_then_Scanned Let_def aligned_or aligned_parts split: if_splits)

definition same_start :: "trace_packet \<Rightarrow> trace_packet \<Rightarrow> bool" where
  "same_start p q \<longleftrightarrow> lane q = lane p \<and> hasPC q = hasPC p \<and> pc q = pc p"

lemma scan_mem_same: "scan_mem b p data = Scanned q rest \<Longrightarrow> same_start p q"
  by (auto simp: same_start_def scan_mem_def scan_mem_data_def SCAN_def Let_def split: if_splits option.splits)

lemma scan_regs_same: "scan_regs b p data = Scanned q rest \<Longrightarrow> same_start p q"
  by (auto simp: same_start_def scan_regs_def SCAN_def Let_def split: if_splits)

lemma scan_ex_same:
  "scan_exflags b p data = Scanned q rest \<Longrightarrow> same_start p q"
  "scan_trap p data = Scanned q rest \<Longrightarrow> same_start p q"
  "scan_cfg p data = Scanned q rest \<Longrightarrow> same_start p q"
  "scan_cache p data = Scanned q rest \<Longrightarrow> same_start p q"
  "scan_syllable p data = Scanned q rest \<Longrightarrow> same_start p q"
  by (auto simp: same_start_def scan_exflags_def scan_trap_def scan_cfg_def scan_cache_def scan_syllable_def SCAN_def Let_def split: if_splits)

lemma same_start_ok: "same_start p q \<Longrightarrow> lane_pc_ok n q = lane_pc_ok n p"
  by (simp add: same_start_def lane_pc_ok_def)

lemmas scan_fields_keep = scan_mem_same [THEN same_start_ok] scan_regs_same [THEN same_start_ok] scan_ex_same [THEN same_start_ok]

lemma and_thenE:
  assumes "and_then x f = Scanned y rest"
  obtains z r where "x = Scanned z r" "f z r = Scanned y rest"
  using assms by (cases x) auto

lemma getTracePacket_ok:
  assumes "getTracePacket junk numLanes data = Scanned (e, p) rest"
  shows "lane_pc_ok numLanes p"
proof -
  let ?d = "scan_padding data"
  let ?p = "(reset_flags junk)\<lparr>lane := unat (drop_bit 1 (?d ! 0) AND 15)\<rparr>"
  have first: "lane_pc_ok numLanes q" if "scan_pc b ?p data = Scanned q rest" "lane ?p < numLanes" for b q data rest
    using scan_pc_ok [OF that(1)] that(2) by (simp add: lane_pc_ok_def reset_flags_def)
  show ?thesis using assms
    by (auto simp: getTracePacket_def Let_def SCAN_shorter not_le simp del: One_nat_def split: if_splits elim!: and_thenE
        dest!: scan_fields_keep [where n = numLanes] first)
qed

text \<open>What the decoder keeps of \<open>cycle_data_t\<close>, with the number of slots and the program counter it started with.\<close>

definition cycle_ok :: "nat \<Rightarrow> nat \<Rightarrow> u32 \<Rightarrow> cycle_data \<Rightarrow> bool" where
  "cycle_ok m numLanes a cd \<longleftrightarrow> length (slot cd) = m \<and> length (cy_cacheStatus cd) = 16 \<and> usedSlots cd \<le> numLanes \<and>
     cy_pc cd AND 3 = 0 \<and> (usedSlots cd = 0 \<longrightarrow> cy_pc cd = a \<and> \<not> cy_hasBranched cd)"

lemma lane_packet_ok:
  assumes "lane_packet numLanes numGroups c cfg p cd = Some cd'" "lane_pc_ok numLanes p" "cycle_ok m numLanes a cd"
  shows "cycle_ok m numLanes a cd'"
proof -
  have s: "slot_index ctx c (lane p) < numLanes" for ctx using slot_index_le [of ctx c "lane p"] assms(2) by (simp add: lane_pc_ok_def)
  have u: "cycle_ok m numLanes a (update_context g i p cd) = cycle_ok m numLanes a cd" for g i cd
    by (simp add: cycle_ok_def update_context_def Let_def)
  have k: "cycle_ok m numLanes a cd2" if "copy_to_slot t p cd1 = Some cd2" "cycle_ok m numLanes a cd1" for t cd1 cd2
    using that by (auto simp: copy_to_slot_def cycle_ok_def split: if_splits)
  have w: "cycle_ok m numLanes a cd2" if "update_pc t p cd1 = Some cd2" "cycle_ok m numLanes a cd1" "t < numLanes" for t cd1 cd2
    using that assms(2) by (auto simp: update_pc_def cycle_ok_def lane_pc_ok_def aligned_or aligned_and split: if_splits)
  show ?thesis
  proof (cases "lane_context numLanes numGroups cfg (lane p) = c")
    case True
    with assms(1) obtain cd1 cd2 where
      "copy_to_slot (slot_index (lane_context numLanes numGroups cfg) c (lane p)) p cd = Some cd1"
      "update_pc (slot_index (lane_context numLanes numGroups cfg) c (lane p)) p cd1 = Some cd2"
      "cd' = update_context (group_shift numLanes numGroups (lane p)) (lane p) p cd2"
      by (auto simp: lane_packet_def Let_def bind_eq_Some_conv)
    with k w s assms(3) u show ?thesis by metis
  qed (use assms(1,3) in \<open>simp add: lane_packet_def\<close>)
qed

lemma read_cycle_ok:
  "read_cycle junk numLanes numGroups c cfg valid cd cached data = Scanned (cd', cached') rest \<Longrightarrow> cycle_ok m numLanes a cd \<Longrightarrow> cycle_ok m numLanes a cd'"
proof (induction junk numLanes numGroups c cfg valid cd cached data rule: read_cycle.induct)
  case (1 junk numLanes numGroups c cfg valid cd cached data)
  note run = "1.prems"(1) [unfolded read_cycle.simps [of junk numLanes numGroups c cfg valid]]
  then obtain e p r where p: "getTracePacket junk numLanes data = Scanned (e, p) r" by (auto split: scanned.splits)
  from run p obtain cd1 where cd: "\<not> bit valid (lane p)" "lane_packet numLanes numGroups c cfg p cd = Some cd1"
    by (auto split: if_splits option.splits)
  have ok: "cycle_ok m numLanes a cd1" by (rule lane_packet_ok [OF cd(2) getTracePacket_ok [OF p] "1.prems"(2)])
  show ?case
  proof (cases e)
    case True with run p cd ok show ?thesis by (simp add: Let_def)
  next
    case False
    with run p cd "1.IH" [OF p refl cd refl False _ ok] show ?thesis by (simp add: Let_def)
  qed
qed

lemma cycle_loop_ok:
  "cycle_loop junk numLanes numGroups c cfg cd cached data = Scanned cd' rest \<Longrightarrow> cycle_ok m numLanes a cd \<Longrightarrow> cycle_ok m numLanes a cd'"
proof (induction junk numLanes numGroups c cfg cd cached data rule: cycle_loop.induct)
  case (1 junk numLanes numGroups c cfg cd cached data)
  note run = "1.prems"(1) [unfolded cycle_loop.simps [of junk numLanes numGroups c cfg cd]]
  show ?case
  proof (cases "usedSlots cd = 0")
    case True
    with run obtain cd1 k r where r: "read_cycle junk numLanes numGroups c cfg 0 cd cached data = Scanned (cd1, k) r"
      by (auto split: scanned.splits)
    have ok: "cycle_ok m numLanes a cd1" by (rule read_cycle_ok [OF r "1.prems"(2)])
    show ?thesis
    proof (cases "cy_hasNewConfiguration cd1 \<or> k")
      case False
      with run r True "1.IH" [OF _ r refl False _ ok] show ?thesis by simp
    qed (use run r True ok in auto)
  qed (use run "1.prems"(2) in simp)
qed

text \<open>
  C40. On every trace file, however damaged, the cycle data stays well formed: 16 slots and 16 cache
  states, no more slots used than there are lanes, and a program counter that is a multiple of
  four; when no slot is used there is no branch and the program counter is the one of the last
  cycle.
\<close>

theorem getCycleInfo_well_formed:
  assumes "getCycleInfo junk c cd numLanes numGroups data = Scanned cd' rest" "length (slot cd) = 16" "cy_pc cd AND 3 = 0"
  shows "length (slot cd') = 16 \<and> length (cy_cacheStatus cd') = 16 \<and> usedSlots cd' \<le> numLanes \<and> cy_pc cd' AND 3 = 0 \<and>
    (usedSlots cd' = 0 \<longrightarrow> cy_pc cd' = cy_pc cd \<and> \<not> cy_hasBranched cd')"
proof -
  have "cycle_ok 16 numLanes (cy_pc cd) (reset_cycle cd)" using assms(2,3) by (simp add: cycle_ok_def reset_cycle_def)
  with assms(1) have "cycle_ok 16 numLanes (cy_pc cd) cd'" unfolding getCycleInfo_def by (rule cycle_loop_ok)
  then show ?thesis by (simp add: cycle_ok_def)
qed

definition no_cycle :: cycle_data where
  "no_cycle = \<lparr>cy_pc = 0, cy_hasBranched = False, cy_hasTrapped = False, cy_trapPoint = 0, cy_trapCause = 0, cy_trapArg = 0,
     cy_hasNewConfiguration = False, cy_config = 0, cy_cacheStatus = replicate 16 0, usedSlots = 0, slot = replicate 16 no_packet\<rparr>"

text \<open>Four lanes, the stop bit in lane 1, and a memory write reported by lane 3.\<close>

definition late_write :: lane_trace where
  "late_write = no_trace\<lparr>tr_mem := Some (0xF, 0x2000, 0xCAFE)\<rparr>"

definition late_lanes :: core_cycle where
  "late_lanes i = (if i = 1 then Some (no_trace\<lparr>tr_pc := Some (1, 0x1208)\<rparr>) else if i = 3 then Some late_write else None)"

lemma late_lanes_context: "lane_context 4 1 (cy_config no_cycle) i = 0"
  by (simp add: lane_context_def no_cycle_def)

theorem getCycleInfo_decodes_cycle_witness:
  "\<exists>cd'. getCycleInfo no_packet 0 no_cycle 4 1 (cycle_bytes 4 late_lanes @ cycle_bytes 4 late_lanes) = Scanned cd' (cycle_bytes 4 late_lanes) \<and>
    usedSlots cd' = 2 \<and> cy_pc cd' = 0x1208 \<and> memAddr (slot cd' ! 1) = 0x2000 \<and> memWriteData (slot cd' ! 1) = 0xCAFE"
proof -
  let ?ctx = "lane_context 4 1 (cy_config no_cycle)"
  have ok: "core_cycle_ok 4 late_lanes"
    by (auto simp: core_cycle_ok_def late_lanes_def late_write_def lane_trace_ok_def pending_def no_trace_def split: if_splits)
  have ex: "executes late_lanes ?ctx 0 1 1 0x1208"
    unfolding executes_def late_lanes_context by (auto simp: late_lanes_def late_write_def no_trace_def)
  have one: "slot_index ?ctx 0 1 = 1" unfolding slot_index_def late_lanes_context by simp
  have pad: "scan_padding (cycle_bytes 4 late_lanes) = cycle_bytes 4 late_lanes" by code_simp
  have pc: "((0x1208 AND 0xFFFFFFFC) AND pc_mask 1) OR (cy_pc no_cycle AND NOT (pc_mask 1)) = (0x1208 :: u32)"
    by (simp add: pc_mask_def no_cycle_def)
  have len: "length (slot no_cycle) = 16" by (simp add: no_cycle_def)
  have bounds: "(4 :: nat) \<le> 16" "(1 :: nat) < 4" "\<forall>fs \<in> set []. silent 4 ?ctx 0 fs" by simp_all
  have fields: "shown_lane no_packet 1 (no_trace\<lparr>tr_pc := Some (1, 0x1208)\<rparr>) = no_packet\<lparr>lane := 1, hasPC := 0xFFFF, pc := 0x1208\<rparr>"
      "shown_lane no_packet 3 late_write = no_packet\<lparr>lane := 3, hasMem := 4, memAddr := 0x2000, memWriteData := 0xCAFE\<rparr>"
    by (simp_all add: shown_lane_fields shown_mem_def shown_address_def see_ex_def see_reg_def see_mem_def see_pc_def no_packet_def
        late_write_def no_trace_def reset_flags_def pc_mask_def mem_size_def mem_value_def)
  have apart: "settled no_packet late_lanes ?ctx 0 1 4"
    using fields unfolding settled_def by (auto simp: late_lanes_def clash_def no_packet_def split: if_splits)
  have "[Suc 1..<4] = [2, 3]" by (simp add: upt_rec)
  then have late: "behind no_packet late_lanes ?ctx 0 1 4 = [shown_lane no_packet 3 late_write]"
    unfolding behind_def late_lanes_context by (simp add: late_lanes_def map_filter_def)
  from getCycleInfo_decodes_cycle [OF bounds(1) len bounds(2) refl bounds(3) ok ex apart, of "cycle_bytes 4 late_lanes", unfolded one pad pc late]
  obtain cd' where r: "getCycleInfo no_packet 0 no_cycle 4 1 (concat (map (cycle_bytes 4) []) @ cycle_bytes 4 late_lanes @ cycle_bytes 4 late_lanes) =
      Scanned cd' (cycle_bytes 4 late_lanes)" "usedSlots cd' = 1 + 1" "cy_pc cd' = 0x1208"
      "agrees (\<exists>p \<in> set [shown_lane no_packet 3 late_write]. hasWrittenBranch p \<noteq> 0) (slot cd' ! 1)
        (foldl unite (shown_lane no_packet 1 (the (late_lanes 1))) [shown_lane no_packet 3 late_write])" by blast
  have "memAddr (slot cd' ! 1) = 0x2000" "memWriteData (slot cd' ! 1) = 0xCAFE"
    using r(4) fields by (simp_all add: agrees_def unite_def late_lanes_def no_packet_def)
  moreover have "concat (map (cycle_bytes 4) []) @ bs = bs" for bs by simp
  ultimately show ?thesis using r(1-3) by (intro exI [of _ cd']) simp
qed

theorem getCycleInfo_well_formed_witness:
  "case getCycleInfo no_packet 0 no_cycle 2 1 [0x82, 0x09, 0x12] of Scanned cd' rest \<Rightarrow> length (slot cd') = 16 \<and> cy_pc cd' AND 3 = 0 \<and> rest = []
   | _ \<Rightarrow> False"
proof -
  have "(case getCycleInfo no_packet 0 no_cycle 2 1 [0x82, 0x09, 0x12] of Scanned _ rest \<Rightarrow> rest = [] | _ \<Rightarrow> False)" by code_simp
  then obtain cd' where r: "getCycleInfo no_packet 0 no_cycle 2 1 [0x82, 0x09, 0x12] = Scanned cd' []" by (auto split: scanned.splits)
  show ?thesis using getCycleInfo_well_formed [OF r] r by (simp add: no_cycle_def)
qed

end
