(* ===== verification/Disassembly.thy ===== *)
theory Disassembly
  imports Prelude
begin

text \<open>
  The disassembly store of the trace dumper (\<open>rvtrace/disasParse.c\<close>): a tree of three levels of
  1024 pointers, indexed by the upper 30 bits of the program counter, filled from the output of
  \<open>objdump -d\<close>. Allocation succeeds.
\<close>

section \<open>The tree\<close>

record leaf =
  disas :: "string option"
  symbols :: "string option"

datatype node = Tree "nat \<Rightarrow> node option" | Leaf leaf

definition calloc_leaf :: leaf where
  "calloc_leaf = \<lparr>disas = None, symbols = None\<rparr>"

definition calloc_tree :: node where
  "calloc_tree = Tree (\<lambda>_. None)"

definition tree_index :: "u32 \<Rightarrow> nat" where
  "tree_index pc = unat (drop_bit 22 pc AND 0x3FF)"

text \<open>
  \<open>getNode\<close> without and with \<open>create\<close>, from the level on with \<open>n\<close> levels to go. The second stores
  what the caller writes through the pointer, the function \<open>f\<close>.
\<close>

fun find_node :: "nat \<Rightarrow> u32 \<Rightarrow> node \<Rightarrow> leaf option" where
  "find_node 0 pc (Leaf l) = Some l"
| "find_node (Suc n) pc (Tree c) = (case c (tree_index pc) of None \<Rightarrow> None | Some t \<Rightarrow> find_node n (push_bit 10 pc) t)"
| "find_node _ pc _ = None"

fun create_node :: "nat \<Rightarrow> u32 \<Rightarrow> (leaf \<Rightarrow> leaf) \<Rightarrow> node \<Rightarrow> node" where
  "create_node 0 pc f (Leaf l) = Leaf (f l)"
| "create_node (Suc n) pc f (Tree c) =
     Tree (c(tree_index pc := Some (create_node n (push_bit 10 pc) f
       (case c (tree_index pc) of None \<Rightarrow> if n = 0 then Leaf calloc_leaf else calloc_tree | Some t \<Rightarrow> t))))"
| "create_node _ pc f t = t"

definition getNode :: "u32 \<Rightarrow> node \<Rightarrow> leaf option" where
  "getNode pc root = find_node 3 pc root"

definition updateNode :: "u32 \<Rightarrow> (leaf \<Rightarrow> leaf) \<Rightarrow> node \<Rightarrow> node" where
  "updateNode pc f root = create_node 3 pc f root"

definition disasGet :: "u32 \<Rightarrow> node \<Rightarrow> string \<times> string option" where
  "disasGet pc root =
     (case getNode pc root of None \<Rightarrow> (''unknown'', None)
      | Some l \<Rightarrow> (case disas l of None \<Rightarrow> ''unknown'' | Some d \<Rightarrow> d, symbols l))"

text \<open>\<open>disasFree\<close> frees every subtree and clears its pointer in the root.\<close>

fun disasFree :: "node \<Rightarrow> node" where
  "disasFree (Tree c) = Tree (\<lambda>i. if i < 1024 then None else c i)"
| "disasFree (Leaf l) = Leaf l"

section \<open>The parser\<close>

fun strlenge :: "string \<Rightarrow> nat \<Rightarrow> bool" where
  "strlenge str 0 = True"
| "strlenge [] (Suc n) = False"
| "strlenge (c # str) (Suc n) = strlenge str n"

text \<open>The first eight characters: blanks, then hexadecimal digits.\<close>

fun address_field :: "string \<Rightarrow> bool \<Rightarrow> bool" where
  "address_field [] firstDigitScanned = True"
| "address_field (c # cs) firstDigitScanned =
     (if c = CHR '' '' \<and> \<not> firstDigitScanned then address_field cs firstDigitScanned
      else isxdigit c \<and> address_field cs True)"

text \<open>\<open>sscanf(line, "%x", &pc)\<close>; \<open>None\<close> when there is no digit and \<open>pc\<close> stays undefined.\<close>

definition sscanf_pc :: "string \<Rightarrow> u32 option" where
  "sscanf_pc line = map_option fst (scan_hex line)"

definition set_disas :: "string \<Rightarrow> leaf \<Rightarrow> leaf" where
  "set_disas str l = l\<lparr>disas := Some str\<rparr>"

definition add_symbol :: "string \<Rightarrow> leaf \<Rightarrow> leaf" where
  "add_symbol str l = l\<lparr>symbols := Some (case symbols l of None \<Rightarrow> str | Some s \<Rightarrow> s @ '', '' @ str)\<rparr>"

text \<open>
  \<open>None\<close> is undefined behaviour: on a line that starts with eight blanks there may be no address, and
  the disassembly of a line of nine characters is taken from behind its end.
\<close>

definition parseLine :: "string \<Rightarrow> u32 \<Rightarrow> node \<Rightarrow> node option" where
  "parseLine line offset root =
     (if \<not> strlenge line 9 then Some root
      else if \<not> address_field (take 8 line) False then Some root
      else if line ! 8 = CHR '':'' then
        (case sscanf_pc line of None \<Rightarrow> None
         | Some pc \<Rightarrow> if length line = 9 then None else Some (updateNode (pc + offset) (set_disas (drop 10 line)) root))
      else if line ! 8 = CHR '' '' \<and> last line = CHR '':'' then
        (case sscanf_pc line of None \<Rightarrow> None
         | Some pc \<Rightarrow> Some (updateNode (pc + offset) (add_symbol (take (length line - 10) (drop 9 line))) root))
      else Some root)"

definition newline :: "char \<Rightarrow> bool" where
  "newline c \<longleftrightarrow> c = CHR 0x0A \<or> c = CHR 0x0D"

text \<open>The lines that \<open>strtok\<close> gives, and the loop over them.\<close>

function split_lines :: "string \<Rightarrow> string list" where
  "split_lines buf =
     (let b = dropWhile newline buf
      in if b = [] then [] else takeWhile (\<lambda>c. \<not> newline c) b # split_lines (dropWhile (\<lambda>c. \<not> newline c) b))"
  by auto
termination
proof (relation "measure length", goal_cases)
  case (2 buf b)
  then have "\<not> newline (hd b)" "b \<noteq> []" by (auto simp: hd_dropWhile)
  then have "length (dropWhile (\<lambda>c. \<not> newline c) b) < length b" by (cases b) (auto simp: less_Suc_eq_le length_dropWhile_le)
  also have "\<dots> \<le> length buf" using 2 by (simp add: length_dropWhile_le)
  finally show ?case by simp
qed simp

declare split_lines.simps [simp del]

fun load_lines :: "string list \<Rightarrow> u32 \<Rightarrow> node \<Rightarrow> node option" where
  "load_lines [] offset root = Some root"
| "load_lines (l # ls) offset root = Option.bind (parseLine l offset root) (load_lines ls offset)"

definition disasLoad :: "string \<Rightarrow> u32 \<Rightarrow> node \<Rightarrow> node option" where
  "disasLoad buf offset root = load_lines (split_lines buf) offset root"

section \<open>The tree is a map from words\<close>

definition word_index :: "u32 \<Rightarrow> nat" where
  "word_index pc = unat pc div 4"

text \<open>Depth and width of the tree.\<close>

fun tree_ok :: "nat \<Rightarrow> node \<Rightarrow> bool" where
  "tree_ok 0 t \<longleftrightarrow> (\<exists>l. t = Leaf l)"
| "tree_ok (Suc n) t \<longleftrightarrow> (\<exists>c. t = Tree c \<and> (\<forall>i. \<forall>s. c i = Some s \<longrightarrow> i < 1024 \<and> tree_ok n s))"

text \<open>The contract: a map that forgets the two low bits of the key.\<close>

locale pc_store =
  fixes empty :: 's and get :: "u32 \<Rightarrow> 's \<Rightarrow> leaf option" and upd :: "u32 \<Rightarrow> (leaf \<Rightarrow> leaf) \<Rightarrow> 's \<Rightarrow> 's" and ok :: "'s \<Rightarrow> bool"
  assumes empty_ok: "ok empty"
    and get_empty: "get pc empty = None"
    and upd_ok: "ok s \<Longrightarrow> ok (upd pc f s)"
    and get_upd: "ok s \<Longrightarrow> get q (upd pc f s) =
      (if word_index q = word_index pc then Some (f (case get pc s of None \<Rightarrow> calloc_leaf | Some l \<Rightarrow> l)) else get q s)"
    and get_word: "ok s \<Longrightarrow> word_index q = word_index pc \<Longrightarrow> get q s = get pc s"
begin

definition run_updates :: "(u32 \<times> (leaf \<Rightarrow> leaf)) list \<Rightarrow> 's \<Rightarrow> 's" where
  "run_updates us s = fold (\<lambda>(pc, f). upd pc f) us s"

lemma run_updates_ok: "ok s \<Longrightarrow> ok (run_updates us s)"
  by (induction us arbitrary: s) (auto simp: run_updates_def upd_ok)

text \<open>A leaf holds what the updates of its word make of it, in order.\<close>

lemma get_run:
  assumes "ok s"
  shows "get q (run_updates us s) =
    (case filter (\<lambda>(pc, f). word_index pc = word_index q) us of
       [] \<Rightarrow> get q s
     | vs \<Rightarrow> Some (fold (\<lambda>(pc, f). f) vs (case get q s of None \<Rightarrow> calloc_leaf | Some l \<Rightarrow> l)))"
  using assms
proof (induction us arbitrary: s)
  case (Cons u us)
  obtain pc f where u: "u = (pc, f)" by (cases u)
  have "get q (run_updates us (upd pc f s)) =
    (case filter (\<lambda>(pc, f). word_index pc = word_index q) us of
       [] \<Rightarrow> get q (upd pc f s)
     | vs \<Rightarrow> Some (fold (\<lambda>(pc, f). f) vs (case get q (upd pc f s) of None \<Rightarrow> calloc_leaf | Some l \<Rightarrow> l)))"
    using Cons.IH [OF upd_ok [OF Cons.prems]] by simp
  moreover have "run_updates (u # us) s = run_updates us (upd pc f s)" by (simp add: run_updates_def u)
  ultimately show ?case
    using get_upd [OF Cons.prems, of q pc f] get_word [OF Cons.prems, of q pc] by (auto simp: u split: list.splits)
qed (simp add: run_updates_def)

end


fun same_path :: "nat \<Rightarrow> u32 \<Rightarrow> u32 \<Rightarrow> bool" where
  "same_path 0 p q \<longleftrightarrow> True"
| "same_path (Suc n) p q \<longleftrightarrow> tree_index p = tree_index q \<and> same_path n (push_bit 10 p) (push_bit 10 q)"

lemma tree_index_value: "tree_index pc = unat pc div 4194304" "tree_index pc < 1024"
proof -
  have d: "unat (drop_bit 22 pc) = unat pc div 4194304" unfolding unat_drop_bit_eq by (simp add: drop_bit_eq_div)
  have "unat (drop_bit 22 pc AND mask 10) = unat (drop_bit 22 pc) mod 1024"
    unfolding take_bit_eq_mask [symmetric] unsigned_take_bit_eq by (simp add: take_bit_eq_mod)
  then have "unat (drop_bit 22 pc AND mask 10) = unat pc div 4194304 mod 1024" unfolding d .
  moreover have "unat pc div 4194304 < 1024" using unsigned_less [of pc, where 'a = nat] by (simp add: div_less_iff_less_mult)
  ultimately show "tree_index pc = unat pc div 4194304" "tree_index pc < 1024" by (simp_all add: tree_index_def mask_eq_exp_minus_1)
qed

lemma create_ok: "tree_ok n t \<Longrightarrow> tree_ok n (create_node n pc f t)"
proof (induction n arbitrary: pc t)
  case (Suc n)
  then obtain c where t: "t = Tree c" "\<forall>i s. c i = Some s \<longrightarrow> i < 1024 \<and> tree_ok n s" by auto
  let ?t = "case c (tree_index pc) of None \<Rightarrow> if n = 0 then Leaf calloc_leaf else calloc_tree | Some t \<Rightarrow> t"
  have "tree_ok n ?t"
    using t(2) by (cases n) (auto simp: calloc_tree_def split: option.split)
  define u where "u = create_node n (push_bit 10 pc) f ?t"
  have "tree_ok n u" unfolding u_def by (rule Suc.IH) fact
  moreover have "create_node (Suc n) pc f t = Tree (c(tree_index pc := Some u))" by (simp only: t(1) create_node.simps u_def)
  ultimately show ?case using t(2) tree_index_value(2) by auto
qed auto

lemma find_create:
  assumes "tree_ok n t"
  shows "find_node n q (create_node n p f t) =
    (if same_path n q p then Some (f (case find_node n p t of None \<Rightarrow> calloc_leaf | Some l \<Rightarrow> l)) else find_node n q t)"
  using assms
proof (induction n arbitrary: p q t)
  case (Suc n)
  then obtain c where t: "t = Tree c" "\<forall>i s. c i = Some s \<longrightarrow> i < 1024 \<and> tree_ok n s" by auto
  let ?t = "case c (tree_index p) of None \<Rightarrow> if n = 0 then Leaf calloc_leaf else calloc_tree | Some t \<Rightarrow> t"
  have "tree_ok n ?t"
    using t(2) by (cases n) (auto simp: calloc_tree_def split: option.split)
  note IH = Suc.IH [OF this, of "push_bit 10 q" "push_bit 10 p"]
  have fresh: "(case find_node n (push_bit 10 r) ?t of None \<Rightarrow> calloc_leaf | Some l \<Rightarrow> l) =
      (case find_node (Suc n) r t of None \<Rightarrow> calloc_leaf | Some l \<Rightarrow> l)" "n \<noteq> 0 \<or> c (tree_index p) \<noteq> None \<Longrightarrow> find_node n (push_bit 10 r) ?t = find_node (Suc n) r t"
    if "tree_index r = tree_index p" for r
    using that by (cases n; auto simp: t(1) calloc_tree_def split: option.split)+
  show ?case
  proof (cases "tree_index q = tree_index p")
    case True
    show ?thesis
    proof (cases "same_path n (push_bit 10 q) (push_bit 10 p)")
      case same: True
      then show ?thesis using True IH fresh(1) [of p] by (simp add: t(1))
    next
      case False
      then have "n \<noteq> 0" by (cases n) auto
      then show ?thesis using True False IH fresh(2) [of q] by (simp add: t(1))
    qed
  qed (simp add: t(1))
qed auto

lemma find_same: "tree_ok n t \<Longrightarrow> same_path n q p \<Longrightarrow> find_node n q t = find_node n p t"
proof (induction n arbitrary: p q t)
  case (Suc n)
  then obtain c where t: "t = Tree c" "\<forall>i s. c i = Some s \<longrightarrow> i < 1024 \<and> tree_ok n s" by auto
  show ?case using Suc.prems(2) Suc.IH t by (cases "c (tree_index p)") auto
qed auto

text \<open>The three indices are the digits, to the base 1024, of the word index.\<close>

lemma same_path_word: "same_path 3 q p \<longleftrightarrow> word_index q = word_index p"
proof -
  have i: "tree_index (push_bit 10 p) = unat p div 4096 mod 1024" "tree_index (push_bit 10 (push_bit 10 p)) = unat p div 4 mod 1024" for p :: u32
  proof -
    have u: "unat (push_bit k p) = unat p * 2 ^ k mod 4294967296" for k
      unfolding unsigned_push_bit_eq by (simp add: take_bit_eq_mod push_bit_eq_mult)
    have d: "x mod (a * b) div a = x div a mod b" if "0 < a" for x a b :: nat
      using that by (simp add: mod_mult2_eq)
    have "unat p * 2 ^ 10 mod 4294967296 div 4194304 = unat p mod (4096 * 1024) div 4096"
      using mod_mult_mult2 [of "unat p" "2 ^ 10" 4194304] div_mult_mult2 [of "2 ^ 10" "unat p mod 4194304" 4096] by simp
    then show "tree_index (push_bit 10 p) = unat p div 4096 mod 1024"
      unfolding tree_index_value(1) u using d [of 4096 "unat p" 1024] by simp
    have "unat p * 2 ^ 20 mod 4294967296 div 4194304 = unat p mod (4 * 1024) div 4"
      using mod_mult_mult2 [of "unat p" "2 ^ 20" 4096] div_mult_mult2 [of "2 ^ 20" "unat p mod 4096" 4] by simp
    then show "tree_index (push_bit 10 (push_bit 10 p)) = unat p div 4 mod 1024"
      unfolding tree_index_value(1) push_bit_push_bit u using d [of 4 "unat p" 1024] by simp
  qed
  have split: "unat p div 4 = 1048576 * (unat p div 4194304) + 1024 * (unat p div 4096 mod 1024) + unat p div 4 mod 1024" for p :: u32
  proof -
    have "unat p div 4 = 1048576 * (unat p div 4 div 1048576) + unat p div 4 mod (1024 * 1024)" by simp
    then show ?thesis unfolding mod_mult2_eq by (simp add: div_mult2_eq [symmetric])
  qed
  have "same_path 3 q p \<longleftrightarrow> tree_index q = tree_index p \<and> tree_index (push_bit 10 q) = tree_index (push_bit 10 p) \<and>
      tree_index (push_bit 10 (push_bit 10 q)) = tree_index (push_bit 10 (push_bit 10 p))"
    by (simp add: numeral_3_eq_3)
  also have "\<dots> \<longleftrightarrow> unat q div 4 = unat p div 4"
  proof
    assume "tree_index q = tree_index p \<and> tree_index (push_bit 10 q) = tree_index (push_bit 10 p) \<and>
      tree_index (push_bit 10 (push_bit 10 q)) = tree_index (push_bit 10 (push_bit 10 p))"
    then show "unat q div 4 = unat p div 4" using split [of q] split [of p] unfolding i(2) unfolding i(1) unfolding tree_index_value(1) by simp
  next
    assume e: "unat q div 4 = unat p div 4"
    have "unat r div 4194304 = unat r div 4 div 1048576" "unat r div 4096 = unat r div 4 div 1024" for r :: u32
      by (simp_all add: div_mult2_eq [symmetric])
    with e show "tree_index q = tree_index p \<and> tree_index (push_bit 10 q) = tree_index (push_bit 10 p) \<and>
      tree_index (push_bit 10 (push_bit 10 q)) = tree_index (push_bit 10 (push_bit 10 p))"
      unfolding i(2) unfolding i(1) unfolding tree_index_value(1) by simp
  qed
  finally show ?thesis by (simp add: word_index_def)
qed

interpretation tree: pc_store calloc_tree getNode updateNode "tree_ok 3"
proof unfold_locales
  show "tree_ok 3 calloc_tree" by (simp add: calloc_tree_def numeral_3_eq_3)
  show "getNode pc calloc_tree = None" for pc by (simp add: getNode_def calloc_tree_def numeral_3_eq_3)
  show "tree_ok 3 (updateNode pc f s)" if "tree_ok 3 s" for pc f s using create_ok [OF that] by (simp add: updateNode_def)
  show "getNode q (updateNode pc f s) =
      (if word_index q = word_index pc then Some (f (case getNode pc s of None \<Rightarrow> calloc_leaf | Some l \<Rightarrow> l)) else getNode q s)"
    if "tree_ok 3 s" for q pc f s
    using find_create [OF that, of q pc f] by (simp add: getNode_def updateNode_def same_path_word)
  show "getNode q s = getNode pc s" if "tree_ok 3 s" "word_index q = word_index pc" for s q pc
    using find_same [OF that(1), of q pc] that(2) by (simp add: getNode_def same_path_word)
qed


section \<open>Loading a listing\<close>

text \<open>
  The lines of \<open>objdump -d\<close>: an instruction with its address, a symbol with its address, and other
  lines, which do not begin with eight digits. An address is right-aligned.
\<close>

datatype listing = Insn string u32 string | Symbol string u32 string | Other string

definition address_text :: "string \<Rightarrow> u32 \<Rightarrow> bool" where
  "address_text t v \<longleftrightarrow> length t = 8 \<and> (\<exists>k ds. t = replicate k CHR '' '' @ ds \<and> ds \<noteq> [] \<and> (\<forall>c \<in> set ds. isxdigit c) \<and> v = of_nat (digits_value 16 0 ds))"

fun line_text :: "listing \<Rightarrow> string" where
  "line_text (Insn t v d) = t @ CHR '':'' # CHR 0x09 # d"
| "line_text (Symbol t v s) = t @ CHR '' '' # s @ '':''"
| "line_text (Other l) = l"

fun listing_ok :: "listing \<Rightarrow> bool" where
  "listing_ok (Insn t v d) \<longleftrightarrow> address_text t v \<and> (\<forall>c \<in> set d. \<not> newline c)"
| "listing_ok (Symbol t v s) \<longleftrightarrow> address_text t v \<and> (\<forall>c \<in> set s. \<not> newline c)"
| "listing_ok (Other l) \<longleftrightarrow> (length l < 9 \<or> \<not> address_field (take 8 l) False) \<and> (\<forall>c \<in> set l. \<not> newline c)"

fun updates_of :: "u32 \<Rightarrow> listing \<Rightarrow> (u32 \<times> (leaf \<Rightarrow> leaf)) list" where
  "updates_of offset (Insn t v d) = [(v + offset, set_disas d)]"
| "updates_of offset (Symbol t v s) = [(v + offset, add_symbol s)]"
| "updates_of offset (Other l) = []"

definition listing_text :: "listing list \<Rightarrow> string" where
  "listing_text es = concat (map (\<lambda>e. line_text e @ [CHR 0x0A]) es)"

fun comma_list :: "string list \<Rightarrow> string option" where
  "comma_list [] = None"
| "comma_list (s # ss) = Some (s @ concat (map (\<lambda>x. '', '' @ x) ss))"

text \<open>The instructions and the symbols that a listing has in the word of \<open>pc\<close>.\<close>

definition listed_insns :: "u32 \<Rightarrow> listing list \<Rightarrow> u32 \<Rightarrow> string list" where
  "listed_insns offset es pc = concat (map (\<lambda>e. case e of Insn t v d \<Rightarrow> if word_index (v + offset) = word_index pc then [d] else [] | _ \<Rightarrow> []) es)"

definition listed_symbols :: "u32 \<Rightarrow> listing list \<Rightarrow> u32 \<Rightarrow> string list" where
  "listed_symbols offset es pc = concat (map (\<lambda>e. case e of Symbol t v s \<Rightarrow> if word_index (v + offset) = word_index pc then [s] else [] | _ \<Rightarrow> []) es)"

lemma strlenge_length: "strlenge s n \<longleftrightarrow> n \<le> length s"
  by (induction s n rule: strlenge.induct) auto

lemma xdigit_not_blank: "isxdigit c \<Longrightarrow> c \<noteq> CHR '' ''" "isxdigit c \<Longrightarrow> \<not> newline c"
  by (auto simp: ctype_defs newline_def)

lemma address_field_digits: "\<forall>c \<in> set ds. isxdigit c \<Longrightarrow> address_field ds b"
  by (induction ds arbitrary: b) (auto dest: xdigit_not_blank)

lemma address_field_text: "address_text t v \<Longrightarrow> address_field t False"
proof -
  have "address_field (replicate k CHR '' '' @ ds) False = address_field ds False" for k ds by (induction k) auto
  then show "address_text t v \<Longrightarrow> address_field t False" by (auto simp: address_text_def address_field_digits)
qed

lemma scan_address_text:
  assumes "address_text t v" "\<not> isxdigit (peek rest)" "peek rest \<notin> {CHR ''x'', CHR ''X''}"
  shows "sscanf_pc (t @ rest) = Some v"
proof -
  from assms(1) obtain k ds where t: "t = replicate k CHR '' '' @ ds" "ds \<noteq> []" "\<forall>c \<in> set ds. isxdigit c" "v = of_nat (digits_value 16 0 ds)"
    by (auto simp: address_text_def)
  show ?thesis using scan_hex_digits [OF t(2,3) assms(2,3), of k] by (simp add: t(1,4) sscanf_pc_def)
qed

lemma address_text_no_newline: "address_text t v \<Longrightarrow> c \<in> set t \<Longrightarrow> \<not> newline c"
proof -
  assume "address_text t v" "c \<in> set t"
  then have "c = CHR '' '' \<or> isxdigit c" unfolding address_text_def by (auto split: if_splits)
  then show ?thesis using xdigit_not_blank(2) [of c] by (auto simp: newline_def)
qed

lemma parse_listing_line:
  assumes "listing_ok e"
  shows "parseLine (line_text e) offset root = Some (tree.run_updates (updates_of offset e) root)"
proof (cases e)
  case (Insn t v d)
  then have a: "address_text t v" "length t = 8" using assms by (auto simp: address_text_def)
  have "sscanf_pc (t @ CHR '':'' # CHR 0x09 # d) = Some v" by (rule scan_address_text [OF a(1)]) (simp_all add: ctype_defs)
  then show ?thesis using a address_field_text [OF a(1)]
    by (simp add: Insn parseLine_def strlenge_length nth_append tree.run_updates_def)
next
  case (Symbol t v s)
  then have a: "address_text t v" "length t = 8" using assms by (auto simp: address_text_def)
  have "sscanf_pc (t @ CHR '' '' # s @ '':'') = Some v" by (rule scan_address_text [OF a(1)]) (simp_all add: ctype_defs)
  then show ?thesis using a address_field_text [OF a(1)]
    by (simp add: Symbol parseLine_def strlenge_length nth_append tree.run_updates_def)
next
  case (Other l)
  then show ?thesis using assms by (auto simp: parseLine_def strlenge_length tree.run_updates_def)
qed

lemma line_no_newline: "listing_ok e \<Longrightarrow> \<forall>c \<in> set (line_text e). \<not> newline c"
proof -
  have n: "\<not> newline CHR '' ''" "\<not> newline CHR '':''" "\<not> newline CHR 0x09" by (simp_all add: newline_def)
  show "listing_ok e \<Longrightarrow> \<forall>c \<in> set (line_text e). \<not> newline c"
    using address_text_no_newline n by (cases e) auto
qed

lemma split_lines_step:
  assumes "\<forall>c \<in> set l. \<not> newline c" "newline n"
  shows "split_lines (l @ n # rest) = (if l = [] then [] else [l]) @ split_lines rest"
proof (cases l)
  case Nil
  then show ?thesis using assms by (simp add: split_lines.simps [of "n # rest"] split_lines.simps [of rest])
next
  case (Cons c cs)
  then have "dropWhile newline (l @ n # rest) = l @ n # rest" using assms by simp
  moreover have "takeWhile (\<lambda>c. \<not> newline c) (l @ n # rest) = l" "dropWhile (\<lambda>c. \<not> newline c) (l @ n # rest) = n # rest"
    using assms by (simp_all add: takeWhile_append dropWhile_append)
  moreover have "split_lines (n # rest) = split_lines rest" using assms by (simp add: split_lines.simps [of "n # rest"] split_lines.simps [of rest])
  ultimately show ?thesis using Cons by (subst split_lines.simps) (simp add: Let_def)
qed

lemma run_updates_append: "tree.run_updates (us @ vs) root = tree.run_updates vs (tree.run_updates us root)"
  by (simp add: tree.run_updates_def)

lemma disasLoad_updates:
  "\<forall>e \<in> set es. listing_ok e \<Longrightarrow> disasLoad (listing_text es) offset root = Some (tree.run_updates (concat (map (updates_of offset) es)) root)"
proof (induction es arbitrary: root)
  case Nil
  then show ?case by (simp add: disasLoad_def listing_text_def split_lines.simps tree.run_updates_def)
next
  case (Cons e es)
  then have e: "listing_ok e" by simp
  have s: "split_lines (listing_text (e # es)) = (if line_text e = [] then [] else [line_text e]) @ split_lines (listing_text es)"
    using split_lines_step [OF line_no_newline [OF e], of "CHR 0x0A" "listing_text es"] by (simp add: listing_text_def newline_def)
  have empty: "updates_of offset e = []" if "line_text e = []" using that by (cases e) auto
  have IH: "load_lines (split_lines (listing_text es)) offset r = Some (tree.run_updates (concat (map (updates_of offset) es)) r)" for r
    using Cons by (simp add: disasLoad_def)
  show ?case
    by (cases "line_text e = []")
      (use parse_listing_line [OF e, of offset root] empty in \<open>auto simp: disasLoad_def s IH run_updates_append\<close>)
qed

lemma listed_simps:
  "listed_insns offset [] q = []" "listed_symbols offset [] q = []"
  "listed_insns offset (Insn t v d # es) q = (if word_index (v + offset) = word_index q then [d] else []) @ listed_insns offset es q"
  "listed_insns offset (Symbol t v s # es) q = listed_insns offset es q" "listed_insns offset (Other l # es) q = listed_insns offset es q"
  "listed_symbols offset (Symbol t v s # es) q = (if word_index (v + offset) = word_index q then [s] else []) @ listed_symbols offset es q"
  "listed_symbols offset (Insn t v d # es) q = listed_symbols offset es q" "listed_symbols offset (Other l # es) q = listed_symbols offset es q"
  by (simp_all add: listed_insns_def listed_symbols_def)

lemma fold_updates:
  "disas (fold (\<lambda>(pc, f). f) (filter (\<lambda>(pc, f). word_index pc = word_index q) (concat (map (updates_of offset) es))) l) =
    (case listed_insns offset es q of [] \<Rightarrow> disas l | ds \<Rightarrow> Some (last ds))"
  "symbols (fold (\<lambda>(pc, f). f) (filter (\<lambda>(pc, f). word_index pc = word_index q) (concat (map (updates_of offset) es))) l) =
    (case listed_symbols offset es q of [] \<Rightarrow> symbols l
     | s # ss \<Rightarrow> (case symbols l of None \<Rightarrow> comma_list (s # ss) | Some x \<Rightarrow> comma_list (x # s # ss)))"
proof (induction es arbitrary: l)
  case (Cons e es)
  {
    case 1
    show ?case using Cons(1) by (cases e) (auto simp: listed_simps set_disas_def add_symbol_def split: list.split)
  next
    case 2
    show ?case using Cons(2) by (cases e) (auto simp: listed_simps set_disas_def add_symbol_def split: list.split option.split)
  }
qed (simp_all add: listed_simps)

lemma listed_none:
  "filter (\<lambda>(pc, f). word_index pc = word_index q) (concat (map (updates_of offset) es)) = [] \<longleftrightarrow>
    listed_insns offset es q = [] \<and> listed_symbols offset es q = []"
proof (induction es)
  case (Cons e es)
  then show ?case by (cases e) (auto simp: listed_simps)
qed (simp add: listed_simps)

text \<open>
  C15. Loading a listing: for every program counter, the disassembly is the last one that the
  listing has in its word, moved by the offset, and the symbols are those of the word, separated by
  commas, in order; without any, the disassembly is unknown.
\<close>

theorem disasGet_finds_listing:
  assumes "\<forall>e \<in> set es. listing_ok e"
  shows "\<exists>root. disasLoad (listing_text es) offset calloc_tree = Some root \<and>
    disasGet pc root =
      (case listed_insns offset es pc of [] \<Rightarrow> ''unknown'' | ds \<Rightarrow> last ds, comma_list (listed_symbols offset es pc))"
proof -
  let ?us = "concat (map (updates_of offset) es)" and ?fs = "filter (\<lambda>(p, f). word_index p = word_index pc) (concat (map (updates_of offset) es))"
  have get: "getNode pc (tree.run_updates ?us calloc_tree) = (if ?fs = [] then None else Some (fold (\<lambda>(pc, f). f) ?fs calloc_leaf))"
    using tree.get_run [OF tree.empty_ok, of pc ?us] by (auto simp: tree.get_empty split: list.splits)
  have "disasGet pc (tree.run_updates ?us calloc_tree) =
      (case listed_insns offset es pc of [] \<Rightarrow> ''unknown'' | ds \<Rightarrow> last ds, comma_list (listed_symbols offset es pc))"
    using fold_updates [of pc offset es calloc_leaf] listed_none [of pc offset es]
    by (auto simp: disasGet_def get calloc_leaf_def split: list.split)
  then show ?thesis using disasLoad_updates [OF assms, of offset calloc_tree] by simp
qed

theorem disasGet_finds_listing_witness:
  "\<exists>root. disasLoad (listing_text [Other ''test.elf'', Symbol ''00000000'' 0 ''<_start>'', Symbol ''00000000'' 0 ''<reset>'',
      Insn ''       0'' 0 ''nop'', Insn ''       4'' 4 ''stop'']) 0x100 calloc_tree = Some root \<and>
    disasGet 0x103 root = (''nop'', Some ''<_start>, <reset>'')"
proof -
  let ?es = "[Other ''test.elf'', Symbol ''00000000'' 0 ''<_start>'', Symbol ''00000000'' 0 ''<reset>'', Insn ''       0'' 0 ''nop'', Insn ''       4'' 4 ''stop'']"
  have a: "address_text ''00000000'' 0" "address_text ''       0'' 0" "address_text ''       4'' 4"
  proof -
    show "address_text ''00000000'' 0" unfolding address_text_def
      by (intro conjI exI [of _ 0] exI [of _ "''00000000''"]) (simp_all add: hexval_def ctype_defs)
    show "address_text ''       0'' 0" unfolding address_text_def
      by (intro conjI exI [of _ 7] exI [of _ "''0''"]) (simp_all add: hexval_def ctype_defs numeral_eq_Suc)
    show "address_text ''       4'' 4" unfolding address_text_def
      by (intro conjI exI [of _ 7] exI [of _ "''4''"]) (simp_all add: hexval_def ctype_defs numeral_eq_Suc)
  qed
  have "\<forall>e \<in> set ?es. listing_ok e" using a by (simp add: newline_def)
  from disasGet_finds_listing [OF this, of "0x100" "0x103"] show ?thesis
    by (simp add: listed_simps word_index_def)
qed

end
