(* ===== verification/Trace_Dump.thy ===== *)
theory Trace_Dump
  imports Trace_Cycle Disassembly
begin

text \<open>
  The main loop of the trace dumper (\<open>rvtrace/main.c\<close>): cycle after cycle, the instructions that
  the trace implies and those it reports, with their effects, as an annotated disassembly. The
  output is a string; writing it succeeds.
\<close>

section \<open>Numbers\<close>

definition dec_int :: "u32 \<Rightarrow> string" where
  "dec_int v = (if sint v < 0 then CHR ''-'' # decU (nat (- sint v)) else decU (nat (sint v)))"

definition hex_dec :: "u32 \<Rightarrow> string" where
  "hex_dec v = hex8 v @ '' ('' @ dec_int v @ '')''"

section \<open>One instruction\<close>

definition comment :: "string \<Rightarrow> string" where
  "comment str = replicate 22 CHR '' '' @ [CHR 0x09] @ ''#'' @ [CHR 0x09] @ str @ ''\<newline>''"

definition dump_mem :: "trace_packet \<Rightarrow> string" where
  "dump_mem p =
     (if hasMem p = -1 then comment (''load mem('' @ hex8 (memAddr p) @ '')'')
      else if hasMem p \<ge> 1 then
        comment (''mem('' @ hex8 (memAddr p) @ '') = 0x'' @ pad_left (nat (hasMem p * 2)) CHR ''0'' (hexN (unat (memWriteData p))) @
          '' ('' @ dec_int (memWriteData p) @ '')'')
      else [])"

definition dump_regs :: "trace_packet \<Rightarrow> string" where
  "dump_regs p =
     (if hasWrittenGP p \<noteq> 0 then comment (''r0.'' @ decU (hasWrittenGP p) @ '' = '' @ hex_dec (gpWriteData p)) else []) @
     (if hasWrittenLink p then comment (''l0.0 = '' @ hex_dec (linkWriteData p)) else []) @
     concat (map (\<lambda>b. if bit (hasWrittenBranch p) b
       then comment (''b0.'' @ decU b @ (if bit (branchWriteData p) b then '' = true'' else '' = false'')) else []) [0..<8])"

definition dumpPC :: "node \<Rightarrow> u32 \<Rightarrow> trace_packet option \<Rightarrow> string" where
  "dumpPC root a extraData =
     (case disasGet a root of (d, syms) \<Rightarrow>
       (case syms of None \<Rightarrow> [] | Some s \<Rightarrow> hexU 8 (unat a) @ '' '' @ s @ '':\<newline>'') @
       pad_left 8 CHR '' '' (hexN (unat a)) @ '': '' @ d @ ''\<newline>'' @
       (case extraData of None \<Rightarrow> []
        | Some p \<Rightarrow> dump_mem p @ dump_regs p @
            (if hasSyllable p then comment (''Fetched syllable was '' @ hex8 (syllable p)) else [])))"

section \<open>The loop\<close>

text \<open>
  The instructions that were executed without being reported: \<open>while (pc != d.pc)\<close>, which does not
  end when the difference is no multiple of 4.
\<close>

partial_function (option) dump_gap :: "node \<Rightarrow> u32 \<Rightarrow> u32 \<Rightarrow> string option" where
  "dump_gap root a target =
     (if a = target then Some []
      else Option.bind (dump_gap root (a + 4) target) (\<lambda>out. Some (dumpPC root a None @ out)))"

definition branch_line :: string where
  "branch_line = ''# Branch ===================================================\<newline>''"

definition dump_trap :: "cycle_data \<Rightarrow> string" where
  "dump_trap d =
     (if cy_hasTrapped d then
        ''# Trap =====================================================\<newline># Cause: '' @ decU (unat (cy_trapCause d)) @
        ''\<newline># Point: '' @ hex8 (cy_trapPoint d) @ ''\<newline># Arg = '' @ hex_dec (cy_trapArg d) @ ''\<newline>''
      else [])"

definition dump_icache :: "nat \<Rightarrow> nat \<Rightarrow> cycle_data \<Rightarrow> string" where
  "dump_icache numLanes numGroups d =
     concat (map (\<lambda>s. let k = cy_cacheStatus d ! s in
       if bit k 7 then ''# fetch for next bundle serviced by icache block '' @ decU (s div (numLanes div numGroups)) @ '': '' @
         (if bit k 6 then ''miss'' else ''hit'') @ ''\<newline>'' else []) [0..<16])"

definition dcache_op :: "u8 \<Rightarrow> string" where
  "dcache_op k =
     (if k AND 0x38 = 0x10 then ''read'' else if k AND 0x38 = 0x18 then ''bypass read''
      else if k AND 0x38 = 0x20 then ''write (full line)'' else if k AND 0x38 = 0x28 then ''bypass write''
      else if k AND 0x38 = 0x30 then ''write (partial line)'' else if k AND 0x38 = 0x38 then ''bypass write'' else ''unknown op'')"

definition dcache_result :: "u8 \<Rightarrow> string" where
  "dcache_result k = (if k AND 0x0C = 0 then ''hit'' else if k AND 0x0C = 4 then ''miss'' else ''bypass'')"

definition dump_dcache :: "nat \<Rightarrow> nat \<Rightarrow> cycle_data \<Rightarrow> string" where
  "dump_dcache numLanes numGroups d =
     concat (map (\<lambda>s. let k = cy_cacheStatus d ! s in
       if k AND 0x30 \<noteq> 0 then ''# '' @ dcache_op k @ '' serviced by dcache block '' @ decU (s div (numLanes div numGroups)) @
         (if bit k 1 \<and> k AND 0x3C \<noteq> 0x10 then '' after buffered write was completed'' else []) @ '': '' @ dcache_result k @ ''\<newline>''
       else []) [0..<16])"

definition dump_config :: "cycle_data \<Rightarrow> string" where
  "dump_config d =
     (if cy_hasNewConfiguration d then
        ''# Reconfiguration ==========================================\<newline># New config: '' @ hex8 (cy_config d) @ ''\<newline>''
      else [])"

definition dump_slots :: "node \<Rightarrow> u32 \<Rightarrow> cycle_data \<Rightarrow> string" where
  "dump_slots root a d = concat (map (\<lambda>s. dumpPC root (a + 4 * of_nat s) (Some (slot d ! s))) [0..<usedSlots d])"

lemma cycle_loop_shorter:
  "cycle_loop junk numLanes numGroups c cfg cd cached data = Scanned cd' r \<Longrightarrow> usedSlots cd = 0 \<Longrightarrow> length r < length data"
proof (induction junk numLanes numGroups c cfg cd cached data rule: cycle_loop.induct)
  case (1 junk numLanes numGroups c cfg cd cached data)
  note run = "1.prems"(1) [unfolded cycle_loop.simps [of junk numLanes numGroups c cfg cd]]
  with "1.prems"(2) obtain e k q where e: "read_cycle junk numLanes numGroups c cfg 0 cd cached data = Scanned (e, k) q" by (auto split: scanned.splits)
  note q = read_cycle_shorter [OF e]
  show ?case
  proof (cases "cy_hasNewConfiguration e \<or> k \<or> usedSlots e \<noteq> 0")
    case True
    with run "1.prems"(2) e q show ?thesis by (auto simp: cycle_loop.simps [of _ _ _ _ _ e] split: if_splits)
  next
    case False
    with run "1.prems"(2) e have "cycle_loop junk numLanes numGroups c cfg e k q = Scanned cd' r" by simp
    then show ?thesis using "1.IH" [OF _ e refl] "1.prems"(2) False q by auto
  qed
qed

lemma getCycleInfo_shorter: "getCycleInfo junk c cd numLanes numGroups data = Scanned d r \<Longrightarrow> length r < length data"
  unfolding getCycleInfo_def by (rule cycle_loop_shorter) (auto simp: reset_cycle_def)

text \<open>The result is the output and what \<open>run\<close> returns; \<open>None\<close> when it never does.\<close>

function run_loop :: "trace_packet \<Rightarrow> nat \<Rightarrow> nat \<Rightarrow> nat \<Rightarrow> node \<Rightarrow> u32 \<Rightarrow> bool \<Rightarrow> cycle_data \<Rightarrow> u8 list \<Rightarrow> (string \<times> int) option" where
  "run_loop junk cx numLanes numGroups root a first d data =
     (case getCycleInfo junk cx d numLanes numGroups data of
        No_Data r \<Rightarrow> Some ([], 0)
      | Bad_Data r \<Rightarrow> Some ([], -1)
      | Scanned d r \<Rightarrow>
          if usedSlots d \<noteq> 0 \<and> \<not> first \<and> \<not> cy_hasBranched d \<and> cy_pc d < a
          then run_loop junk cx numLanes numGroups root a first d r
          else
            Option.bind (if usedSlots d = 0 then Some []
                         else if \<not> first \<and> \<not> cy_hasBranched d then dump_gap root a (cy_pc d) else Some branch_line) (\<lambda>gap.
            let b = (if usedSlots d = 0 then a else cy_pc d)
            in map_option (\<lambda>(out, ret). (gap @ (if usedSlots d = 0 then [] else dump_trap d) @ dump_icache numLanes numGroups d @
                  dump_slots root b d @ dump_dcache numLanes numGroups d @ dump_config d @ out, ret))
                (run_loop junk cx numLanes numGroups root (b + 4 * of_nat (usedSlots d)) (first \<and> usedSlots d = 0) d r)))"
  by auto
termination
  by (relation "measure (\<lambda>(junk, cx, numLanes, numGroups, root, a, first, d, data). length data)") (simp_all add: getCycleInfo_shorter)

declare run_loop.simps [simp del]

definition run_trace :: "trace_packet \<Rightarrow> cycle_data \<Rightarrow> nat \<Rightarrow> nat \<Rightarrow> nat \<Rightarrow> u32 \<Rightarrow> node \<Rightarrow> u8 list \<Rightarrow> (string \<times> int) option" where
  "run_trace junk d cx numLanes numGroups initialCfg root traceData =
     run_loop junk cx numLanes numGroups root 0 True (d\<lparr>cy_pc := 0, cy_config := initialCfg\<rparr>) traceData"

section \<open>The dumper ends\<close>

definition aligned :: "u32 \<Rightarrow> bool" where
  "aligned a \<longleftrightarrow> unat a mod 4 = 0"

lemma dump_gap_closed:
  assumes "unat a + 4 * k = unat target"
  shows "dump_gap root a target = Some (concat (map (\<lambda>i. dumpPC root (a + 4 * of_nat i) None) [0..<k]))"
  using assms
proof (induction k arbitrary: a)
  case 0
  then have "a = target" by (simp add: word_unat_eq_iff)
  then show ?case by (simp add: dump_gap.simps [of root target target])
next
  case (Suc k)
  have "unat a + 4 < 4294967296" using Suc.prems unsigned_less [of target, where 'a = nat] by simp
  then have "unat (a + 4) = unat a + 4" by (simp add: unat_word_ariths)
  then have "dump_gap root (a + 4) target = Some (concat (map (\<lambda>i. dumpPC root (a + 4 + 4 * of_nat i) None) [0..<k]))"
    using Suc.prems by (intro Suc.IH) simp
  moreover have "a \<noteq> target" using Suc.prems by auto
  moreover have "[0..<Suc k] = 0 # map Suc [0..<k]" by (simp add: upt_conv_Cons map_Suc_upt del: upt_Suc)
  ultimately show ?case by (simp add: dump_gap.simps [of root a target] comp_def algebra_simps del: upt_Suc)
qed


lemma aligned_iff: "aligned a \<longleftrightarrow> a AND 3 = 0"
proof -
  have "a AND 3 = take_bit 2 a" by (simp add: take_bit_eq_mask mask_eq_exp_minus_1)
  then show ?thesis by (simp add: aligned_def word_unat_eq_iff take_bit_eq_mod unat_mod_distrib)
qed

lemma unat_add_mod: "unat (a + b) mod 4 = (unat a + unat b) mod 4" for a b :: u32
proof -
  have "unat (a + b) mod 4 = (unat a + unat b) mod 4294967296 mod 4" by (simp add: unat_word_ariths)
  then show ?thesis by (simp add: mod_mod_cancel)
qed

lemma unat_mult_mod: "unat (a * b) mod 4 = (unat a * unat b) mod 4" for a b :: u32
proof -
  have "unat (a * b) mod 4 = (unat a * unat b) mod 4294967296 mod 4" by (simp add: unat_word_ariths)
  then show ?thesis by (simp add: mod_mod_cancel)
qed

lemma getCycleInfo_aligned:
  assumes "getCycleInfo junk c cd numLanes numGroups data = Scanned d r" "aligned (cy_pc cd)"
  shows "aligned (cy_pc d)"
proof -
  have "cycle_ok (length (slot cd)) numLanes (cy_pc cd) (reset_cycle cd)" using assms(2) by (simp add: cycle_ok_def reset_cycle_def aligned_iff)
  from cycle_loop_ok [OF assms(1) [unfolded getCycleInfo_def] this] show ?thesis by (simp add: cycle_ok_def aligned_iff)
qed

lemma aligned_step: "aligned a \<Longrightarrow> aligned (a + 4 * of_nat n)"
proof -
  assume "aligned a"
  have "unat (4 * of_nat n :: u32) mod 4 = 0" unfolding unat_mult_mod by simp
  moreover have "unat (a + 4 * of_nat n) mod 4 = (unat a + unat (4 * of_nat n :: u32)) mod 4" unfolding unat_add_mod by simp
  ultimately show ?thesis using \<open>aligned a\<close> unfolding aligned_def by (metis add.right_neutral mod_add_eq mod_mod_trivial)
qed

lemma dump_gap_ends:
  assumes "aligned a" "aligned b" "a \<le> b"
  shows "\<exists>k. b = a + 4 * of_nat k \<and> dump_gap root a b = Some (concat (map (\<lambda>i. dumpPC root (a + 4 * of_nat i) None) [0..<k]))"
proof -
  have "(unat b - unat a) mod 4 = 0" "unat a \<le> unat b"
    using assms by (auto simp: aligned_def word_le_nat_alt mod_eq_0_iff_dvd intro: dvd_diff_nat)
  then obtain k where k: "unat a + 4 * k = unat b" by (metis add_diff_inverse_nat dvd_def mod_eq_0_iff_dvd not_less)
  then have "(of_nat (unat a + 4 * k) :: u32) = of_nat (unat b)" by simp
  then have "b = a + 4 * of_nat k" by simp
  with dump_gap_closed [OF k] show ?thesis by blast
qed

text \<open>
  C39. The dumper ends on every trace: the program counters that it puts together from the trace and
  those it counts up are multiples of 4, so the loop over the instructions that were executed
  silently reaches the reported one.
\<close>

theorem run_trace_ends: "\<exists>out ret. run_trace junk d cx numLanes numGroups initialCfg root traceData = Some (out, ret) \<and> ret \<in> {0, -1}"
proof -
  have "\<exists>out ret. run_loop junk cx numLanes numGroups root a first d data = Some (out, ret) \<and> ret \<in> {0, -1}"
    if "aligned a" "aligned (cy_pc d)" for a first d data
    using that
  proof (induction junk cx numLanes numGroups root a first d data rule: run_loop.induct)
    case (1 junk cx numLanes numGroups root a first d data)
    show ?case
    proof (cases "getCycleInfo junk cx d numLanes numGroups data")
      case (Scanned e r)
      have e: "aligned (cy_pc e)" by (rule getCycleInfo_aligned [OF Scanned "1.prems"(2)])
      let ?skip = "usedSlots e \<noteq> 0 \<and> \<not> first \<and> \<not> cy_hasBranched e \<and> cy_pc e < a" and ?b = "if usedSlots e = 0 then a else cy_pc e"
      let ?gap = "if usedSlots e = 0 then Some [] else if \<not> first \<and> \<not> cy_hasBranched e then dump_gap root a (cy_pc e) else Some branch_line"
      show ?thesis
      proof (cases ?skip)
        case True
        then show ?thesis using "1.IH"(1) [OF Scanned True "1.prems"(1) e] Scanned by (subst run_loop.simps) simp
      next
        case False
        then obtain gap where gap: "?gap = Some gap"
          using dump_gap_ends [OF "1.prems"(1) e, of root] by (cases "usedSlots e = 0"; cases "\<not> first \<and> \<not> cy_hasBranched e") (auto simp: not_less)
        have "aligned (?b + 4 * of_nat (usedSlots e))" using "1.prems"(1) e by (intro aligned_step) simp
        from "1.IH"(2) [OF Scanned False gap refl this e] obtain out ret where
          "run_loop junk cx numLanes numGroups root (?b + 4 * of_nat (usedSlots e)) (first \<and> usedSlots e = 0) e r = Some (out, ret)" "ret \<in> {0, -1}"
          by auto
        then show ?thesis using Scanned False gap by (subst run_loop.simps) (auto simp: Let_def)
      qed
    qed (simp_all add: run_loop.simps)
  qed
  then show ?thesis by (simp add: run_trace_def aligned_def)
qed

end
