(* ===== verification/Rsp_Protocol.thy ===== *)
theory Rsp_Protocol
  imports Prelude
begin

text \<open>
  The packet layer of the gdb bridge (\<open>rvd/gdb/rsp-protocol.c\<close>): the receiver state machine of the
  gdb remote serial protocol, the transmit buffer and the sender.

  The static variables are the record \<open>rsp\<close>; the layers above extend it. Each operation is a
  function from the state to an outcome and a state: \<open>Done\<close> is a return with a value, \<open>Failed\<close> the
  return value \<open>-1\<close>, \<open>Undefined\<close> undefined behaviour and \<open>Unfinished\<close> an evaluation that has used
  up its steps. The handler of packets is a parameter, an operation on the same state.

  \<open>rspConn\<close> is what was written to the socket. While it is open a write takes everything it is
  given, in one or more calls; when it is closed a write fails. Debug output is not modelled.
\<close>

datatype 'a outcome = Done 'a | Failed | Undefined | Unfinished

type_synonym ('a, 's) act = "'s \<Rightarrow> 'a outcome \<times> 's"

definition give :: "'a \<Rightarrow> ('a, 's) act" where
  "give x = (\<lambda>s. (Done x, s))"

definition halt :: "'a outcome \<Rightarrow> ('a, 's) act" where
  "halt r = (\<lambda>s. (r, s))"

definition andThen :: "('a, 's) act \<Rightarrow> ('a \<Rightarrow> ('b, 's) act) \<Rightarrow> ('b, 's) act" where
  "andThen m f = (\<lambda>s. case m s of
     (Done x, s') \<Rightarrow> f x s'
   | (Failed, s') \<Rightarrow> (Failed, s')
   | (Undefined, s') \<Rightarrow> (Undefined, s')
   | (Unfinished, s') \<Rightarrow> (Unfinished, s'))"

definition change :: "('s \<Rightarrow> 's) \<Rightarrow> (unit, 's) act" where
  "change f = (\<lambda>s. (Done (), f s))"

definition look :: "('s \<Rightarrow> 'a) \<Rightarrow> ('a, 's) act" where
  "look f = (\<lambda>s. (Done (f s), s))"

lemma act_simps [simp]:
  "give x s = (Done x, s)" "halt r s = (r, s)" "change f s = (Done (), f s)" "look g s = (Done (g s), s)"
  by (simp_all add: give_def halt_def change_def look_def)

lemma andThen_assoc: "andThen (andThen m f) g = andThen m (\<lambda>x. andThen (f x) g)"
  by (auto simp: andThen_def fun_eq_iff split: prod.split outcome.split)

lemma andThen_Done: "m s = (Done x, s') \<Longrightarrow> andThen m f s = f x s'"
  by (simp add: andThen_def)

section \<open>State and transmit buffer\<close>

datatype rx_state = RXS_IDLE | RXS_BODY | RXS_BODY_ESCAPING | RXS_CHECK_1 | RXS_CHECK_2

record rsp =
  rxBuf :: string
  rxState :: rx_state
  rxComputedChecksum :: u8
  rxReceivedChecksum :: u8
  txBuf :: string
  rspConn :: string
  rspOpen :: bool

definition RX_BUF_SIZE :: nat where
  "RX_BUF_SIZE = 16384"

definition TX_BUF_SIZE :: nat where
  "TX_BUF_SIZE = 16384"

definition rsp_flushTx :: "(unit, 'e rsp_scheme) act" where
  "rsp_flushTx = (\<lambda>s.
     if txBuf s = [] then (Done (), s)
     else if \<not> rspOpen s then (Failed, s)
     else (Done (), s\<lparr>rspConn := rspConn s @ txBuf s, txBuf := []\<rparr>))"

definition txRaw :: "char \<Rightarrow> (unit, 'e rsp_scheme) act" where
  "txRaw c = (\<lambda>s. andThen (if length (txBuf s) \<ge> TX_BUF_SIZE then rsp_flushTx else give ())
     (\<lambda>_. change (\<lambda>s. s\<lparr>txBuf := txBuf s @ [c]\<rparr>)) s)"

section \<open>Sending\<close>

definition byte_of :: "char \<Rightarrow> u8" where
  "byte_of c = word_of_nat (of_char c)"

definition xor_20 :: "char \<Rightarrow> char" where
  "xor_20 c = char_of (unat (byte_of c XOR 0x20))"

definition special :: "char \<Rightarrow> bool" where
  "special c \<longleftrightarrow> c = CHR ''#'' \<or> c = CHR ''$'' \<or> c = CHR ''}''"

definition tx :: "char \<Rightarrow> u8 \<Rightarrow> (u8, 'e rsp_scheme) act" where
  "tx c checksum =
     andThen (if special c then andThen (txRaw CHR ''}'') (\<lambda>_. give (xor_20 c, checksum + byte_of CHR ''}''))
              else give (c, checksum)) (\<lambda>(c, checksum).
     andThen (txRaw c) (\<lambda>_. give (checksum + byte_of c)))"

fun tx_all :: "string \<Rightarrow> u8 \<Rightarrow> (u8, 'e rsp_scheme) act" where
  "tx_all [] checksum = give checksum"
| "tx_all (c # cs) checksum = andThen (tx c checksum) (tx_all cs)"

definition rsp_sendPacketBuf :: "string \<Rightarrow> (unit, 'e rsp_scheme) act" where
  "rsp_sendPacketBuf buf =
     andThen (txRaw CHR ''$'') (\<lambda>_.
     andThen (tx_all buf 0) (\<lambda>checksum.
     andThen (txRaw CHR ''#'') (\<lambda>_.
       let checksumBuf = hexL 2 (unat checksum)
       in andThen (txRaw (checksumBuf ! 0)) (\<lambda>_. txRaw (checksumBuf ! 1)))))"

text \<open>The same for a null terminated string.\<close>

definition rsp_sendPacketStr :: "string \<Rightarrow> (unit, 'e rsp_scheme) act" where
  "rsp_sendPacketStr packet = rsp_sendPacketBuf (takeWhile (\<lambda>c. c \<noteq> CHR 0x00) packet)"

section \<open>Receiving\<close>

definition hexChar :: "char \<Rightarrow> int" where
  "hexChar c = (if isxdigit c then int (hexval c) else -1)"

text \<open>One turn of the loop of \<open>rsp_receiveBuf\<close>.\<close>

definition rsp_body :: "char \<Rightarrow> (unit, 'e rsp_scheme) act" where
  "rsp_body c = change (\<lambda>s. if length (rxBuf s) < RX_BUF_SIZE - 1
     then s\<lparr>rxBuf := rxBuf s @ [c], rxComputedChecksum := rxComputedChecksum s + byte_of c\<rparr> else s)"

definition rsp_checked :: "(string \<Rightarrow> (unit, 'e rsp_scheme) act) \<Rightarrow> char \<Rightarrow> (unit, 'e rsp_scheme) act" where
  "rsp_checked handle c = (\<lambda>s.
     let s = s\<lparr>rxReceivedChecksum := rxReceivedChecksum s OR word_of_int (hexChar c)\<rparr>
     in andThen (if rxReceivedChecksum s = rxComputedChecksum s
                 then andThen (txRaw CHR ''+'') (\<lambda>_. handle (rxBuf s)) else txRaw CHR ''-'')
          (\<lambda>_. change (\<lambda>s. s\<lparr>rxState := RXS_IDLE\<rparr>)) s)"

definition rsp_byte :: "(string \<Rightarrow> (unit, 'e rsp_scheme) act) \<Rightarrow> char \<Rightarrow> (unit, 'e rsp_scheme) act" where
  "rsp_byte handle c = (\<lambda>s.
     if c = CHR ''$'' then (Done (), s\<lparr>rxBuf := [], rxState := RXS_BODY, rxComputedChecksum := 0, rxReceivedChecksum := 0\<rparr>)
     else if c = CHR ''#'' \<and> (rxState s = RXS_BODY \<or> rxState s = RXS_BODY_ESCAPING) then (Done (), s\<lparr>rxState := RXS_CHECK_1\<rparr>)
     else if c = CHR ''}'' \<and> (rxState s = RXS_BODY \<or> rxState s = RXS_BODY_ESCAPING) then (Done (), s\<lparr>rxState := RXS_BODY_ESCAPING\<rparr>)
     else case rxState s of
         RXS_BODY_ESCAPING \<Rightarrow> rsp_body (xor_20 c) (s\<lparr>rxState := RXS_BODY\<rparr>)
       | RXS_BODY \<Rightarrow> rsp_body c s
       | RXS_CHECK_1 \<Rightarrow> (Done (), s\<lparr>rxReceivedChecksum := word_of_int (hexChar c * 16), rxState := RXS_CHECK_2\<rparr>)
       | RXS_CHECK_2 \<Rightarrow> rsp_checked handle c s
       | RXS_IDLE \<Rightarrow> (Done (), s))"

fun rsp_bytes :: "(string \<Rightarrow> (unit, 'e rsp_scheme) act) \<Rightarrow> string \<Rightarrow> (unit, 'e rsp_scheme) act" where
  "rsp_bytes handle [] = give ()"
| "rsp_bytes handle (c # cs) = andThen (rsp_byte handle c) (\<lambda>_. rsp_bytes handle cs)"

definition rsp_receiveBuf :: "(string \<Rightarrow> (unit, 'e rsp_scheme) act) \<Rightarrow> string \<Rightarrow> (unit, 'e rsp_scheme) act" where
  "rsp_receiveBuf handle buf = andThen (rsp_bytes handle buf) (\<lambda>_. rsp_flushTx)"

text \<open>The loop of \<open>gdb-main.c\<close> over what the socket delivers, one read at a time.\<close>

fun rsp_session :: "(string \<Rightarrow> (unit, 'e rsp_scheme) act) \<Rightarrow> string list \<Rightarrow> (unit, 'e rsp_scheme) act" where
  "rsp_session handle [] = give ()"
| "rsp_session handle (rspData # reads) = andThen (rsp_receiveBuf handle rspData) (\<lambda>_. rsp_session handle reads)"

section \<open>Packets\<close>

text \<open>The text of a packet, as the protocol defines it: the checksum is that of the escaped text.\<close>

definition escaped :: "char \<Rightarrow> string" where
  "escaped c = (if special c then [CHR ''}'', xor_20 c] else [c])"

definition packet_body :: "string \<Rightarrow> string" where
  "packet_body buf = concat (map escaped buf)"

definition checksum_of :: "string \<Rightarrow> u8" where
  "checksum_of body = sum_list (map byte_of body)"

definition packet_text :: "string \<Rightarrow> string" where
  "packet_text buf = ''$'' @ packet_body buf @ ''#'' @ hexL 2 (unat (checksum_of (packet_body buf)))"

definition escapes :: "string \<Rightarrow> nat" where
  "escapes buf = length (filter special buf)"

lemma byte_of_specials: "byte_of CHR ''#'' = 0x23" "byte_of CHR ''$'' = 0x24" "byte_of CHR ''}'' = 0x7D"
  by (simp_all add: byte_of_def)

lemma byte_of_char_of [simp]: "byte_of (char_of (unat x)) = x"
  using unsigned_less [of x, where 'a = nat] by (simp add: byte_of_def of_char_of take_bit_eq_mod)

lemma byte_of_inj: "byte_of c = byte_of d \<longleftrightarrow> c = d"
proof
  assume "byte_of c = byte_of d"
  then have "unat (byte_of c) = unat (byte_of d)" by simp
  then have "(of_char c :: nat) = of_char d" by (simp add: byte_of_def unat_of_nat take_bit_eq_mod)
  then show "c = d" by simp
qed simp

lemma byte_of_xor_20 [simp]: "byte_of (xor_20 c) = byte_of c XOR 0x20"
  by (simp add: xor_20_def)

lemma xor_20_xor_20 [simp]: "xor_20 (xor_20 c) = c"
  by (simp add: byte_of_inj [symmetric] xor.assoc)

lemma special_cases: "special c \<Longrightarrow> byte_of c = 0x23 \<or> byte_of c = 0x24 \<or> byte_of c = 0x7D"
  by (auto simp: special_def byte_of_specials)

lemma xor_20_not_special: "special c \<Longrightarrow> \<not> special (xor_20 c)"
  using special_cases [of c] by (auto simp: special_def byte_of_inj [symmetric] byte_of_specials)

lemma checksum_of_simps [simp]:
  "checksum_of [] = 0" "checksum_of (c # cs) = byte_of c + checksum_of cs" "checksum_of (cs @ ds) = checksum_of cs + checksum_of ds"
  by (simp_all add: checksum_of_def)

lemma packet_body_simps [simp]: "packet_body [] = []" "packet_body (c # buf) = escaped c @ packet_body buf"
  by (simp_all add: packet_body_def)

text \<open>An escape adds the same amount to the checksum, whatever the character.\<close>

lemma escaped_sum: "checksum_of (escaped c) = byte_of c + (if special c then 0x5D else 0)"
  using special_cases [of c] by (auto simp: escaped_def byte_of_specials)

lemma body_sum: "checksum_of (packet_body buf) = checksum_of buf + 0x5D * of_nat (escapes buf)"
  by (induction buf) (simp_all add: escaped_sum escapes_def algebra_simps)

text \<open>So the two sums agree when the number of escapes is a multiple of 256.\<close>

lemma body_sum_eq: "checksum_of (packet_body buf) = checksum_of buf \<longleftrightarrow> 256 dvd escapes buf"
proof -
  have "checksum_of (packet_body buf) = checksum_of buf \<longleftrightarrow> (of_nat (0x5D * escapes buf) :: u8) = 0"
    by (simp add: body_sum)
  also have "\<dots> \<longleftrightarrow> 256 dvd 0x5D * escapes buf" by (simp only: word_of_nat_eq_0_iff) simp
  also have "\<dots> \<longleftrightarrow> 256 dvd escapes buf"
  proof -
    have "coprime (256 :: nat) 0x5D" by (simp add: coprime_iff_gcd_eq_1 gcd_nat.simps gcd_non_0_nat)
    then show ?thesis by (rule coprime_dvd_mult_right_iff)
  qed
  finally show ?thesis .
qed

section \<open>What is sent\<close>

text \<open>Whether a character is still in the buffer or has been written makes no difference later.\<close>

definition flushed :: "'e rsp_scheme \<Rightarrow> 'e rsp_scheme" where
  "flushed s = s\<lparr>rspConn := rspConn s @ txBuf s, txBuf := []\<rparr>"

definition with_sent :: "string \<Rightarrow> 'e rsp_scheme \<Rightarrow> 'e rsp_scheme" where
  "with_sent str s = s\<lparr>rspConn := rspConn s @ str\<rparr>"

definition sends :: "('a, 'e rsp_scheme) act \<Rightarrow> string \<Rightarrow> 'a \<Rightarrow> bool" where
  "sends m str x \<longleftrightarrow> (\<forall>s. rspOpen s \<longrightarrow> (\<exists>s'. m s = (Done x, s') \<and> flushed s' = with_sent str (flushed s) \<and> rspOpen s'))"

lemma sends_give: "sends (give x) [] x"
  by (simp add: sends_def with_sent_def)

lemma sends_andThen:
  assumes "sends m a x" "sends (f x) b y"
  shows "sends (andThen m f) (a @ b) y"
  unfolding sends_def
proof (intro allI impI)
  fix s :: "'a rsp_scheme"
  assume "rspOpen s"
  then obtain s1 where 1: "m s = (Done x, s1)" "flushed s1 = with_sent a (flushed s)" "rspOpen s1"
    using assms(1) unfolding sends_def by blast
  then obtain s2 where 2: "f x s1 = (Done y, s2)" "flushed s2 = with_sent b (flushed s1)" "rspOpen s2"
    using assms(2) unfolding sends_def by blast
  have "flushed s2 = with_sent (a @ b) (flushed s)" using 1(2) 2(2) by (simp add: with_sent_def)
  with 1 2 show "\<exists>s'. andThen m f s = (Done y, s') \<and> flushed s' = with_sent (a @ b) (flushed s) \<and> rspOpen s'"
    by (simp add: andThen_Done)
qed

lemma rsp_flushTx_open: "rspOpen s \<Longrightarrow> rsp_flushTx s = (Done (), flushed s)"
  by (simp add: rsp_flushTx_def flushed_def)

lemma sends_flush: "sends rsp_flushTx [] ()"
  by (simp add: sends_def rsp_flushTx_open with_sent_def) (simp add: flushed_def)

lemma sends_txRaw: "sends (txRaw c) [c] ()"
  by (auto simp: sends_def txRaw_def rsp_flushTx_open andThen_def with_sent_def flushed_def)

lemma sends_txRaw_give: "sends (andThen (txRaw c) (\<lambda>_. give x)) [c] x"
  using sends_andThen [where f = "\<lambda>_. give x", OF sends_txRaw sends_give] by simp

lemma sends_tx: "sends (tx c k) (escaped c) (k + checksum_of (escaped c))"
proof (cases "special c")
  case True
  have "sends (tx c k) ([CHR ''}''] @ [xor_20 c]) (k + byte_of CHR ''}'' + byte_of (xor_20 c))"
    unfolding tx_def if_P [OF True]
    by (rule sends_andThen [OF sends_txRaw_give]) (simp add: sends_txRaw_give del: byte_of_xor_20)
  with True show ?thesis by (simp add: escaped_def add.assoc)
next
  case False
  have "sends (tx c k) ([] @ [c]) (k + byte_of c)"
    unfolding tx_def if_not_P [OF False] by (rule sends_andThen [OF sends_give]) (simp add: sends_txRaw_give)
  with False show ?thesis by (simp add: escaped_def)
qed

lemma sends_tx_all: "sends (tx_all buf k) (packet_body buf) (k + checksum_of (packet_body buf))"
proof (induction buf arbitrary: k)
  case (Cons c buf)
  show ?case using sends_andThen [where f = "tx_all buf", OF sends_tx Cons] by (simp add: add.assoc)
qed (simp add: sends_give)

lemma sends_packet: "sends (rsp_sendPacketBuf buf) (packet_text buf) ()"
proof -
  let ?k = "checksum_of (packet_body buf)"
  have two: "hexL 2 n = [hexL 2 n ! 0] @ [hexL 2 n ! 1]" for n by (simp add: numeral_2_eq_2)
  have all: "sends (tx_all buf 0) (packet_body buf) ?k" using sends_tx_all [of buf 0] by simp
  have "sends (rsp_sendPacketBuf buf) ([CHR ''$''] @ packet_body buf @ [CHR ''#''] @ [hexL 2 (unat ?k) ! 0] @ [hexL 2 (unat ?k) ! 1]) ()"
    unfolding rsp_sendPacketBuf_def Let_def
    by (rule sends_andThen [OF sends_txRaw sends_andThen [OF all sends_andThen [OF sends_txRaw sends_andThen [OF sends_txRaw sends_txRaw]]]])
  then show ?thesis unfolding packet_text_def by (subst two) simp
qed

lemma sends_str: "CHR 0x00 \<notin> set buf \<Longrightarrow> sends (rsp_sendPacketStr buf) (packet_text buf) ()"
proof -
  assume "CHR 0x00 \<notin> set buf"
  then have "takeWhile (\<lambda>c. c \<noteq> CHR 0x00) buf = buf" by (auto simp: takeWhile_eq_all_conv)
  with sends_packet [of buf] show ?thesis unfolding rsp_sendPacketStr_def by (simp only:)
qed

section \<open>What is received\<close>

lemma receive_escaped:
  assumes "rxState s = RXS_BODY" "length (rxBuf s) < RX_BUF_SIZE - 1"
  shows "rsp_bytes handle (escaped c @ rest) s =
    rsp_bytes handle rest (s\<lparr>rxBuf := rxBuf s @ [c], rxComputedChecksum := rxComputedChecksum s + byte_of c\<rparr>)"
proof -
  have self: "s\<lparr>rxState := RXS_BODY\<rparr> = s" using assms(1) by (intro rsp.equality) simp_all
  show ?thesis
  proof (cases "special c")
    case True
    have x: "xor_20 c \<noteq> CHR ''$''" "xor_20 c \<noteq> CHR ''#''" "xor_20 c \<noteq> CHR ''}''"
      using xor_20_not_special [OF True] by (auto simp: special_def)
    show ?thesis using True x assms
      by (simp add: escaped_def andThen_def rsp_byte_def rsp_body_def self)
  next
    case False
    then show ?thesis using assms by (simp add: escaped_def andThen_def rsp_byte_def rsp_body_def special_def)
  qed
qed

lemma receive_body:
  "\<lbrakk>rxState s = RXS_BODY; length (rxBuf s) + length buf < RX_BUF_SIZE\<rbrakk> \<Longrightarrow>
    rsp_bytes handle (packet_body buf @ rest) s =
    rsp_bytes handle rest (s\<lparr>rxBuf := rxBuf s @ buf, rxComputedChecksum := rxComputedChecksum s + checksum_of buf\<rparr>)"
proof (induction buf arbitrary: s)
  case (Cons c buf)
  have "length (rxBuf s) < RX_BUF_SIZE - 1" using Cons.prems(2) by simp
  from receive_escaped [OF Cons.prems(1) this, of handle c "packet_body buf @ rest"] show ?case
    using Cons.prems by (simp add: Cons.IH add.assoc)
qed simp

lemma hexChar_hexdigit: "d < 16 \<Longrightarrow> hexChar (hexdigit_lower d) = int d"
  by (simp add: hexChar_def hexdigit_lower_props)

lemma nibbles_join: "word_of_int (int (unat k div 16) * 16) OR word_of_int (int (unat k mod 16)) = k" for k :: u8
proof -
  have "(word_of_int (int (unat k mod 16)) :: u8) = take_bit 4 k"
    by (simp add: word_unat_eq_iff take_bit_eq_mod unat_mod_distrib unat_of_nat)
  moreover have "(word_of_int (int (unat k div 16) * 16) :: u8) = push_bit 4 (drop_bit 4 k)"
  proof -
    have "unat k div 16 < 256" using unsigned_less [of k, where 'a = nat] by simp
    then have "unat (word_of_nat (unat k div 16) :: u8) = unat k div 16" by (simp add: unat_of_nat)
    then show ?thesis by (simp add: push_bit_eq_mult drop_bit_eq_div word_unat_eq_iff unat_div_distrib unat_word_ariths)
  qed
  moreover have "push_bit 4 (drop_bit 4 k) OR take_bit 4 k = k"
    by (auto intro!: bit_word_eqI simp: bit_simps)
  ultimately show ?thesis by simp
qed

text \<open>The end of a packet: answer, handle, wait for the next one.\<close>

definition verdict :: "(string \<Rightarrow> (unit, 'e rsp_scheme) act) \<Rightarrow> string \<Rightarrow> (unit, 'e rsp_scheme) act" where
  "verdict handle buf =
     andThen (if 256 dvd escapes buf then andThen (txRaw CHR ''+'') (\<lambda>_. handle buf) else txRaw CHR ''-'')
       (\<lambda>_. change (\<lambda>s. s\<lparr>rxState := RXS_IDLE\<rparr>))"

definition packet_received :: "string \<Rightarrow> 'e rsp_scheme \<Rightarrow> 'e rsp_scheme" where
  "packet_received buf s = s\<lparr>rxBuf := buf, rxState := RXS_CHECK_2, rxComputedChecksum := checksum_of buf,
     rxReceivedChecksum := checksum_of (packet_body buf)\<rparr>"

lemma receive_packet:
  assumes "length buf < RX_BUF_SIZE"
  shows "rsp_bytes handle (packet_text buf @ rest) s = andThen (verdict handle buf) (\<lambda>_. rsp_bytes handle rest) (packet_received buf s)"
proof -
  let ?k = "checksum_of (packet_body buf)"
  let ?s1 = "s\<lparr>rxBuf := [], rxState := RXS_BODY, rxComputedChecksum := 0, rxReceivedChecksum := 0\<rparr>"
  define a where "a = hexdigit_lower (unat ?k div 16)"
  define b where "b = hexdigit_lower (unat ?k mod 16)"
  have k: "unat ?k div 16 < 16" using unsigned_less [of ?k, where 'a = nat] by simp
  then have hex: "hexL 2 (unat ?k) = [a, b]" by (simp add: numeral_2_eq_2 a_def b_def)
  have ab: "a \<noteq> CHR ''$''" "a \<noteq> CHR ''#''" "a \<noteq> CHR ''}''" "b \<noteq> CHR ''$''" "b \<noteq> CHR ''#''" "b \<noteq> CHR ''}''"
    using hexdigit_lower_props k by (simp_all add: a_def b_def)
  have val: "hexChar a = int (unat ?k div 16)" "hexChar b = int (unat ?k mod 16)"
    using hexChar_hexdigit k by (simp_all add: a_def b_def)
  have "rsp_bytes handle (packet_text buf @ rest) s = rsp_bytes handle (packet_body buf @ ''#'' @ [a, b] @ rest) ?s1"
    by (simp add: packet_text_def hex andThen_def rsp_byte_def)
  also have "\<dots> = rsp_bytes handle (''#'' @ [a, b] @ rest) (?s1\<lparr>rxBuf := buf, rxComputedChecksum := checksum_of buf\<rparr>)"
    using receive_body [of ?s1 buf handle "''#'' @ [a, b] @ rest"] assms by simp
  also have "\<dots> = andThen (rsp_checked handle b) (\<lambda>_. rsp_bytes handle rest)
      (s\<lparr>rxBuf := buf, rxComputedChecksum := checksum_of buf, rxReceivedChecksum := word_of_int (hexChar a * 16), rxState := RXS_CHECK_2\<rparr>)"
    using ab by (simp add: andThen_def rsp_byte_def)
  also have "\<dots> = andThen (verdict handle buf) (\<lambda>_. rsp_bytes handle rest) (packet_received buf s)"
  proof -
    let ?s2 = "s\<lparr>rxBuf := buf, rxComputedChecksum := checksum_of buf, rxReceivedChecksum := word_of_int (hexChar a * 16), rxState := RXS_CHECK_2\<rparr>"
    have r: "rxReceivedChecksum ?s2 = word_of_int (hexChar a * 16)" by simp
    have "rxReceivedChecksum ?s2 OR word_of_int (hexChar b) = ?k" unfolding r unfolding val by (rule nibbles_join)
    then have t: "?s2\<lparr>rxReceivedChecksum := rxReceivedChecksum ?s2 OR word_of_int (hexChar b)\<rparr> = packet_received buf s"
      by (simp only:) (simp add: packet_received_def)
    have c: "rxReceivedChecksum (packet_received buf s) = rxComputedChecksum (packet_received buf s) \<longleftrightarrow> 256 dvd escapes buf" "rxBuf (packet_received buf s) = buf"
      using body_sum_eq [of buf] by (simp_all add: packet_received_def)
    have "rsp_checked handle b ?s2 = verdict handle buf (packet_received buf s)"
      unfolding rsp_checked_def Let_def t c verdict_def ..
    then show ?thesis by (simp add: andThen_def)
  qed
  finally show ?thesis .
qed

section \<open>A packet through both directions\<close>

text \<open>
  C11. What the sender puts on the connection for a buffer is received as one packet with exactly
  this content. When the number of escaped characters is a multiple of 256 (zero, in practice) the
  packet is acknowledged and handled once; otherwise the two checksums differ, since the receiver
  sums the characters without their escapes, and the packet is answered with a minus and dropped.
\<close>

theorem packet_roundtrip:
  fixes handle :: "string \<Rightarrow> (unit, 'e rsp_scheme) act"
  assumes "rspOpen s" and "txBuf s = []" and "length buf < RX_BUF_SIZE"
  shows "\<exists>str. andThen (rsp_sendPacketBuf buf) (\<lambda>_. rsp_flushTx) s = (Done (), s\<lparr>rspConn := rspConn s @ str\<rparr>) \<and>
    rsp_bytes handle str t =
      andThen (if 256 dvd escapes buf then andThen (txRaw CHR ''+'') (\<lambda>_. handle buf) else txRaw CHR ''-'')
        (\<lambda>_. change (\<lambda>s. s\<lparr>rxState := RXS_IDLE\<rparr>)) (packet_received buf t)"
proof (intro exI conjI)
  from sends_packet assms(1) obtain s1 where
    s1: "rsp_sendPacketBuf buf s = (Done (), s1)" "flushed s1 = with_sent (packet_text buf) (flushed s)" "rspOpen s1"
    unfolding sends_def by blast
  have "flushed s = s" using assms(2) by (simp add: flushed_def)
  with s1 rsp_flushTx_open [OF s1(3)]
  show "andThen (rsp_sendPacketBuf buf) (\<lambda>_. rsp_flushTx) s = (Done (), s\<lparr>rspConn := rspConn s @ packet_text buf\<rparr>)"
    by (simp add: andThen_Done with_sent_def)
  have "andThen m (\<lambda>_. rsp_bytes handle []) = m" for m :: "(unit, 'e rsp_scheme) act"
    by (auto simp: andThen_def fun_eq_iff split: prod.split outcome.split)
  with receive_packet [OF assms(3), of handle "[]" t]
  show "rsp_bytes handle (packet_text buf) t = andThen (if 256 dvd escapes buf then andThen (txRaw CHR ''+'') (\<lambda>_. handle buf) else txRaw CHR ''-'')
      (\<lambda>_. change (\<lambda>s. s\<lparr>rxState := RXS_IDLE\<rparr>)) (packet_received buf t)"
    unfolding verdict_def append_Nil2 by (simp only:)
qed

definition demo_rsp :: rsp where
  "demo_rsp = \<lparr>rxBuf = [], rxState = RXS_IDLE, rxComputedChecksum = 0, rxReceivedChecksum = 0, txBuf = [], rspConn = [], rspOpen = True\<rparr>"

theorem packet_roundtrip_witness:
  "(\<exists>str. andThen (rsp_sendPacketBuf ''m8'') (\<lambda>_. rsp_flushTx) demo_rsp = (Done (), demo_rsp\<lparr>rspConn := str\<rparr>) \<and>
      txBuf (snd (rsp_bytes (\<lambda>_. give ()) str demo_rsp)) = ''+'') \<and>
   (\<exists>str. andThen (rsp_sendPacketBuf ''m$'') (\<lambda>_. rsp_flushTx) demo_rsp = (Done (), demo_rsp\<lparr>rspConn := str\<rparr>) \<and>
      txBuf (snd (rsp_bytes (\<lambda>_. give ()) str demo_rsp)) = ''-'')"
proof -
  have demo: "rspOpen demo_rsp" "txBuf demo_rsp = []" "rspConn demo_rsp = []" by (simp_all add: demo_rsp_def)
  have short: "length ''m8'' < RX_BUF_SIZE" "length ''m$'' < RX_BUF_SIZE" by (simp_all add: RX_BUF_SIZE_def)
  have count: "escapes ''m8'' = 0" "escapes ''m$'' = 1" by (simp_all add: escapes_def special_def)
  note roundtrip = packet_roundtrip [OF demo(1,2), unfolded demo append_Nil, where handle = "\<lambda>_. give ()" and t = demo_rsp]
  show ?thesis
    using roundtrip [OF short(1)] roundtrip [OF short(2)] demo
    by (auto simp: count andThen_def txRaw_def packet_received_def TX_BUF_SIZE_def)
qed

section \<open>Buffering does not matter\<close>

text \<open>
  An operation that does the same whether the characters before it were written or are still in the
  buffer, and leaves the connection open.
\<close>

definition unbuffered :: "('a, 'e rsp_scheme) act \<Rightarrow> bool" where
  "unbuffered m \<longleftrightarrow> (\<forall>s. rspOpen s \<longrightarrow> fst (m (flushed s)) = fst (m s) \<and>
     flushed (snd (m (flushed s))) = flushed (snd (m s)) \<and> rspOpen (snd (m s)))"

lemma flushed_flushed [simp]: "flushed (flushed s) = flushed s" "rspOpen (flushed s) = rspOpen s"
  by (simp_all add: flushed_def)

lemma flushed_open: "flushed s = flushed t \<Longrightarrow> rspOpen s = rspOpen t"
  using flushed_flushed(2) by metis

lemma unbuffered_same:
  assumes "unbuffered m" "rspOpen s" "flushed s = flushed t"
  shows "fst (m s) = fst (m t) \<and> flushed (snd (m s)) = flushed (snd (m t)) \<and> rspOpen (snd (m s))"
proof -
  have "rspOpen t" using flushed_open [OF assms(3)] assms(2) by simp
  then show ?thesis using assms unfolding unbuffered_def by metis
qed

lemma unbuffered_andThen:
  fixes m :: "('a, 'e rsp_scheme) act" and f :: "'a \<Rightarrow> ('b, 'e rsp_scheme) act"
  assumes "unbuffered m" "\<And>x. unbuffered (f x)"
  shows "unbuffered (andThen m f)"
  unfolding unbuffered_def
proof (intro allI impI)
  fix s :: "'e rsp_scheme"
  assume o: "rspOpen s"
  obtain x a where a: "m s = (x, a)" by (cases "m s")
  obtain y b where b: "m (flushed s) = (y, b)" by (cases "m (flushed s)")
  have h: "y = x" "flushed b = flushed a" "rspOpen a" using assms(1) o a b unfolding unbuffered_def by fastforce+
  have bo: "rspOpen b" using flushed_open [OF h(2)] h(3) by simp
  show "fst (andThen m f (flushed s)) = fst (andThen m f s) \<and>
      flushed (snd (andThen m f (flushed s))) = flushed (snd (andThen m f s)) \<and> rspOpen (snd (andThen m f s))"
  proof (cases x)
    case (Done z)
    then show ?thesis
      using unbuffered_same [OF assms(2) bo h(2), of z] unbuffered_same [OF assms(2) h(3) refl, of z] a b h(1) by (simp add: andThen_def)
  qed (use a b h in \<open>simp_all add: andThen_def\<close>)
qed

lemma unbuffered_sends: "sends m str x \<Longrightarrow> unbuffered m"
  unfolding sends_def unbuffered_def by (metis flushed_flushed fst_conv snd_conv)

lemma unbuffered_txRaw: "unbuffered (txRaw c)"
  by (rule unbuffered_sends [OF sends_txRaw])

lemma unbuffered_flush: "unbuffered rsp_flushTx"
  by (rule unbuffered_sends [OF sends_flush])

lemma unbuffered_sendPacketStr: "unbuffered (rsp_sendPacketStr str)"
  unfolding rsp_sendPacketStr_def by (rule unbuffered_sends [OF sends_packet])

lemma unbuffered_give: "unbuffered (give x)"
  by (rule unbuffered_sends [OF sends_give])

lemma unbuffered_halt: "unbuffered (halt r)"
  by (simp add: unbuffered_def)

text \<open>What the operations do besides sending: they depend on and change only the other fields.\<close>

lemma unbuffered_change:
  assumes "\<And>s. g (flushed s) = flushed (g s)" "\<And>s. rspOpen (g s) = rspOpen s"
  shows "unbuffered (change g)"
  using assms by (simp add: unbuffered_def)

lemma unbuffered_local:
  assumes "\<And>s. m (flushed s) = apsnd flushed (m s)" "\<And>s. rspOpen (snd (m s)) = rspOpen s"
  shows "unbuffered m"
  using assms by (simp add: unbuffered_def)

lemma unbuffered_look: "(\<And>s. f (flushed s) = f s) \<Longrightarrow> unbuffered (look f)"
  by (simp add: unbuffered_def)

named_theorems unbuffered_intros
declare unbuffered_andThen [unbuffered_intros] unbuffered_txRaw [unbuffered_intros] unbuffered_flush [unbuffered_intros]
  unbuffered_sendPacketStr [unbuffered_intros] unbuffered_give [unbuffered_intros] unbuffered_halt [unbuffered_intros]

lemma unbuffered_cases [unbuffered_intros]:
  "(c \<Longrightarrow> unbuffered m1) \<Longrightarrow> (\<not> c \<Longrightarrow> unbuffered m2) \<Longrightarrow> unbuffered (if c then m1 else m2)"
  "unbuffered m1 \<Longrightarrow> (\<And>y. unbuffered (f y)) \<Longrightarrow> unbuffered (case x of None \<Rightarrow> m1 | Some y \<Rightarrow> f y)"
  "unbuffered m1 \<Longrightarrow> (\<And>y ys. unbuffered (g y ys)) \<Longrightarrow> unbuffered (case xs of [] \<Rightarrow> m1 | y # ys \<Rightarrow> g y ys)"
  "(\<And>y. unbuffered (h y)) \<Longrightarrow> (\<And>z. unbuffered (k z)) \<Longrightarrow> unbuffered (case w of Inl y \<Rightarrow> h y | Inr z \<Rightarrow> k z)"
  "(\<And>a b. unbuffered (l a b)) \<Longrightarrow> unbuffered (case q of (a, b) \<Rightarrow> l a b)"
  "(\<And>y. unbuffered (n y)) \<Longrightarrow> unbuffered m1 \<Longrightarrow> unbuffered m2 \<Longrightarrow> unbuffered m3 \<Longrightarrow>
    unbuffered (case r of Done y \<Rightarrow> n y | Failed \<Rightarrow> m1 | Undefined \<Rightarrow> m2 | Unfinished \<Rightarrow> m3)"
  by (simp_all split: option.split list.split sum.split prod.split outcome.split)

lemma unbuffered_choose:
  assumes "\<And>s. k (flushed s) = k s" "\<And>x. unbuffered (f x)"
  shows "unbuffered (\<lambda>s. f (k s) s)"
  using assms by (simp add: unbuffered_def)

text \<open>
  The contract of the layer above: its handler is such an operation. Then it makes no difference
  how the stream from gdb is divided into reads.
\<close>

locale rsp_handler =
  fixes handle :: "string \<Rightarrow> (unit, 'e rsp_scheme) act"
  assumes handle_unbuffered: "unbuffered (handle buf)"
begin

lemma unbuffered_checked: "unbuffered (rsp_checked handle c)"
proof -
  let ?g = "\<lambda>s :: 'e rsp_scheme. s\<lparr>rxReceivedChecksum := rxReceivedChecksum s OR word_of_int (hexChar c)\<rparr>"
  let ?idle = "\<lambda>_ :: unit. change (\<lambda>s :: 'e rsp_scheme. s\<lparr>rxState := RXS_IDLE\<rparr>)"
  let ?f = "\<lambda>(good, buf). andThen (if good then andThen (txRaw CHR ''+'') (\<lambda>_. handle buf) else txRaw CHR ''-'') ?idle"
  have f: "unbuffered (?f x)" for x
    by (cases x) (auto intro!: unbuffered_andThen unbuffered_txRaw handle_unbuffered unbuffered_change simp: flushed_def)
  have k: "unbuffered (\<lambda>s. ?f (rxReceivedChecksum s = rxComputedChecksum s, rxBuf s) s)"
    by (rule unbuffered_choose [where f = ?f, OF _ f]) (simp add: flushed_def)
  have "unbuffered (andThen (change ?g) (\<lambda>_ s. ?f (rxReceivedChecksum s = rxComputedChecksum s, rxBuf s) s))"
    by (rule unbuffered_andThen [OF unbuffered_change k]) (simp_all add: flushed_def)
  moreover have "andThen (change ?g) (\<lambda>_ s. ?f (rxReceivedChecksum s = rxComputedChecksum s, rxBuf s) s) = rsp_checked handle c"
    by (rule ext) (simp add: andThen_Done rsp_checked_def Let_def)
  ultimately show ?thesis by simp
qed

lemma unbuffered_byte: "unbuffered (rsp_byte handle c)"
proof -
  have body: "unbuffered (rsp_body d)" for d
    unfolding rsp_body_def by (intro unbuffered_change) (simp_all add: flushed_def)
  have escaping: "unbuffered (\<lambda>s. rsp_body d (s\<lparr>rxState := RXS_BODY\<rparr>))" for d
    using unbuffered_andThen [OF unbuffered_change body, of "\<lambda>s. s\<lparr>rxState := RXS_BODY\<rparr>" "\<lambda>_. d"]
    by (simp add: flushed_def andThen_def)
  have finished: "unbuffered (\<lambda>s. (Done (), g s))" if "\<And>s. g (flushed s) = flushed (g s)" "\<And>s. rspOpen (g s) = rspOpen s" for g :: "'e rsp_scheme \<Rightarrow> 'e rsp_scheme"
    using unbuffered_change [OF that] by (simp add: change_def)
  let ?f = "\<lambda>st s.
      if c = CHR ''$'' then (Done (), s\<lparr>rxBuf := [], rxState := RXS_BODY, rxComputedChecksum := 0, rxReceivedChecksum := 0\<rparr>)
      else if c = CHR ''#'' \<and> (st = RXS_BODY \<or> st = RXS_BODY_ESCAPING) then (Done (), s\<lparr>rxState := RXS_CHECK_1\<rparr>)
      else if c = CHR ''}'' \<and> (st = RXS_BODY \<or> st = RXS_BODY_ESCAPING) then (Done (), s\<lparr>rxState := RXS_BODY_ESCAPING\<rparr>)
      else case st of RXS_BODY_ESCAPING \<Rightarrow> rsp_body (xor_20 c) (s\<lparr>rxState := RXS_BODY\<rparr>) | RXS_BODY \<Rightarrow> rsp_body c s
         | RXS_CHECK_1 \<Rightarrow> (Done (), s\<lparr>rxReceivedChecksum := word_of_int (hexChar c * 16), rxState := RXS_CHECK_2\<rparr>)
         | RXS_CHECK_2 \<Rightarrow> rsp_checked handle c s | RXS_IDLE \<Rightarrow> (Done (), s)"
  have stay: "unbuffered (\<lambda>s :: 'e rsp_scheme. (Done (), s))" by (rule unbuffered_give [unfolded give_def])
  have f: "unbuffered (?f st)" for st
    using unbuffered_checked [of c] body [of c] escaping [of "xor_20 c"]
    by (cases "c = CHR ''$''"; cases "c = CHR ''#''"; cases "c = CHR ''}''"; cases st) (auto intro!: finished simp: flushed_def stay)
  have "unbuffered (\<lambda>s. ?f (rxState s) s)"
    by (rule unbuffered_choose [where f = ?f, OF _ f]) (simp add: flushed_def)
  then show ?thesis unfolding rsp_byte_def .
qed

lemma unbuffered_bytes: "unbuffered (rsp_bytes handle buf)"
  by (induction buf) (simp_all only: rsp_bytes.simps unbuffered_give unbuffered_andThen unbuffered_byte)

lemma bytes_append: "rsp_bytes handle (a @ b) = andThen (rsp_bytes handle a) (\<lambda>_. rsp_bytes handle b)"
  by (induction a) (simp_all add: andThen_assoc, simp add: andThen_def fun_eq_iff)

text \<open>Flushing at the end of a read changes nothing that matters.\<close>

lemma session_bytes:
  "rspOpen s \<Longrightarrow> fst (rsp_session handle reads s) = fst (rsp_bytes handle (concat reads) s) \<and>
    flushed (snd (rsp_session handle reads s)) = flushed (snd (rsp_bytes handle (concat reads) s))"
proof (induction reads arbitrary: s)
  case (Cons d reads)
  obtain x a where a: "rsp_bytes handle d s = (x, a)" by (cases "rsp_bytes handle d s")
  have o: "rspOpen a" using unbuffered_same [OF unbuffered_bytes Cons.prems refl, of d] a by simp
  show ?case
  proof (cases x)
    case (Done u)
    have r: "rsp_receiveBuf handle d s = (Done (), flushed a)"
      using a Done rsp_flushTx_open [OF o] by (simp add: rsp_receiveBuf_def andThen_def)
    have "rsp_session handle (d # reads) s = rsp_session handle reads (flushed a)"
      using r by (simp add: andThen_def)
    moreover have "rsp_bytes handle (concat (d # reads)) s = rsp_bytes handle (concat reads) a"
      using a Done by (simp add: bytes_append andThen_def)
    moreover have "rspOpen (flushed a)" using o by simp
    ultimately show ?thesis
      using Cons.IH [of "flushed a"] unbuffered_same [OF unbuffered_bytes o, of "flushed a" "concat reads"] by simp
  qed (use a in \<open>simp_all add: bytes_append andThen_def rsp_receiveBuf_def\<close>)
qed simp

lemma any_division:
  assumes "rspOpen s" "concat reads = concat reads'"
  shows "fst (rsp_session handle reads s) = fst (rsp_session handle reads' s) \<and>
    flushed (snd (rsp_session handle reads s)) = flushed (snd (rsp_session handle reads' s))"
  using session_bytes [OF assms(1), of reads] session_bytes [OF assms(1), of reads'] assms(2) by simp

end

end
