(* ===== verification/Gdb_Breakpoints.thy ===== *)
theory Gdb_Breakpoints
  imports Rsp_Protocol Parser_Programs
begin

text \<open>
  The breakpoints of the gdb bridge (\<open>rvd/gdb/rsp-breakpoints.c\<close>). The state \<open>gdb\<close> extends that of
  the packet layer with the variables of the bridge and the environment of the evaluator; the
  memory map file is what the definitions of the environment say.
\<close>

record breakpoint =
  brk_active :: bool
  brk_type :: nat
  brk_addr :: u32
  brk_data :: u32

record 'w gdb = rsp +
  attached :: bool
  breakpointReg :: "breakpoint list"
  hwBreakpointsInUse :: u32
  g_env :: "'w env"

definition MAX_BREAKPOINTS :: nat where
  "MAX_BREAKPOINTS = 1024"

section \<open>Definitions, evaluation and bus accesses\<close>

text \<open>\<open>evaluate(..) < 1\<close> and \<open>defs_register(..) < 0\<close> end an operation with \<open>-1\<close>.\<close>

definition on_env :: "('a, 'w) ev \<Rightarrow> ('a, 'w gdb) act" where
  "on_env m = (\<lambda>s. case m (g_env s) of (r, e) \<Rightarrow>
     (case r of Ret x \<Rightarrow> Done x | Fail _ _ \<Rightarrow> Failed | Fatal \<Rightarrow> Failed | Undef \<Rightarrow> Undefined | NoFuel \<Rightarrow> Unfinished, s\<lparr>g_env := e\<rparr>))"

definition gdb_evaluate :: "'w net \<Rightarrow> nat \<Rightarrow> string \<Rightarrow> (value_t, 'w gdb) act" where
  "gdb_evaluate net n str = on_env (evaluate net n str)"

definition gdb_define :: "string \<Rightarrow> string \<Rightarrow> (unit, 'w gdb) act" where
  "gdb_define name str = (\<lambda>s. case defs_register 0xFFFFFFFF name str (e_defs (g_env s)) of (r, d) \<Rightarrow>
     (if r < 0 then Failed else Done (), s\<lparr>g_env := (g_env s)\<lparr>e_defs := d\<rparr>\<rparr>))"

text \<open>An access returns what was read, or the fault code; \<open>True\<close> stands for the return value 1.\<close>

fun bus_outcome :: "'a bus_result \<Rightarrow> ('a + u32) outcome" where
  "bus_outcome (BusOk x) = Done (Inl x)"
| "bus_outcome (BusFault f) = Done (Inr f)"
| "bus_outcome BusFatal = Failed"
| "bus_outcome BusIndeterminate = Undefined"

definition on_bus :: "('w \<Rightarrow> 'a bus_result \<times> 'w) \<Rightarrow> ('a + u32, 'w gdb) act" where
  "on_bus m = (\<lambda>s. case m (e_world (g_env s)) of (r, w) \<Rightarrow> (bus_outcome r, s\<lparr>g_env := (g_env s)\<lparr>e_world := w\<rparr>\<rparr>))"

text \<open>An address as gdb knows it, translated by the memory map: \<open>_GDB_ADDR_R\<close> or \<open>_GDB_ADDR_W\<close>.\<close>

definition translate :: "'w net \<Rightarrow> nat \<Rightarrow> string \<Rightarrow> u32 \<Rightarrow> (u32, 'w gdb) act" where
  "translate net n name addr =
     andThen (gdb_define ''_GDB_ADDR'' (hex8 addr)) (\<lambda>_.
     andThen (gdb_evaluate net n name) (\<lambda>v. give (v_value v)))"

section \<open>The registry\<close>

text \<open>The slot at which the search stops, an empty or a matching one.\<close>

fun find_slot :: "nat \<Rightarrow> u32 \<Rightarrow> bool \<Rightarrow> breakpoint list \<Rightarrow> nat option" where
  "find_slot ty addr ins [] = None"
| "find_slot ty addr ins (b # bs) =
     (if (if ins then \<not> brk_active b else brk_active b \<and> brk_type b = ty \<and> brk_addr b = addr) then Some 0
      else map_option Suc (find_slot ty addr ins bs))"

definition free_hw_slot :: "u32 \<Rightarrow> nat option" where
  "free_hw_slot used = find (\<lambda>j. \<not> bit used j) [0..<32]"

definition occupy :: "nat \<Rightarrow> nat \<Rightarrow> u32 \<Rightarrow> nat option \<Rightarrow> (unit, 'w gdb) act" where
  "occupy i ty addr hwSlot = change (\<lambda>s. s\<lparr>
     breakpointReg := (breakpointReg s)[i := \<lparr>brk_active = True, brk_type = ty, brk_addr = addr,
       brk_data = (case hwSlot of None \<Rightarrow> brk_data (breakpointReg s ! i) | Some j \<Rightarrow> of_nat j)\<rparr>],
     hwBreakpointsInUse := (case hwSlot of None \<Rightarrow> hwBreakpointsInUse s | Some j \<Rightarrow> hwBreakpointsInUse s OR push_bit j 1)\<rparr>)"

definition store_data :: "nat \<Rightarrow> u32 \<Rightarrow> (unit, 'w gdb) act" where
  "store_data i v = change (\<lambda>s. s\<lparr>breakpointReg := (breakpointReg s)[i := (breakpointReg s ! i)\<lparr>brk_data := v\<rparr>]\<rparr>)"

definition release :: "nat \<Rightarrow> (unit, 'w gdb) act" where
  "release i = change (\<lambda>s. s\<lparr>breakpointReg := (breakpointReg s)[i := (breakpointReg s ! i)\<lparr>brk_active := False\<rparr>]\<rparr>)"

section \<open>Setting and removing\<close>

definition set_software :: "'w net \<Rightarrow> nat \<Rightarrow> nat \<Rightarrow> u32 \<Rightarrow> (nat, 'w gdb) act" where
  "set_software net n i addr =
     andThen (translate net n ''_GDB_ADDR_R'' addr) (\<lambda>rdAddr.
     andThen (on_bus (rvsrv_readSingle net (rdAddr AND NOT 3) 4)) (\<lambda>r.
     andThen (store_data i (case r of Inl v \<Rightarrow> v | Inr f \<Rightarrow> f)) (\<lambda>_.
     case r of Inr f \<Rightarrow> give 0
     | Inl v \<Rightarrow>
         andThen (translate net n ''_GDB_ADDR_W'' addr) (\<lambda>wrAddr.
         andThen (gdb_define ''_GDB_SOFTBRK_ADDR'' (hex8 addr)) (\<lambda>_.
         andThen (gdb_define ''_GDB_SOFTBRK_SYL'' (hex8 v)) (\<lambda>_.
         andThen (gdb_evaluate net n ''_GDB_SOFTBRK'') (\<lambda>syll.
         andThen (on_bus (rvsrv_writeSingle net (wrAddr AND NOT 3) (v_value syll) 4)) (\<lambda>r.
         give (case r of Inl _ \<Rightarrow> 1 | Inr _ \<Rightarrow> 0)))))))))"

text \<open>Both directions of a hardware breakpoint; the type is 0 to remove it.\<close>

definition change_hardware :: "'w net \<Rightarrow> nat \<Rightarrow> string \<Rightarrow> u32 \<Rightarrow> u32 \<Rightarrow> (nat, 'w gdb) act" where
  "change_hardware net n ty index addr =
     andThen (gdb_define ''_GDB_HARDBRK_TYPE'' ty) (\<lambda>_.
     andThen (gdb_define ''_GDB_HARDBRK_INDEX'' (hex8 index)) (\<lambda>_.
     andThen (gdb_define ''_GDB_HARDBRK_ADDR'' (hex8 addr)) (\<lambda>_.
     andThen (gdb_evaluate net n ''_GDB_HARDBRK'') (\<lambda>result.
     give (if v_value result \<noteq> 0 then 1 else 0)))))"

definition remove_software :: "'w net \<Rightarrow> nat \<Rightarrow> nat \<Rightarrow> u32 \<Rightarrow> (nat, 'w gdb) act" where
  "remove_software net n i addr =
     andThen (translate net n ''_GDB_ADDR_W'' addr) (\<lambda>wrAddr.
     andThen (look (\<lambda>s. brk_data (breakpointReg s ! i))) (\<lambda>v.
     andThen (on_bus (rvsrv_writeSingle net (wrAddr AND NOT 3) v 4)) (\<lambda>r.
     case r of Inr _ \<Rightarrow> give 0 | Inl _ \<Rightarrow> andThen (release i) (\<lambda>_. give 1))))"

text \<open>
  The return value is 0 or 1. A hardware breakpoint that is removed returns before its slot and its
  index are given back.
\<close>

definition gdb_breakpoint :: "'w net \<Rightarrow> nat \<Rightarrow> nat \<Rightarrow> u32 \<Rightarrow> bool \<Rightarrow> (nat, 'w gdb) act" where
  "gdb_breakpoint net n ty addr ins =
     andThen (look (\<lambda>s. find_slot ty addr ins (breakpointReg s))) (\<lambda>slot.
     case slot of None \<Rightarrow> give 0
     | Some i \<Rightarrow>
         if ins then
           if ty = 0 then andThen (occupy i ty addr None) (\<lambda>_. set_software net n i addr)
           else andThen (look (\<lambda>s. free_hw_slot (hwBreakpointsInUse s))) (\<lambda>hwSlot.
             case hwSlot of None \<Rightarrow> give 0
             | Some j \<Rightarrow> andThen (occupy i ty addr (Some j)) (\<lambda>_. change_hardware net n (hex8 (of_nat ty)) (of_nat j) addr))
         else
           if ty = 0 then remove_software net n i addr
           else andThen (look (\<lambda>s. brk_data (breakpointReg s ! i))) (\<lambda>index. change_hardware net n ''0'' index addr))"

section \<open>Hardware slots\<close>

text \<open>
  Only a hardware breakpoint that is set changes the used indices, and it takes a free one. Nothing
  gives an index back.
\<close>

definition keeps_hw :: "('a, 'w gdb) act \<Rightarrow> bool" where
  "keeps_hw m \<longleftrightarrow> (\<forall>s. hwBreakpointsInUse (snd (m s)) = hwBreakpointsInUse s)"

named_theorems hw_intros

lemma keeps_hw_andThen [hw_intros]: "keeps_hw m \<Longrightarrow> (\<And>x. keeps_hw (f x)) \<Longrightarrow> keeps_hw (andThen m f)"
  unfolding keeps_hw_def andThen_def by (auto split: prod.split outcome.split) (metis snd_conv)+

lemma keeps_hw_steps [hw_intros]:
  "keeps_hw (give x)" "keeps_hw (look f)" "keeps_hw (gdb_evaluate net n str)" "keeps_hw (gdb_define name str)" "keeps_hw (on_bus m)"
  "keeps_hw (store_data i v)" "keeps_hw (release i)" "keeps_hw (occupy i ty addr None)"
  by (simp_all add: keeps_hw_def give_def look_def gdb_evaluate_def on_env_def gdb_define_def on_bus_def store_data_def release_def
      occupy_def change_def split: prod.split)

lemma keeps_hw_cases [hw_intros]:
  "(\<And>y. keeps_hw (f y)) \<Longrightarrow> (\<And>z. keeps_hw (g z)) \<Longrightarrow> keeps_hw (case x of Inl y \<Rightarrow> f y | Inr z \<Rightarrow> g z)"
  by (cases x) simp_all

lemma keeps_hw_operations:
  "keeps_hw (set_software net n i addr)" "keeps_hw (change_hardware net n ty index addr)" "keeps_hw (remove_software net n i addr)"
  unfolding set_software_def change_hardware_def remove_software_def translate_def by (intro hw_intros)+

definition free_hw :: "u32 \<Rightarrow> nat" where
  "free_hw used = card {j. j < 32 \<and> \<not> bit used j}"

lemma free_hw_slot_Some: "free_hw_slot used = Some j \<Longrightarrow> j < 32 \<and> \<not> bit used j"
  by (auto simp: free_hw_slot_def find_Some_iff)

lemma free_hw_taken:
  assumes "free_hw_slot used = Some j"
  shows "Suc (free_hw (used OR push_bit j 1)) = free_hw used"
proof -
  note j = free_hw_slot_Some [OF assms]
  have "{i. i < 32 \<and> \<not> bit (used OR push_bit j 1) i} = {i. i < 32 \<and> \<not> bit used i} - {j}"
    by (auto simp: bit_simps)
  then show ?thesis using j unfolding free_hw_def by (simp add: card.remove [symmetric] card_Suc_Diff1 del: card_Diff_insert)
qed

lemma hw_step:
  assumes "gdb_breakpoint net n ty addr ins s = (r, s')"
  shows "free_hw (hwBreakpointsInUse s') + of_bool (ins \<and> 0 < ty \<and> r = Done 1) \<le> free_hw (hwBreakpointsInUse s)"
proof (cases "find_slot ty addr ins (breakpointReg s)")
  case None
  then show ?thesis using assms by (auto simp: gdb_breakpoint_def andThen_Done)
next
  case (Some i)
  show ?thesis
  proof (cases "ins \<and> 0 < ty")
    case hw: True
    show ?thesis
    proof (cases "free_hw_slot (hwBreakpointsInUse s)")
      case None
      with Some hw assms show ?thesis by (auto simp: gdb_breakpoint_def andThen_Done)
    next
      case slot: (Some j)
      let ?s1 = "snd (occupy i ty addr (Some j) s)"
      from Some hw slot assms have "change_hardware net n (hex8 (of_nat ty)) (of_nat j) addr ?s1 = (r, s')"
        by (auto simp: gdb_breakpoint_def andThen_Done occupy_def)
      then have "hwBreakpointsInUse s' = hwBreakpointsInUse s OR push_bit j 1"
        using keeps_hw_operations(2) [unfolded keeps_hw_def, rule_format, of net n "hex8 (of_nat ty)" "of_nat j" addr ?s1]
        by (simp add: occupy_def)
      with free_hw_taken [OF slot] show ?thesis by simp
    qed
  next
    case False
    have "keeps_hw (if ins then andThen (occupy i ty addr None) (\<lambda>_. set_software net n i addr)
        else if ty = 0 then remove_software net n i addr
        else andThen (look (\<lambda>s. brk_data (breakpointReg s ! i))) (\<lambda>index. change_hardware net n ''0'' index addr))"
      by (simp split del: if_split split: if_split) (intro conjI impI hw_intros keeps_hw_operations)
    with False Some assms show ?thesis
      by (auto simp: gdb_breakpoint_def andThen_Done keeps_hw_def split: if_splits dest!: spec [of _ s])
  qed
qed

fun hw_sets :: "'w net \<Rightarrow> nat \<Rightarrow> (nat \<times> u32 \<times> bool) list \<Rightarrow> 'w gdb \<Rightarrow> nat" where
  "hw_sets net n [] s = 0"
| "hw_sets net n ((ty, addr, ins) # calls) s = (case gdb_breakpoint net n ty addr ins s of (r, s') \<Rightarrow>
     of_bool (ins \<and> 0 < ty \<and> r = Done 1) + hw_sets net n calls s')"

text \<open>
  C12. However breakpoints and watchpoints are set and removed, and whatever the memory map and the
  target answer, a run of the debugger sets at most 32 hardware breakpoints, and at most as many as
  there are unused indices: a removal never gives its index back.
\<close>

theorem hardware_indices_are_never_freed:
  "hw_sets net n calls s \<le> free_hw (hwBreakpointsInUse s) \<and> free_hw (hwBreakpointsInUse s) \<le> 32"
proof
  show "hw_sets net n calls s \<le> free_hw (hwBreakpointsInUse s)"
  proof (induction net n calls s rule: hw_sets.induct)
    case (2 net n ty addr ins calls s)
    obtain r s' where step: "gdb_breakpoint net n ty addr ins s = (r, s')" by (cases "gdb_breakpoint net n ty addr ins s")
    from hw_step [OF step] 2 [OF step [symmetric]] step show ?case by simp
  qed simp
  have "free_hw (hwBreakpointsInUse s) \<le> card {j :: nat. j < 32}" unfolding free_hw_def by (rule card_mono) auto
  then show "free_hw (hwBreakpointsInUse s) \<le> 32" by simp
qed

end
