(* ===== verification/Gdb_Commands.thy ===== *)
theory Gdb_Commands
  imports Gdb_Breakpoints
begin

text \<open>
  The commands of the gdb remote serial protocol (\<open>rvd/gdb/rsp-commands.c\<close>), as the handler of the
  packet layer. The buffer is followed by a NUL; the string functions see it up to the first NUL.
\<close>

section \<open>Reading the packet\<close>

fun matchCommand :: "string \<Rightarrow> string \<Rightarrow> bool" where
  "matchCommand buf [] = True"
| "matchCommand [] (c # command) = False"
| "matchCommand (b # buf) (c # command) = (b = c \<and> matchCommand buf command)"

definition c_string :: "string \<Rightarrow> string" where
  "c_string buf = takeWhile (\<lambda>c. c \<noteq> CHR 0x00) buf"

text \<open>\<open>sscanf\<close> with conversions \<open>%x\<close> that are separated by one character each.\<close>

fun scan_fields :: "string \<Rightarrow> string \<Rightarrow> u32 list option" where
  "scan_fields [] str = map_option (\<lambda>(v, _). [v]) (scan_hex str)"
| "scan_fields (c # cs) str =
     (case scan_hex str of None \<Rightarrow> None
      | Some (v, r) \<Rightarrow> if peek r = c \<and> r \<noteq> [] then map_option (\<lambda>vs. v # vs) (scan_fields cs (tl r)) else None)"

text \<open>\<open>sscanf(strPtr, "%02hhx", dataPtr)\<close>: white space, then at most two characters.\<close>

definition scan_hex2 :: "string \<Rightarrow> u8 option" where
  "scan_hex2 str = map_option (\<lambda>(v, _). ucast v) (scan_hex (take 2 (dropWhile isspace str)))"

text \<open>
  The data of a write, from position \<open>p\<close> of the buffer. Two characters are skipped for each byte,
  whatever was scanned; behind the terminator is what an earlier packet has left.
\<close>

fun scan_data_bytes :: "nat \<Rightarrow> string \<Rightarrow> nat \<Rightarrow> u8 list option outcome" where
  "scan_data_bytes 0 buf p = Done (Some [])"
| "scan_data_bytes (Suc n) buf p =
     (if p > length buf then Undefined
      else case scan_hex2 (c_string (drop p buf)) of
          None \<Rightarrow> Done None
        | Some b \<Rightarrow> (case scan_data_bytes n buf (p + 2) of
              Done (Some bs) \<Rightarrow> Done (Some (b # bs)) | r \<Rightarrow> r))"

section \<open>Replies\<close>

definition reply :: "string \<Rightarrow> (unit, 'w gdb) act" where
  "reply str = rsp_sendPacketStr str"

text \<open>\<open>%02x\<close>, \<open>%04x\<close> and \<open>%08x\<close>: at least that many digits.\<close>

definition lower :: "char \<Rightarrow> char" where
  "lower c = (if isupper c then char_of (of_char c + 32 :: nat) else c)"

definition hex_least :: "nat \<Rightarrow> u32 \<Rightarrow> string" where
  "hex_least w v = pad_left w CHR ''0'' (map lower (hexN (unat v)))"

definition tgtWait :: "'w net \<Rightarrow> nat \<Rightarrow> (unit, 'w gdb) act" where
  "tgtWait net n =
     andThen (look attached) (\<lambda>att.
     if \<not> att then reply ''X09''
     else andThen rsp_flushTx (\<lambda>_.
       andThen (gdb_evaluate net n ''_WAIT'') (\<lambda>v.
         if v_value v > 0x202 then halt Failed
         else if v_value v < 0x100 then reply (''W'' @ hex_least 2 (v_value v))
         else if v_value v < 0x200 then reply ''T05watch:0;''
         else reply ''S05'')))"

section \<open>Commands\<close>

definition perform :: "'w net \<Rightarrow> nat \<Rightarrow> string \<Rightarrow> (unit, 'w gdb) act" where
  "perform net n str = andThen (gdb_evaluate net n str) (\<lambda>_. give ())"

definition set_attached :: "bool \<Rightarrow> (unit, 'w gdb) act" where
  "set_attached b = change (\<lambda>s. s\<lparr>attached := b\<rparr>)"

definition select_thread :: "string \<Rightarrow> (unit, 'w gdb) act" where
  "select_thread buf =
     (if peek (drop 1 buf) \<noteq> CHR ''c'' \<and> peek (drop 1 buf) \<noteq> CHR ''g'' then reply []
      else if length buf = 3 \<and> buf ! 2 = CHR ''0'' then reply ''OK''
      else if length buf = 4 \<and> buf ! 2 = CHR ''-'' \<and> buf ! 3 = CHR ''1'' then reply ''OK''
      else reply [])"

definition step_or_continue :: "'w net \<Rightarrow> nat \<Rightarrow> string \<Rightarrow> (unit, 'w gdb) act" where
  "step_or_continue net n buf =
     (let go = andThen (perform net n (if matchCommand buf ''c'' then ''_RESUME'' else ''_STEP'')) (\<lambda>_. tgtWait net n) in
      if length buf > 1 then
        (case scan_hex (c_string (drop 1 buf)) of
           None \<Rightarrow> reply ''E01''
         | Some (jumpAddr, _) \<Rightarrow>
             andThen (gdb_define ''_GDB_REG_VALUE'' (hex8 jumpAddr)) (\<lambda>_.
             andThen (perform net n ''_GDB_REG_JMP'') (\<lambda>_. go)))
      else go)"

definition hex_text :: "u8 list \<Rightarrow> string" where
  "hex_text bs = concat (map (\<lambda>b. hexL 2 (unat b)) bs)"

definition read_memory :: "'w net \<Rightarrow> nat \<Rightarrow> string \<Rightarrow> (unit, 'w gdb) act" where
  "read_memory net n buf =
     (case scan_fields '','' (c_string (drop 1 buf)) of
        Some [addr, sz] \<Rightarrow>
          if sz > 4096 then reply ''E01''
          else andThen (translate net n ''_GDB_ADDR_R'' addr) (\<lambda>a.
               andThen (on_bus (rvsrv_readBulk net a (unat sz))) (\<lambda>r.
               case r of Inr _ \<Rightarrow> reply ''E01''
               | Inl data \<Rightarrow>
                   if None \<in> set data then halt Undefined
                   else reply (if sz = 0 then hex8 addr else hex_text (map the data))))
      | _ \<Rightarrow> reply ''E01'')"

definition write_bytes :: "'w net \<Rightarrow> nat \<Rightarrow> u32 \<Rightarrow> u8 list \<Rightarrow> (unit, 'w gdb) act" where
  "write_bytes net n addr data =
     andThen (translate net n ''_GDB_ADDR_W'' addr) (\<lambda>a.
     andThen (on_bus (rvsrv_writeBulk net a data)) (\<lambda>r.
     case r of Inr _ \<Rightarrow> reply ''E05'' | Inl _ \<Rightarrow> reply ''OK''))"

text \<open>Without a colon \<open>strPtr\<close> is the null pointer plus one, which the code does not notice.\<close>

definition write_memory :: "'w net \<Rightarrow> nat \<Rightarrow> string \<Rightarrow> (unit, 'w gdb) act" where
  "write_memory net n buf =
     (case scan_fields '','' (c_string (drop 1 buf)) of
        Some [addr, sz] \<Rightarrow>
          if sz > 4096 then reply ''E02''
          else (let str = c_string buf; before = takeWhile (\<lambda>c. c \<noteq> CHR '':'') str in
            if before = str then (if sz = 0 then write_bytes net n addr [] else halt Undefined)
            else case scan_data_bytes (unat sz) buf (length before + 1) of
                Done (Some data) \<Rightarrow> write_bytes net n addr data
              | Done None \<Rightarrow> reply ''E04''
              | _ \<Rightarrow> halt Undefined)
      | _ \<Rightarrow> reply ''E01'')"

text \<open>
  The registers one after the other: each is printed at \<open>strPtr\<close>, which then moves on by the digits
  that the size of the value has.
\<close>

definition size_digits :: "access_size \<Rightarrow> nat" where
  "size_digits sz = (if sz = AS_BYTE then 2 else if sz = AS_HALF then 4 else 8)"

fun read_registers :: "'w net \<Rightarrow> nat \<Rightarrow> nat \<Rightarrow> nat \<Rightarrow> string \<Rightarrow> nat \<Rightarrow> (string, 'w gdb) act" where
  "read_registers net n 0 reg str p = give str"
| "read_registers net n (Suc k) reg str p =
     andThen (gdb_define ''_GDB_REG_INDEX'' (hex8 (of_nat reg))) (\<lambda>_.
     andThen (gdb_evaluate net n ''_GDB_REG_R'') (\<lambda>v.
       read_registers net n k (reg + 1) (take p str @ hex_least (size_digits (v_size v)) (v_value v)) (p + size_digits (v_size v))))"

definition query_registers :: "'w net \<Rightarrow> nat \<Rightarrow> (unit, 'w gdb) act" where
  "query_registers net n =
     andThen (perform net n ''_GDB_REG_PRE'') (\<lambda>_.
     andThen (gdb_evaluate net n ''_GDB_REG_NUM'') (\<lambda>v.
       if sint (v_value v) < 0 \<or> sint (v_value v) > 1024 then halt Failed
       else if v_value v = 0 then halt Undefined
       else andThen (read_registers net n (unat (v_value v)) 0 [] 0) reply))"

definition write_register :: "'w net \<Rightarrow> nat \<Rightarrow> string \<Rightarrow> (unit, 'w gdb) act" where
  "write_register net n buf =
     andThen (gdb_evaluate net n ''_GDB_REG_NUM'') (\<lambda>v.
       if sint (v_value v) < 0 \<or> sint (v_value v) > 1024 then halt Failed
       else case scan_fields ''='' (c_string (drop 1 buf)) of
           Some [reg, x] \<Rightarrow>
             if reg \<ge> v_value v then reply ''E02''
             else andThen (gdb_define ''_GDB_REG_INDEX'' (hex8 reg)) (\<lambda>_.
                  andThen (gdb_define ''_GDB_REG_VALUE'' (hex8 x)) (\<lambda>_.
                  andThen (perform net n ''_GDB_REG_W'') (\<lambda>_. reply ''OK'')))
         | _ \<Rightarrow> reply ''E01'')"

definition change_breakpoint :: "'w net \<Rightarrow> nat \<Rightarrow> string \<Rightarrow> (unit, 'w gdb) act" where
  "change_breakpoint net n buf =
     (case scan_fields '',,'' (c_string (drop 1 buf)) of
        Some [ty, addr, kind] \<Rightarrow>
          if ty > 4 then reply ''E02''
          else if CHR '';'' \<in> set (c_string buf) then reply ''E03''
          else if ty < 2 \<and> kind \<noteq> 4 then reply ''E04''
          else if \<not> ty < 2 \<and> kind \<noteq> 4 \<and> kind \<noteq> 2 \<and> kind \<noteq> 1 then reply ''E05''
          else andThen (gdb_breakpoint net n (unat ty) addr (buf ! 0 = CHR ''Z'')) (\<lambda>r. reply (if r = 0 then ''E06'' else ''OK''))
      | _ \<Rightarrow> reply ''E01'')"

definition rsp_handlePacket :: "'w net \<Rightarrow> nat \<Rightarrow> string \<Rightarrow> (unit, 'w gdb) act" where
  "rsp_handlePacket net n buf =
     (if matchCommand buf ''qSupported'' then reply ''PacketSize=2000''
      else if matchCommand buf ''qAttached'' then andThen (look attached) (\<lambda>a. reply (if a then ''1'' else ''0''))
      else if matchCommand buf ''qSymbol'' then reply ''OK''
      else if matchCommand buf ''qOffsets'' then reply ''Text=0;Data=0;Bss=0''
      else if matchCommand buf ''!'' then reply ''OK''
      else if matchCommand buf ''D'' then andThen (set_attached False) (\<lambda>_. andThen (perform net n ''_RELEASE'') (\<lambda>_. reply ''OK''))
      else if matchCommand buf ''H'' then select_thread buf
      else if matchCommand buf ''?'' then tgtWait net n
      else if matchCommand buf ''vRun'' then andThen (set_attached True) (\<lambda>_. andThen (perform net n ''_RESET'') (\<lambda>_. tgtWait net n))
      else if matchCommand buf ''vKill'' then andThen (set_attached False) (\<lambda>_. reply ''OK'')
      else if matchCommand buf ''vAttach'' then reply ''E01''
      else if matchCommand buf ''R'' then andThen (perform net n ''_RESET'') (\<lambda>_. reply [])
      else if matchCommand buf ''c'' \<or> matchCommand buf ''s'' then step_or_continue net n buf
      else if matchCommand buf ''m'' then read_memory net n buf
      else if matchCommand buf ''M'' then write_memory net n buf
      else if matchCommand buf ''g'' then query_registers net n
      else if matchCommand buf ''P'' then write_register net n buf
      else if matchCommand buf ''Z'' \<or> matchCommand buf ''z'' then change_breakpoint net n buf
      else reply [])"

section \<open>The handler does not depend on the transmit buffer\<close>

lemma flushed_fields [simp]:
  "attached (flushed s) = attached s" "breakpointReg (flushed s) = breakpointReg s"
  "hwBreakpointsInUse (flushed s) = hwBreakpointsInUse s" "g_env (flushed s) = g_env s"
  by (simp_all add: flushed_def)

lemma unbuffered_env [unbuffered_intros]:
  "unbuffered (gdb_evaluate net n str)" "unbuffered (gdb_define name str)" "unbuffered (on_bus m)"
  by (rule unbuffered_local; simp add: gdb_evaluate_def on_env_def gdb_define_def on_bus_def flushed_def split: prod.split)+

lemma unbuffered_occupy [unbuffered_intros]: "unbuffered (occupy i ty addr j)"
  unfolding occupy_def by (rule unbuffered_change; cases j; simp add: flushed_def)

lemma unbuffered_registry [unbuffered_intros]:
  "unbuffered (store_data i v)" "unbuffered (release i)" "unbuffered (set_attached b)"
  unfolding store_data_def release_def set_attached_def by (rule unbuffered_change; simp add: flushed_def)+

lemma unbuffered_looks [unbuffered_intros]:
  "unbuffered (look attached)" "unbuffered (look (\<lambda>s. find_slot ty addr ins (breakpointReg s)))"
  "unbuffered (look (\<lambda>s. free_hw_slot (hwBreakpointsInUse s)))" "unbuffered (look (\<lambda>s. brk_data (breakpointReg s ! i)))"
  by (rule unbuffered_look; simp)+

lemma unbuffered_reply [unbuffered_intros]: "unbuffered (reply str)"
  unfolding reply_def by (rule unbuffered_sendPacketStr)

lemma unbuffered_translate [unbuffered_intros]: "unbuffered (translate net n name addr)" "unbuffered (perform net n str)"
  unfolding translate_def perform_def by (intro unbuffered_intros)+

lemma unbuffered_wait [unbuffered_intros]: "unbuffered (tgtWait net n)"
  unfolding tgtWait_def by (intro unbuffered_intros)

lemma unbuffered_breakpoint [unbuffered_intros]: "unbuffered (gdb_breakpoint net n ty addr ins)"
  unfolding gdb_breakpoint_def set_software_def change_hardware_def remove_software_def
  by (intro unbuffered_intros)

lemma unbuffered_read_registers [unbuffered_intros]: "unbuffered (read_registers net n k reg str p)"
proof (induction k arbitrary: reg str p)
  case (Suc k)
  show ?case unfolding read_registers.simps by (intro unbuffered_intros Suc)
qed (simp only: read_registers.simps unbuffered_give)

lemma unbuffered_commands [unbuffered_intros]:
  "unbuffered (select_thread buf)" "unbuffered (step_or_continue net n buf)" "unbuffered (read_memory net n buf)"
  "unbuffered (write_bytes net n addr data)" "unbuffered (query_registers net n)"
  "unbuffered (write_register net n buf)" "unbuffered (change_breakpoint net n buf)"
  unfolding select_thread_def step_or_continue_def read_memory_def write_bytes_def query_registers_def write_register_def
    change_breakpoint_def Let_def
  by (intro unbuffered_intros)+

lemma unbuffered_write_memory [unbuffered_intros]: "unbuffered (write_memory net n buf)"
  unfolding write_memory_def Let_def
  by (intro unbuffered_intros)

lemma unbuffered_handlePacket: "unbuffered (rsp_handlePacket net n buf)"
  unfolding rsp_handlePacket_def by (intro unbuffered_intros)

interpretation bridge: rsp_handler "rsp_handlePacket net n" for net n
  by unfold_locales (rule unbuffered_handlePacket)

text \<open>
  C10. How the stream from gdb is cut into reads (in the middle of a packet, of an escape, of a
  checksum, or several packets at once) makes no difference: for every way to divide it the bridge
  ends with the same result, the same state of the debugger and the target, and the same bytes sent
  to gdb.
\<close>

theorem gdb_reads_any_division:
  assumes "rspOpen s" and "concat reads = concat reads'"
  shows "fst (rsp_session (rsp_handlePacket net n) reads s) = fst (rsp_session (rsp_handlePacket net n) reads' s) \<and>
    flushed (snd (rsp_session (rsp_handlePacket net n) reads s)) = flushed (snd (rsp_session (rsp_handlePacket net n) reads' s))"
  using assms by (rule bridge.any_division)

definition demo_bridge :: "server gdb" where
  "demo_bridge = \<lparr>rxBuf = [], rxState = RXS_IDLE, rxComputedChecksum = 0, rxReceivedChecksum = 0, txBuf = [], rspConn = [], rspOpen = True,
     attached = True, breakpointReg = [], hwBreakpointsInUse = 0, g_env = demo_env\<rparr>"

text \<open>\<open>$qAttached#8f\<close>, answered with \<open>+$1#31\<close>\<close>

lemma demo_attached:
  "rspConn (flushed (snd (rsp_session (rsp_handlePacket server_net n) [''$qAttached#8f''] demo_bridge))) = ''+$1#31''"
proof -
  let ?h = "rsp_handlePacket server_net n" and ?r = "packet_received ''qAttached'' demo_bridge"
  have packets: "packet_text ''qAttached'' = ''$qAttached#8f''" "packet_text ''1'' = ''$1#31''" by code_simp+
  have count: "escapes ''qAttached'' = 0" by (simp add: escapes_def special_def)
  let ?s1 = "snd (txRaw CHR ''+'' ?r)"
  have s1: "txRaw CHR ''+'' ?r = (Done (), ?s1)" "attached ?s1" "rspOpen ?s1" "rspConn (flushed ?s1) = ''+''"
    by (simp_all add: txRaw_def andThen_def packet_received_def demo_bridge_def flushed_def TX_BUF_SIZE_def)
  have "sends (reply ''1'') (packet_text ''1'') ()" unfolding reply_def by (rule sends_str) simp
  then obtain s2 where s2: "reply ''1'' ?s1 = (Done (), s2)" "flushed s2 = with_sent ''$1#31'' (flushed ?s1)"
    using s1(3) unfolding sends_def packets by blast
  have "?h ''qAttached'' ?s1 = reply ''1'' ?s1" using s1(2) by (simp add: rsp_handlePacket_def andThen_Done)
  then have "rsp_bytes ?h ''$qAttached#8f'' demo_bridge = (Done (), s2\<lparr>rxState := RXS_IDLE\<rparr>)"
    using receive_packet [of "''qAttached''" ?h "[]" demo_bridge] s1(1) s2(1)
    by (simp add: packets verdict_def count RX_BUF_SIZE_def andThen_Done)
  moreover have "rspConn (flushed (s2\<lparr>rxState := RXS_IDLE\<rparr>)) = rspConn (flushed s2)" by (simp add: flushed_def)
  moreover have "rspOpen demo_bridge" by (simp add: demo_bridge_def)
  ultimately show ?thesis
    using bridge.session_bytes [of demo_bridge server_net n "[''$qAttached#8f'']"] s2(2) s1(4) by (simp add: with_sent_def)
qed

theorem gdb_reads_any_division_witness:
  "rspConn (flushed (snd (rsp_session (rsp_handlePacket server_net 0) [''$qAtta'', ''ched#'', ''8f''] demo_bridge))) = ''+$1#31''"
proof -
  have "rspOpen demo_bridge" "concat [''$qAtta'', ''ched#'', ''8f''] = concat [''$qAttached#8f'']" by (simp_all add: demo_bridge_def)
  from gdb_reads_any_division [OF this, of server_net 0] show ?thesis by (simp only: demo_attached)
qed

end
