(* ===== verification/Gdb_Memory.thy ===== *)
theory Gdb_Memory
  imports Gdb_Commands Rvsrv_Server "HOL-Library.Multiset"
begin

text \<open>
  What the gdb bridge does to the memory of the target: software breakpoints and the memory
  commands, over the contract \<open>memory_link\<close> of the debug link and the meaning of expressions.
\<close>

section \<open>The memory map\<close>

text \<open>
  The bridge talks to the memory map through definitions: it sets the inputs for every context and
  evaluates the others. An input is usable when no definition of the map with another mask hides
  it.
\<close>

definition gdb_inputs :: "string set" where
  "gdb_inputs = {''_GDB_ADDR'', ''_GDB_SOFTBRK_ADDR'', ''_GDB_SOFTBRK_SYL''}"

definition inputs_usable :: "def_table \<Rightarrow> bool" where
  "inputs_usable d \<longleftrightarrow> currentContext d < 32 \<and> (\<forall>name \<in> gdb_inputs. unshadowed 0xFFFFFFFF (table_chain d name))"

definition same_map :: "def_table \<Rightarrow> def_table \<Rightarrow> bool" where
  "same_map d d' \<longleftrightarrow> (\<forall>name. name \<notin> gdb_inputs \<longrightarrow> defs_expand name d' = defs_expand name d)"

text \<open>
  What the definitions of a memory map mean: \<open>rd\<close> and \<open>wr\<close> translate an address, \<open>brk\<close> gives the
  syllable that stops the processor, and none of them changes anything.
\<close>

definition map_means :: "nat \<Rightarrow> (u32 \<Rightarrow> u32) \<Rightarrow> (u32 \<Rightarrow> u32) \<Rightarrow> (u32 \<Rightarrow> u32 \<Rightarrow> u32) \<Rightarrow> def_table \<Rightarrow> bool" where
  "map_means len rd wr brk d \<longleftrightarrow> (\<forall>s a. same_map d (e_defs s) \<longrightarrow>
     (defs_expand ''_GDB_ADDR'' (e_defs s) = Some (hex8 a) \<longrightarrow>
        (\<exists>v. runs len 256 (EOne (OName ''_GDB_ADDR_R'')) s v s \<and> v_value v = rd a) \<and>
        (\<exists>v. runs len 256 (EOne (OName ''_GDB_ADDR_W'')) s v s \<and> v_value v = wr a)) \<and>
     (\<forall>y. defs_expand ''_GDB_SOFTBRK_ADDR'' (e_defs s) = Some (hex8 a) \<longrightarrow> defs_expand ''_GDB_SOFTBRK_SYL'' (e_defs s) = Some (hex8 y) \<longrightarrow>
        (\<exists>v. runs len 256 (EOne (OName ''_GDB_SOFTBRK'')) s v s \<and> v_value v = brk a y)))"

abbreviation input :: "string \<Rightarrow> string \<Rightarrow> def_table \<Rightarrow> def_table" where
  "input name str \<equiv> table_register 0xFFFFFFFF name str"

lemma unshadowed_register: "unshadowed m c \<Longrightarrow> unshadowed m (chain_register m x c)"
proof -
  have keep: "map fst (chain_override m x c) = map fst c" for c by (induction c) auto
  have "fst ` set (chain_override m x c) = fst ` set c" for c using arg_cong [OF keep [of c], of set] by simp
  then have "unshadowed m c \<Longrightarrow> unshadowed m (chain_override m x c)" by (induction c) auto
  then show "unshadowed m c \<Longrightarrow> unshadowed m (chain_register m x c)" by (auto simp: chain_register_def)
qed

lemma input_usable: "inputs_usable d \<Longrightarrow> inputs_usable (input name str d)"
  by (auto simp: inputs_usable_def dtab.ctx_reg dtab.chain_reg intro: unshadowed_register)

lemma all_contexts: "(0xFFFFFFFF :: u32) AND b = b"
proof -
  have "(0xFFFFFFFF :: u32) = - 1" by simp
  then show ?thesis by (simp only: and.left_neutral)
qed

lemma input_expand:
  assumes "inputs_usable d" "name \<in> gdb_inputs"
  shows "defs_expand name (input name str d) = Some str"
  using assms context_bit_nonzero [of "currentContext d"]
  by (intro dtab.expand_unshadowed) (auto simp: inputs_usable_def all_contexts)

lemma input_other: "name' \<noteq> name \<Longrightarrow> defs_expand name' (input name str d) = defs_expand name' d"
  by (rule dtab.expand_other_name)

lemma input_same_map: "same_map d0 d \<Longrightarrow> name \<in> gdb_inputs \<Longrightarrow> same_map d0 (input name str d)"
  unfolding same_map_def by (metis input_other)

lemma name_text: "expr_text (EOne (OName name)) = name"
  by simp

section \<open>Computations of the bridge\<close>

text \<open>The state of the bridge apart from the environment.\<close>

definition frame :: "'w gdb \<Rightarrow> 'w gdb" where
  "frame s = s\<lparr>g_env := undefined\<rparr>"

lemma frame_fields [simp]:
  "breakpointReg (frame s) = breakpointReg s" "hwBreakpointsInUse (frame s) = hwBreakpointsInUse s" "attached (frame s) = attached s"
  "rspOpen (frame s) = rspOpen s" "frame (s\<lparr>g_env := e\<rparr>) = frame s"
  by (simp_all add: frame_def)

definition gdb_gives ::
  "('w \<Rightarrow> memory) \<Rightarrow> ('w \<Rightarrow> nat) \<Rightarrow> ('w \<Rightarrow> bool) \<Rightarrow> nat \<Rightarrow> mstate \<Rightarrow> 'w gdb \<Rightarrow> ('a, 'w gdb) act \<Rightarrow> 'a \<Rightarrow> mstate \<Rightarrow> 'w gdb \<Rightarrow> bool" where
  "gdb_gives cells extent ready len t f c x t' f' \<longleftrightarrow>
     (\<forall>s. ready (e_world (g_env s)) \<and> extent (e_world (g_env s)) = len \<and> abs_env cells (g_env s) = t \<and> frame s = f \<longrightarrow>
       (\<exists>s'. c s = (Done x, s') \<and> ready (e_world (g_env s')) \<and> extent (e_world (g_env s')) = len \<and>
          abs_env cells (g_env s') = t' \<and> frame s' = f'))"

lemma gdb_gives_then:
  assumes "gdb_gives cells extent ready len t f c x t' f'" "gdb_gives cells extent ready len t' f' (k x) y t'' f''"
  shows "gdb_gives cells extent ready len t f (andThen c k) y t'' f''"
  unfolding gdb_gives_def
proof (intro allI impI, elim conjE)
  fix s
  assume "ready (e_world (g_env s))" "extent (e_world (g_env s)) = len" "abs_env cells (g_env s) = t" "frame s = f"
  with assms(1) obtain s' where s': "c s = (Done x, s')" "ready (e_world (g_env s'))" "extent (e_world (g_env s')) = len"
    "abs_env cells (g_env s') = t'" "frame s' = f'" unfolding gdb_gives_def by blast
  with assms(2) obtain s'' where "k x s' = (Done y, s'')" "ready (e_world (g_env s''))" "extent (e_world (g_env s'')) = len"
    "abs_env cells (g_env s'') = t''" "frame s'' = f''" unfolding gdb_gives_def by blast
  with s' show "\<exists>s''. andThen c k s = (Done y, s'') \<and> ready (e_world (g_env s'')) \<and> extent (e_world (g_env s'')) = len \<and>
      abs_env cells (g_env s'') = t'' \<and> frame s'' = f''"
    by (simp add: andThen_Done)
qed

lemma gdb_gives_give: "gdb_gives cells extent ready len t f (give x) x t f"
  by (simp add: gdb_gives_def)

lemma gdb_gives_look: "(\<And>s. frame s = f \<Longrightarrow> k s = x) \<Longrightarrow> gdb_gives cells extent ready len t f (look k) x t f"
  by (simp add: gdb_gives_def)

lemma gdb_gives_change:
  assumes "\<And>s. g_env (g s) = g_env s" "\<And>s. frame (g s) = g (frame s)"
  shows "gdb_gives cells extent ready len t f (change g) () t (g f)"
  using assms by (auto simp: gdb_gives_def)

lemma defs_register_done: "\<not> fst (defs_register m name str d) < 0"
  by (simp add: defs_register_def Let_def split: option.split)

lemma gdb_define_done: "gdb_define name str s = (Done (), s\<lparr>g_env := (g_env s)\<lparr>e_defs := input name str (e_defs (g_env s))\<rparr>\<rparr>)"
  using defs_register_done [of "0xFFFFFFFF" name str "e_defs (g_env s)"]
  by (cases "defs_register 0xFFFFFFFF name str (e_defs (g_env s))") (simp add: gdb_define_def table_register_def)

lemma gdb_gives_define:
  "gdb_gives cells extent ready len t f (gdb_define name str) () (t\<lparr>e_defs := input name str (e_defs t)\<rparr>) f"
  by (auto simp: gdb_gives_def gdb_define_done abs_env_def)

context memory_link
begin

abbreviation bridge_gives :: "nat \<Rightarrow> mstate \<Rightarrow> 'w gdb \<Rightarrow> ('b, 'w gdb) act \<Rightarrow> 'b \<Rightarrow> mstate \<Rightarrow> 'w gdb \<Rightarrow> bool" where
  "bridge_gives \<equiv> gdb_gives cells extent ready"

lemma gives_evaluate:
  assumes "runs len 256 (EOne (OName name)) t v t'"
  shows "\<forall>\<^sub>F n in sequentially. \<forall>f. bridge_gives len t f (gdb_evaluate net n name) v t' f"
proof (rule eventually_mono [OF running_evaluate [OF assms]], intro allI)
  fix n f
  assume "gives_on cells extent ready len t (evaluate net n (expr_text (EOne (OName name)))) v t'"
  then show "bridge_gives len t f (gdb_evaluate net n name) v t' f"
    unfolding name_text gives_on_def gdb_gives_def gdb_evaluate_def on_env_def by fastforce
qed

lemma bridge_read:
  assumes "unat a + 4 \<le> len"
  shows "bridge_gives len t f (on_bus (rvsrv_readSingle net a 4)) (Inl (be_word (load_bytes (e_world t) (unat a) 4))) t f"
  unfolding gdb_gives_def
proof (intro allI impI, elim conjE)
  fix s
  assume s: "ready (e_world (g_env s))" "extent (e_world (g_env s)) = len" "abs_env cells (g_env s) = t" "frame s = f"
  then have "valid_access a 4 (extent (e_world (g_env s)))" using assms by (simp add: valid_access_def)
  from readSingle_ok [OF s(1) this] s(2,3) obtain w' where "rvsrv_readSingle net a 4 (e_world (g_env s)) =
      (BusOk (be_word (load_bytes (e_world t) (unat a) 4)), w')" "ready w'" "extent w' = len" "cells w' = e_world t"
    by auto
  with s show "\<exists>s'. on_bus (rvsrv_readSingle net a 4) s = (Done (Inl (be_word (load_bytes (e_world t) (unat a) 4))), s') \<and>
      ready (e_world (g_env s')) \<and> extent (e_world (g_env s')) = len \<and> abs_env cells (g_env s') = t \<and> frame s' = f"
    by (auto simp: on_bus_def abs_env_def)
qed

lemma bridge_write:
  assumes "unat a + 4 \<le> len"
  shows "bridge_gives len t f (on_bus (rvsrv_writeSingle net a v 4)) (Inl ())
    (t\<lparr>e_world := store_bytes (e_world t) (unat a) (word_bytes 4 v)\<rparr>) f"
  unfolding gdb_gives_def
proof (intro allI impI, elim conjE)
  fix s
  assume s: "ready (e_world (g_env s))" "extent (e_world (g_env s)) = len" "abs_env cells (g_env s) = t" "frame s = f"
  then have "valid_access a 4 (extent (e_world (g_env s)))" using assms by (simp add: valid_access_def)
  from writeSingle_ok [OF s(1) this, of v] s(2,3) obtain w' where "rvsrv_writeSingle net a v 4 (e_world (g_env s)) = (BusOk (), w')"
      "ready w'" "extent w' = len" "cells w' = store_bytes (e_world t) (unat a) (word_bytes 4 v)"
    by (auto simp del: word_bytes.simps)
  with s show "\<exists>s'. on_bus (rvsrv_writeSingle net a v 4) s = (Done (Inl ()), s') \<and>
      ready (e_world (g_env s')) \<and> extent (e_world (g_env s')) = len \<and>
      abs_env cells (g_env s') = t\<lparr>e_world := store_bytes (e_world t) (unat a) (word_bytes 4 v)\<rparr> \<and> frame s' = f"
    by (auto simp: on_bus_def abs_env_def simp del: word_bytes.simps)
qed

text \<open>Translating an address.\<close>

lemma gives_translate:
  assumes "\<And>t. same_map d (e_defs t) \<Longrightarrow> defs_expand ''_GDB_ADDR'' (e_defs t) = Some (hex8 a) \<Longrightarrow>
      \<exists>v. runs len 256 (EOne (OName name)) t v t \<and> v_value v = x"
    and "same_map d (e_defs t)" "inputs_usable (e_defs t)"
  shows "\<forall>\<^sub>F n in sequentially. \<forall>f. bridge_gives len t f (translate net n name a) x (t\<lparr>e_defs := input ''_GDB_ADDR'' (hex8 a) (e_defs t)\<rparr>) f"
proof -
  let ?t = "t\<lparr>e_defs := input ''_GDB_ADDR'' (hex8 a) (e_defs t)\<rparr>"
  have in_: "''_GDB_ADDR'' \<in> gdb_inputs" by (simp add: gdb_inputs_def)
  from assms(1) [of ?t] obtain v where v: "runs len 256 (EOne (OName name)) ?t v ?t" "v_value v = x"
    using input_same_map [OF assms(2) in_] input_expand [OF assms(3) in_] by auto
  show ?thesis
  proof (rule eventually_mono [OF gives_evaluate [OF v(1)]], intro allI)
    fix n f
    assume "\<forall>f. bridge_gives len ?t f (gdb_evaluate net n name) v ?t f"
    then show "bridge_gives len t f (translate net n name a) x ?t f"
      unfolding translate_def v(2) [symmetric]
      by (intro gdb_gives_then [OF gdb_gives_define] gdb_gives_then [OF _ gdb_gives_give]) simp
  qed
qed

end

lemma find_slot_bound: "find_slot ty a ins bs = Some i \<Longrightarrow> i < length bs"
  by (induction bs arbitrary: i) (auto split: if_splits)

lemma find_slot_props:
  "find_slot ty a True bs = Some i \<Longrightarrow> \<not> brk_active (bs ! i)"
  "find_slot ty a False bs = Some i \<Longrightarrow> brk_active (bs ! i) \<and> brk_type (bs ! i) = ty \<and> brk_addr (bs ! i) = a"
  by (induction bs arbitrary: i) (auto split: if_splits)

abbreviation word_of :: "u32 \<Rightarrow> u32" where
  "word_of a \<equiv> a AND NOT 3"

text \<open>The definitions after a software breakpoint was set, and after it was removed.\<close>

definition set_inputs :: "u32 \<Rightarrow> u32 \<Rightarrow> def_table \<Rightarrow> def_table" where
  "set_inputs a y d = input ''_GDB_SOFTBRK_SYL'' (hex8 y) (input ''_GDB_SOFTBRK_ADDR'' (hex8 a)
     (input ''_GDB_ADDR'' (hex8 a) (input ''_GDB_ADDR'' (hex8 a) d)))"

lemma set_inputs_usable: "inputs_usable d \<Longrightarrow> inputs_usable (set_inputs a y d)"
  by (simp add: set_inputs_def input_usable)

lemma set_inputs_same_map: "same_map d0 d \<Longrightarrow> same_map d0 (set_inputs a y d)"
  unfolding set_inputs_def by (intro input_same_map) (simp_all add: gdb_inputs_def)

lemma set_inputs_expand:
  assumes "inputs_usable d"
  shows "defs_expand ''_GDB_SOFTBRK_SYL'' (set_inputs a y d) = Some (hex8 y)"
    "defs_expand ''_GDB_SOFTBRK_ADDR'' (set_inputs a y d) = Some (hex8 a)"
proof -
  show "defs_expand ''_GDB_SOFTBRK_SYL'' (set_inputs a y d) = Some (hex8 y)"
    unfolding set_inputs_def by (intro input_expand input_usable assms) (simp add: gdb_inputs_def)
  have "defs_expand ''_GDB_SOFTBRK_ADDR'' (set_inputs a y d) =
      defs_expand ''_GDB_SOFTBRK_ADDR'' (input ''_GDB_SOFTBRK_ADDR'' (hex8 a) (input ''_GDB_ADDR'' (hex8 a) (input ''_GDB_ADDR'' (hex8 a) d)))"
    unfolding set_inputs_def by (rule input_other) simp
  also have "\<dots> = Some (hex8 a)" by (intro input_expand input_usable assms) (simp add: gdb_inputs_def)
  finally show "defs_expand ''_GDB_SOFTBRK_ADDR'' (set_inputs a y d) = Some (hex8 a)" .
qed

lemma store_data_occupy:
  "i < length (breakpointReg f) \<Longrightarrow>
    snd (store_data i y (snd (occupy i 0 a None f))) =
    f\<lparr>breakpointReg := (breakpointReg f)[i := \<lparr>brk_active = True, brk_type = 0, brk_addr = a, brk_data = y\<rparr>]\<rparr>"
  by (simp add: store_data_def occupy_def)

context memory_link
begin

lemma gives_set_software:
  assumes map: "map_means len rd wr brk d" and t: "same_map d (e_defs t)" "inputs_usable (e_defs t)"
    and w: "word_of (rd a) = w" "word_of (wr a) = w" "unat w + 4 \<le> len"
    and i: "find_slot 0 a True (breakpointReg f) = Some i"
    and y: "y = be_word (load_bytes (e_world t) (unat w) 4)"
  shows "\<forall>\<^sub>F n in sequentially. bridge_gives len t f (gdb_breakpoint net n 0 a True) 1
    (t\<lparr>e_defs := set_inputs a y (e_defs t), e_world := store_bytes (e_world t) (unat w) (word_bytes 4 (brk a y))\<rparr>)
    (f\<lparr>breakpointReg := (breakpointReg f)[i := \<lparr>brk_active = True, brk_type = 0, brk_addr = a, brk_data = y\<rparr>]\<rparr>)"
proof -
  let ?t1 = "t\<lparr>e_defs := input ''_GDB_ADDR'' (hex8 a) (e_defs t)\<rparr>"
  let ?t2 = "?t1\<lparr>e_defs := input ''_GDB_ADDR'' (hex8 a) (e_defs ?t1)\<rparr>"
  let ?t3 = "?t2\<lparr>e_defs := input ''_GDB_SOFTBRK_ADDR'' (hex8 a) (e_defs ?t2)\<rparr>"
  let ?t4 = "?t3\<lparr>e_defs := input ''_GDB_SOFTBRK_SYL'' (hex8 y) (e_defs ?t3)\<rparr>"
  let ?g = "\<lambda>s. snd (occupy i 0 a None s)" and ?h = "\<lambda>s. snd (store_data i y s)"
  have in_: "''_GDB_ADDR'' \<in> gdb_inputs" by (simp add: gdb_inputs_def)
  have t1: "same_map d (e_defs ?t1)" "inputs_usable (e_defs ?t1)"
    using input_same_map [OF t(1) in_] input_usable [OF t(2)] by simp_all
  have d4: "e_defs ?t4 = set_inputs a y (e_defs t)" by (simp add: set_inputs_def)
  note m = map [unfolded map_means_def, rule_format]
  have rd: "\<forall>\<^sub>F n in sequentially. \<forall>f. bridge_gives len t f (translate net n ''_GDB_ADDR_R'' a) (rd a) ?t1 f"
    using m by (intro gives_translate [OF _ t]) blast
  have wr: "\<forall>\<^sub>F n in sequentially. \<forall>f. bridge_gives len ?t1 f (translate net n ''_GDB_ADDR_W'' a) (wr a) ?t2 f"
    using m by (intro gives_translate [OF _ t1]) blast
  have "same_map d (e_defs ?t4)" unfolding d4 by (rule set_inputs_same_map [OF t(1)])
  then obtain v where v: "runs len 256 (EOne (OName ''_GDB_SOFTBRK'')) ?t4 v ?t4" "v_value v = brk a y"
    using m [of ?t4 a] set_inputs_expand [OF t(2), of a y] unfolding d4 by blast
  note ev = eventually_conj [OF rd eventually_conj [OF wr gives_evaluate [OF v(1)]]]
  show ?thesis
  proof (rule eventually_mono [OF ev], elim conjE)
    fix n
    assume n: "\<forall>f. bridge_gives len t f (translate net n ''_GDB_ADDR_R'' a) (rd a) ?t1 f"
      "\<forall>f. bridge_gives len ?t1 f (translate net n ''_GDB_ADDR_W'' a) (wr a) ?t2 f"
      "\<forall>f. bridge_gives len ?t4 f (gdb_evaluate net n ''_GDB_SOFTBRK'') v ?t4 f"
    have occ: "bridge_gives len t f (occupy i 0 a None) () t (?g f)"
      unfolding occupy_def by (simp del: change_def) (rule gdb_gives_change; simp add: frame_def)
    have sd: "bridge_gives len ?t1 f' (store_data i y) () ?t1 (?h f')" for f'
      unfolding store_data_def by (simp del: change_def) (rule gdb_gives_change; simp add: frame_def)
    have rdv: "bridge_gives len ?t1 f' (on_bus (rvsrv_readSingle net w 4)) (Inl y) ?t1 f'" for f'
      using bridge_read [OF w(3), of ?t1 f'] by (simp add: y)
    show "bridge_gives len t f (gdb_breakpoint net n 0 a True) 1
      (t\<lparr>e_defs := set_inputs a y (e_defs t), e_world := store_bytes (e_world t) (unat w) (word_bytes 4 (brk a y))\<rparr>)
      (f\<lparr>breakpointReg := (breakpointReg f)[i := \<lparr>brk_active = True, brk_type = 0, brk_addr = a, brk_data = y\<rparr>]\<rparr>)"
    proof -
      have "bridge_gives len t (?g f) (set_software net n i a) 1
          (?t4\<lparr>e_world := store_bytes (e_world ?t4) (unat w) (word_bytes 4 (v_value v))\<rparr>) (?h (?g f))"
        unfolding set_software_def
        by (rule gdb_gives_then [OF n(1) [rule_format]], simp only: w sum.case, rule gdb_gives_then [OF rdv], simp only: sum.case,
          rule gdb_gives_then [OF sd], rule gdb_gives_then [OF n(2) [rule_format]], rule gdb_gives_then [OF gdb_gives_define],
          rule gdb_gives_then [OF gdb_gives_define], rule gdb_gives_then [OF n(3) [rule_format]], simp only: w,
          rule gdb_gives_then [OF bridge_write [OF w(3)]], simp only: sum.case, rule gdb_gives_give)
      moreover have "?h (?g f) = f\<lparr>breakpointReg := (breakpointReg f)[i := \<lparr>brk_active = True, brk_type = 0, brk_addr = a, brk_data = y\<rparr>]\<rparr>"
        using store_data_occupy [OF find_slot_bound [OF i]] .
      ultimately show ?thesis
        unfolding gdb_breakpoint_def v(2)
        by (intro gdb_gives_then [OF gdb_gives_look [where x = "Some i"]]) (use i in \<open>auto simp: set_inputs_def intro!: gdb_gives_then [OF occ]\<close>)
    qed
  qed
qed

lemma gives_remove_software:
  assumes map: "map_means len rd wr brk d" and t: "same_map d (e_defs t)" "inputs_usable (e_defs t)"
    and w: "word_of (wr a) = w" "unat w + 4 \<le> len"
    and i: "find_slot 0 a False (breakpointReg f) = Some i" and y: "y = brk_data (breakpointReg f ! i)"
  shows "\<forall>\<^sub>F n in sequentially. bridge_gives len t f (gdb_breakpoint net n 0 a False) 1
    (t\<lparr>e_defs := input ''_GDB_ADDR'' (hex8 a) (e_defs t), e_world := store_bytes (e_world t) (unat w) (word_bytes 4 y)\<rparr>)
    (f\<lparr>breakpointReg := (breakpointReg f)[i := (breakpointReg f ! i)\<lparr>brk_active := False\<rparr>]\<rparr>)"
proof -
  let ?t1 = "t\<lparr>e_defs := input ''_GDB_ADDR'' (hex8 a) (e_defs t)\<rparr>"
  note m = map [unfolded map_means_def, rule_format]
  have wr: "\<forall>\<^sub>F n in sequentially. \<forall>f. bridge_gives len t f (translate net n ''_GDB_ADDR_W'' a) (wr a) ?t1 f"
    using m by (intro gives_translate [OF _ t]) blast
  show ?thesis
  proof (rule eventually_mono [OF wr])
    fix n
    assume n: "\<forall>f. bridge_gives len t f (translate net n ''_GDB_ADDR_W'' a) (wr a) ?t1 f"
    have rel: "bridge_gives len t' f (release i) () t' (f\<lparr>breakpointReg := (breakpointReg f)[i := (breakpointReg f ! i)\<lparr>brk_active := False\<rparr>]\<rparr>)" for t'
      unfolding release_def by (rule gdb_gives_change; simp add: frame_def)
    have data: "bridge_gives len ?t1 f (look (\<lambda>s. brk_data (breakpointReg s ! i))) y ?t1 f"
      by (rule gdb_gives_look) (use y in auto)
    have "bridge_gives len t f (remove_software net n i a) 1 (?t1\<lparr>e_world := store_bytes (e_world ?t1) (unat w) (word_bytes 4 y)\<rparr>)
        (f\<lparr>breakpointReg := (breakpointReg f)[i := (breakpointReg f ! i)\<lparr>brk_active := False\<rparr>]\<rparr>)"
      unfolding remove_software_def
      by (rule gdb_gives_then [OF n [rule_format]], rule gdb_gives_then [OF data], simp only: w,
        rule gdb_gives_then [OF bridge_write [OF w(2)]], simp only: sum.case, rule gdb_gives_then [OF rel gdb_gives_give])
    then show "bridge_gives len t f (gdb_breakpoint net n 0 a False) 1
        (t\<lparr>e_defs := input ''_GDB_ADDR'' (hex8 a) (e_defs t), e_world := store_bytes (e_world t) (unat w) (word_bytes 4 y)\<rparr>)
        (f\<lparr>breakpointReg := (breakpointReg f)[i := (breakpointReg f ! i)\<lparr>brk_active := False\<rparr>]\<rparr>)"
      unfolding gdb_breakpoint_def
      by (intro gdb_gives_then [OF gdb_gives_look [where x = "Some i"]]) (use i in auto)
  qed
qed

end

section \<open>Memory with breakpoints\<close>

text \<open>
  The abstract view: the addresses with a breakpoint, and the memory of the program under them. The
  word of a breakpoint holds the syllable that the memory map gives for it.
\<close>

definition key :: "(u32 \<Rightarrow> u32) \<Rightarrow> u32 \<Rightarrow> nat" where
  "key rd a = unat (word_of (rd a)) div 4"

definition old_word :: "memory \<Rightarrow> nat \<Rightarrow> u32" where
  "old_word base k = be_word (load_bytes base (4 * k) 4)"

definition patched :: "(u32 \<Rightarrow> u32) \<Rightarrow> (u32 \<Rightarrow> u32 \<Rightarrow> u32) \<Rightarrow> u32 list \<Rightarrow> memory \<Rightarrow> memory" where
  "patched rd brk as base = (\<lambda>x. case find (\<lambda>a. key rd a = x div 4) as of None \<Rightarrow> base x
     | Some a \<Rightarrow> word_bytes 4 (brk a (old_word base (key rd a))) ! (x mod 4))"

lemma word_of_key: "unat (word_of (rd a)) = 4 * key rd a"
proof -
  have "word_of (rd a) = push_bit 2 (drop_bit 2 (rd a))"
  proof -
    have m: "(3 :: u32) = mask 2" by (simp add: mask_eq_exp_minus_1)
    have "2 \<le> n \<Longrightarrow> Suc (Suc (n - 2)) = n" for n :: nat by simp
    then show ?thesis unfolding m by (auto intro!: bit_word_eqI simp: bit_simps not_less)
  qed
  then have "4 dvd unat (word_of (rd a))"
    by (simp add: push_bit_eq_mult unat_word_ariths mod_eq_0_iff_dvd dvd_mod_iff)
  then show ?thesis by (simp add: key_def)
qed

lemmas word_of_keys = word_of_key word_of_key [simplified]

lemma find_remove1: "\<not> P a \<Longrightarrow> find P (remove1 a as) = find P as"
  by (induction as) auto

lemma find_None_not: "find P as = None \<longleftrightarrow> (\<forall>a \<in> set as. \<not> P a)"
  by (auto simp: find_None_iff)

lemma store_word_at:
  "store_bytes m (4 * k) (word_bytes 4 v) = (\<lambda>x. if x div 4 = k then word_bytes 4 v ! (x mod 4) else m x)"
proof
  fix x
  have "4 * k \<le> x \<and> x < 4 * k + 4 \<longleftrightarrow> x div 4 = k" "x div 4 = k \<Longrightarrow> x - 4 * k = x mod 4"
    by (auto simp: minus_mult_div_eq_mod)
  then show "store_bytes m (4 * k) (word_bytes 4 v) x = (if x div 4 = k then word_bytes 4 v ! (x mod 4) else m x)"
    by (simp add: store_bytes_def del: word_bytes.simps)
qed

lemma old_word_bytes: "word_bytes 4 (old_word base k) ! (x mod 4) = base (4 * k + x mod 4)"
proof -
  have "word_bytes 4 (old_word base k) = load_bytes base (4 * k) 4" unfolding old_word_def by (rule word_bytes_be_word) simp
  then show ?thesis by (simp add: load_bytes_def)
qed

lemma patched_set:
  assumes "key rd a \<notin> key rd ` set as"
  shows "store_bytes (patched rd brk as base) (4 * key rd a) (word_bytes 4 (brk a (old_word base (key rd a)))) = patched rd brk (a # as) base"
  unfolding store_word_at by (auto simp: patched_def fun_eq_iff)

lemma patched_remove:
  assumes "distinct (map (key rd) as)" "a \<in> set as"
  shows "store_bytes (patched rd brk as base) (4 * key rd a) (word_bytes 4 (old_word base (key rd a))) = patched rd brk (remove1 a as) base"
  unfolding store_word_at
proof
  fix x
  show "(if x div 4 = key rd a then word_bytes 4 (old_word base (key rd a)) ! (x mod 4) else patched rd brk as base x) =
    patched rd brk (remove1 a as) base x"
  proof (cases "x div 4 = key rd a")
    case True
    have "b \<in> set (remove1 a as) \<Longrightarrow> key rd b \<noteq> key rd a" for b
      using assms by (induction as) (auto simp: image_iff split: if_splits)
    then have "find (\<lambda>a. key rd a = x div 4) (remove1 a as) = None" using True by (auto simp: find_None_not)
    moreover have "4 * key rd a + x mod 4 = x" using True by (metis mult_div_mod_eq)
    ultimately show ?thesis using True by (simp add: patched_def old_word_bytes)
  next
    case False
    then have "find (\<lambda>a. key rd a = x div 4) (remove1 a as) = find (\<lambda>a. key rd a = x div 4) as" by (intro find_remove1) simp
    with False show ?thesis by (simp add: patched_def)
  qed
qed

lemma patched_other: "k \<notin> key rd ` set as \<Longrightarrow> load_bytes (patched rd brk as base) (4 * k) 4 = load_bytes base (4 * k) 4"
proof -
  assume k: "k \<notin> key rd ` set as"
  have "patched rd brk as base x = base x" if "4 * k \<le> x" "x < 4 * k + 4" for x
  proof -
    have "x div 4 = k" using that by simp
    with k have "\<forall>a \<in> set as. key rd a \<noteq> x div 4" by (metis imageI)
    then have "find (\<lambda>a. key rd a = x div 4) as = None" by (simp add: find_None_not)
    then show ?thesis by (simp add: patched_def)
  qed
  then show ?thesis by (simp add: load_bytes_def)
qed

section \<open>Setting and removing breakpoints\<close>

datatype brk_op = SetBrk u32 | ClearBrk u32

fun break_op :: "'w net \<Rightarrow> nat \<Rightarrow> brk_op \<Rightarrow> (nat, 'w gdb) act" where
  "break_op net n (SetBrk a) = gdb_breakpoint net n 0 a True"
| "break_op net n (ClearBrk a) = gdb_breakpoint net n 0 a False"

fun run_breaks :: "'w net \<Rightarrow> nat \<Rightarrow> brk_op list \<Rightarrow> (nat list, 'w gdb) act" where
  "run_breaks net n [] = give []"
| "run_breaks net n (p # ps) = andThen (break_op net n p) (\<lambda>r. andThen (run_breaks net n ps) (\<lambda>rs. give (r # rs)))"

text \<open>The breakpoints that are set after an operation, and when the operation makes sense.\<close>

fun brk_next :: "brk_op \<Rightarrow> u32 list \<Rightarrow> u32 list" where
  "brk_next (SetBrk a) as = a # as"
| "brk_next (ClearBrk a) as = remove1 a as"

definition brk_reachable :: "nat \<Rightarrow> (u32 \<Rightarrow> u32) \<Rightarrow> (u32 \<Rightarrow> u32) \<Rightarrow> u32 \<Rightarrow> bool" where
  "brk_reachable len rd wr a \<longleftrightarrow> word_of (wr a) = word_of (rd a) \<and> unat (word_of (rd a)) + 4 \<le> len"

fun brk_allowed :: "nat \<Rightarrow> (u32 \<Rightarrow> u32) \<Rightarrow> (u32 \<Rightarrow> u32) \<Rightarrow> brk_op \<Rightarrow> u32 list \<Rightarrow> bool" where
  "brk_allowed len rd wr (SetBrk a) as \<longleftrightarrow>
     brk_reachable len rd wr a \<and> key rd a \<notin> key rd ` set as \<and> length as < MAX_BREAKPOINTS"
| "brk_allowed len rd wr (ClearBrk a) as \<longleftrightarrow> a \<in> set as"

fun all_allowed :: "nat \<Rightarrow> (u32 \<Rightarrow> u32) \<Rightarrow> (u32 \<Rightarrow> u32) \<Rightarrow> brk_op list \<Rightarrow> u32 list \<Rightarrow> bool" where
  "all_allowed len rd wr [] as = True"
| "all_allowed len rd wr (p # ps) as = (brk_allowed len rd wr p as \<and> all_allowed len rd wr ps (brk_next p as))"

text \<open>The registry holds the breakpoints that are set, with the syllables they replaced.\<close>

definition registered :: "breakpoint list \<Rightarrow> u32 multiset" where
  "registered bs = image_mset brk_addr (filter_mset brk_active (mset bs))"

definition brk_inv ::
  "nat \<Rightarrow> (u32 \<Rightarrow> u32) \<Rightarrow> (u32 \<Rightarrow> u32) \<Rightarrow> (u32 \<Rightarrow> u32 \<Rightarrow> u32) \<Rightarrow> def_table \<Rightarrow> memory \<Rightarrow> u32 list \<Rightarrow> mstate \<Rightarrow> breakpoint list \<Rightarrow> bool" where
  "brk_inv len rd wr brk d base as t bs \<longleftrightarrow>
     same_map d (e_defs t) \<and> inputs_usable (e_defs t) \<and> e_world t = patched rd brk as base \<and>
     distinct (map (key rd) as) \<and> (\<forall>a \<in> set as. brk_reachable len rd wr a) \<and>
     length bs = MAX_BREAKPOINTS \<and> registered bs = mset as \<and>
     (\<forall>b \<in> set bs. brk_active b \<longrightarrow> brk_type b = 0 \<and> brk_data b = old_word base (key rd (brk_addr b)))"

lemma find_slot_None:
  "find_slot ty a ins bs = None \<longleftrightarrow>
    (\<forall>b \<in> set bs. if ins then brk_active b else \<not> (brk_active b \<and> brk_type b = ty \<and> brk_addr b = a))"
  by (induction bs) auto

lemma registered_set:
  assumes "i < length bs" "\<not> brk_active (bs ! i)" "brk_active b"
  shows "registered (bs[i := b]) = add_mset (brk_addr b) (registered bs)"
  using assms by (simp add: registered_def mset_update)

lemma registered_clear:
  assumes "i < length bs" "brk_active (bs ! i)" "\<not> brk_active b"
  shows "registered (bs[i := b]) = registered bs - {#brk_addr (bs ! i)#}"
  using assms by (simp add: registered_def mset_update image_mset_Diff)

lemma size_registered: "(\<forall>b \<in> set bs. brk_active b) \<Longrightarrow> size (registered bs) = length bs"
  by (simp add: registered_def flip: mset_filter)

lemma set_registered: "set_mset (registered bs) = brk_addr ` {b \<in> set bs. brk_active b}"
  by (auto simp: registered_def)

lemma free_slot:
  assumes "brk_inv len rd wr brk d base as t bs" "length as < MAX_BREAKPOINTS"
  obtains i where "find_slot 0 a True bs = Some i"
proof (cases "find_slot 0 a True bs")
  case None
  then have "\<forall>b \<in> set bs. brk_active b" by (simp add: find_slot_None)
  from size_registered [OF this] have False using assms by (simp add: brk_inv_def)
  then show ?thesis ..
qed (rule that)

lemma taken_slot:
  assumes "brk_inv len rd wr brk d base as t bs" "a \<in> set as"
  obtains i where "find_slot 0 a False bs = Some i"
proof (cases "find_slot 0 a False bs")
  case None
  have "set as = brk_addr ` {b \<in> set bs. brk_active b}"
    using assms(1) set_registered [of bs] by (simp add: brk_inv_def)
  with None assms have False by (auto simp: find_slot_None brk_inv_def)
  then show ?thesis ..
qed (rule that)

lemma clear_syllable:
  assumes "brk_inv len rd wr brk d base as t bs" "find_slot 0 a False bs = Some i"
  shows "brk_data (bs ! i) = old_word base (key rd a)"
  using assms find_slot_bound [OF assms(2)] find_slot_props(2) [OF assms(2)] by (auto simp: brk_inv_def)

context memory_link
begin

lemma gives_set:
  assumes map: "map_means len rd wr brk d" and inv: "brk_inv len rd wr brk d base as t (breakpointReg f)"
    and ok: "brk_allowed len rd wr (SetBrk a) as"
  obtains t' f' where "brk_inv len rd wr brk d base (a # as) t' (breakpointReg f')"
    "\<forall>\<^sub>F n in sequentially. bridge_gives len t f (gdb_breakpoint net n 0 a True) 1 t' f'"
proof -
  let ?w = "word_of (rd a)" and ?k = "key rd a" and ?y = "old_word base (key rd a)"
  note inv' = inv [unfolded brk_inv_def] and defs = inv [unfolded brk_inv_def, THEN conjunct1] inv [unfolded brk_inv_def, THEN conjunct2, THEN conjunct1]
  have w: "word_of (wr a) = ?w" "unat ?w + 4 \<le> len" and k: "?k \<notin> key rd ` set as" and room: "length as < MAX_BREAKPOINTS"
    using ok by (simp_all add: brk_reachable_def)
  obtain i where i: "find_slot 0 a True (breakpointReg f) = Some i" by (rule free_slot [OF inv room])
  let ?b = "\<lparr>brk_active = True, brk_type = 0, brk_addr = a, brk_data = ?y\<rparr>"
  have y: "?y = be_word (load_bytes (e_world t) (unat ?w) 4)"
    using inv' patched_other [OF k] by (simp add: old_word_def word_of_keys)
  note step = gives_set_software [OF map defs refl w i y]
  show thesis
  proof (rule that)
    show "brk_inv len rd wr brk d base (a # as)
        (t\<lparr>e_defs := set_inputs a ?y (e_defs t), e_world := store_bytes (e_world t) (unat ?w) (word_bytes 4 (brk a ?y))\<rparr>)
        (breakpointReg (f\<lparr>breakpointReg := (breakpointReg f)[i := ?b]\<rparr>))"
      using inv' ok patched_set [OF k] registered_set [OF find_slot_bound [OF i] find_slot_props(1) [OF i], of ?b]
      by (auto simp: brk_inv_def word_of_keys set_inputs_usable set_inputs_same_map simp del: word_bytes.simps
          dest!: subsetD [OF set_update_subset_insert])
  qed (rule step)
qed

lemma gives_clear:
  assumes map: "map_means len rd wr brk d" and inv: "brk_inv len rd wr brk d base as t (breakpointReg f)" and a: "a \<in> set as"
  obtains t' f' where "brk_inv len rd wr brk d base (remove1 a as) t' (breakpointReg f')"
    "\<forall>\<^sub>F n in sequentially. bridge_gives len t f (gdb_breakpoint net n 0 a False) 1 t' f'"
proof -
  let ?w = "word_of (rd a)" and ?y = "old_word base (key rd a)"
  note inv' = inv [unfolded brk_inv_def] and defs = inv [unfolded brk_inv_def, THEN conjunct1] inv [unfolded brk_inv_def, THEN conjunct2, THEN conjunct1]
  have w: "word_of (wr a) = ?w" "unat ?w + 4 \<le> len" using inv' a by (auto simp: brk_reachable_def)
  obtain i where i: "find_slot 0 a False (breakpointReg f) = Some i" by (rule taken_slot [OF inv a])
  note y = clear_syllable [OF inv i]
  let ?b = "(breakpointReg f ! i)\<lparr>brk_active := False\<rparr>"
  note step = gives_remove_software [OF map defs w i y [symmetric]]
  have in_: "''_GDB_ADDR'' \<in> gdb_inputs" by (simp add: gdb_inputs_def)
  have reg: "registered ((breakpointReg f)[i := ?b]) = mset (remove1 a as)"
    using inv' registered_clear [OF find_slot_bound [OF i], of ?b] find_slot_props(2) [OF i] by simp
  have dist: "distinct (map (key rd) (remove1 a as))" using inv' by (auto simp: distinct_map distinct_remove1 dest: inj_on_subset)
  show thesis
  proof (rule that)
    show "brk_inv len rd wr brk d base (remove1 a as)
        (t\<lparr>e_defs := input ''_GDB_ADDR'' (hex8 a) (e_defs t), e_world := store_bytes (e_world t) (unat ?w) (word_bytes 4 ?y)\<rparr>)
        (breakpointReg (f\<lparr>breakpointReg := (breakpointReg f)[i := ?b]\<rparr>))"
      using inv' patched_remove [of rd as a] a reg dist input_usable input_same_map [OF _ in_]
      by (auto simp: brk_inv_def word_of_keys simp del: word_bytes.simps
          dest!: subsetD [OF set_update_subset_insert] dest: notin_set_remove1)
  qed (rule step)
qed

lemma gives_run_breaks:
  assumes map: "map_means len rd wr brk d"
  shows "\<lbrakk>brk_inv len rd wr brk d base as t (breakpointReg f); all_allowed len rd wr ps as\<rbrakk> \<Longrightarrow>
    \<exists>t' f'. brk_inv len rd wr brk d base (fold brk_next ps as) t' (breakpointReg f') \<and>
      (\<forall>\<^sub>F n in sequentially. bridge_gives len t f (run_breaks net n ps) (replicate (length ps) 1) t' f')"
proof (induction ps arbitrary: as t f)
  case Nil
  show ?case
  proof (intro exI conjI)
    show "brk_inv len rd wr brk d base (fold brk_next [] as) t (breakpointReg f)" using Nil(1) by simp
    show "\<forall>\<^sub>F n in sequentially. bridge_gives len t f (run_breaks net n []) (replicate (length []) 1) t f"
      unfolding run_breaks.simps list.size replicate_0 by (intro always_eventually allI gdb_gives_give)
  qed
next
  case (Cons p ps)
  from Cons.prems have allowed: "brk_allowed len rd wr p as" by simp
  obtain t1 f1 where one: "brk_inv len rd wr brk d base (brk_next p as) t1 (breakpointReg f1)"
    "\<forall>\<^sub>F n in sequentially. bridge_gives len t f (break_op net n p) 1 t1 f1"
  proof (cases p)
    case (SetBrk a)
    then show ?thesis using gives_set [OF map Cons.prems(1)] allowed that by auto
  next
    case (ClearBrk a)
    then show ?thesis using gives_clear [OF map Cons.prems(1)] allowed that by auto
  qed
  from Cons.IH [OF one(1)] Cons.prems(2) obtain t2 f2 where
    two: "brk_inv len rd wr brk d base (fold brk_next ps (brk_next p as)) t2 (breakpointReg f2)"
      "\<forall>\<^sub>F n in sequentially. bridge_gives len t1 f1 (run_breaks net n ps) (replicate (length ps) 1) t2 f2" by auto
  have "\<forall>\<^sub>F n in sequentially. bridge_gives len t f (run_breaks net n (p # ps)) (replicate (length (p # ps)) 1) t2 f2"
    using eventually_conj [OF one(2) two(2)]
    by (rule eventually_mono) (auto intro!: gdb_gives_then gdb_gives_give)
  with two(1) show ?case by auto
qed

text \<open>
  A word that gets a second breakpoint. The code does not look for the first one: the second slot
  saves the syllable that stops the processor, and writes it back when it is removed last.
\<close>

lemma gives_second_breakpoint:
  assumes map: "map_means len rd wr brk d" and t: "same_map d (e_defs t)" "inputs_usable (e_defs t)"
    and a: "brk_reachable len rd wr a" and bs: "breakpointReg f = b0 # b1 # bs" "\<forall>b \<in> set (breakpointReg f). \<not> brk_active b"
  obtains t' f' where "e_world t' = patched rd brk [a] (e_world t)" "\<forall>b \<in> set (breakpointReg f'). \<not> brk_active b"
    "\<forall>\<^sub>F n in sequentially. bridge_gives len t f (run_breaks net n [SetBrk a, SetBrk a, ClearBrk a, ClearBrk a]) [1, 1, 1, 1] t' f'"
proof -
  let ?w = "word_of (rd a)" and ?k = "key rd a" and ?m = "e_world t" and ?x = "(input ''_GDB_ADDR'' (hex8 a))"
  let ?put = "\<lambda>m y. store_bytes m (unat ?w) (word_bytes 4 y)" and ?slot = "\<lambda>b y. \<lparr>brk_active = b, brk_type = 0, brk_addr = a, brk_data = y\<rparr>"
  have w: "word_of (wr a) = ?w" "unat ?w + 4 \<le> len" using a by (simp_all add: brk_reachable_def)
  define y where "y = be_word (load_bytes ?m (unat ?w) 4)"
  define z where "z = brk a y"
  have read: "be_word (load_bytes (?put m v) (unat ?w) 4) = v" for m v
    using load_store_same [of m "unat ?w" "word_bytes 4 v"] by (simp add: be_word_word_bytes del: word_bytes.simps)
  have over: "?put (?put m u) v = ?put m v" for m u v
    unfolding word_of_keys store_word_at by auto
  have in_: "''_GDB_ADDR'' \<in> gdb_inputs" by (simp add: gdb_inputs_def)
  define t1 where "t1 = t\<lparr>e_defs := set_inputs a y (e_defs t), e_world := ?put ?m z\<rparr>"
  define f1 where "f1 = f\<lparr>breakpointReg := ?slot True y # b1 # bs\<rparr>"
  define t2 where "t2 = t1\<lparr>e_defs := set_inputs a z (e_defs t1), e_world := ?put ?m (brk a z)\<rparr>"
  define f2 where "f2 = f\<lparr>breakpointReg := ?slot True y # ?slot True z # bs\<rparr>"
  define t3 where "t3 = t2\<lparr>e_defs := ?x (e_defs t2), e_world := ?put ?m y\<rparr>"
  define f3 where "f3 = f\<lparr>breakpointReg := ?slot False y # ?slot True z # bs\<rparr>"
  define t4 where "t4 = t3\<lparr>e_defs := ?x (e_defs t3), e_world := ?put ?m z\<rparr>"
  define f4 where "f4 = f\<lparr>breakpointReg := ?slot False y # ?slot False z # bs\<rparr>"
  have d1: "same_map d (e_defs t1)" "inputs_usable (e_defs t1)" by (simp_all add: t1_def set_inputs_same_map set_inputs_usable t)
  have d2: "same_map d (e_defs t2)" "inputs_usable (e_defs t2)" by (simp_all add: t2_def set_inputs_same_map set_inputs_usable d1)
  have d3: "same_map d (e_defs t3)" "inputs_usable (e_defs t3)" by (simp_all add: t3_def input_same_map [OF _ in_] input_usable d2)
  have m: "e_world t1 = ?put ?m z" "e_world t2 = ?put ?m (brk a z)" "e_world t3 = ?put ?m y"
    by (simp_all add: t1_def t2_def t3_def del: word_bytes.simps)
  note steps = break_op.simps read over
  have "find_slot 0 a True (breakpointReg f) = Some 0" using bs by simp
  note g1 = gives_set_software [OF map t refl w this y_def]
  have e1: "f\<lparr>breakpointReg := (breakpointReg f)[0 := ?slot True y]\<rparr> = f1" by (simp add: f1_def bs)
  have s1: "\<forall>\<^sub>F n in sequentially. bridge_gives len t f (break_op net n (SetBrk a)) 1 t1 f1"
    using g1 unfolding e1 by (simp only: steps t1_def z_def)
  have "find_slot 0 a True (breakpointReg f1) = Some 1" using bs by (simp add: f1_def)
  moreover have "z = be_word (load_bytes (e_world t1) (unat ?w) 4)" by (simp only: m read)
  ultimately have g2: "\<forall>\<^sub>F n in sequentially. bridge_gives len t1 f1 (gdb_breakpoint net n 0 a True) 1
      (t1\<lparr>e_defs := set_inputs a z (e_defs t1), e_world := ?put (e_world t1) (brk a z)\<rparr>)
      (f1\<lparr>breakpointReg := (breakpointReg f1)[1 := ?slot True z]\<rparr>)"
    by (rule gives_set_software [OF map d1 refl w])
  have e2: "f1\<lparr>breakpointReg := (breakpointReg f1)[1 := ?slot True z]\<rparr> = f2" "?put (e_world t1) (brk a z) = ?put ?m (brk a z)"
    by (simp add: f1_def f2_def, simp only: m over)
  have s2: "\<forall>\<^sub>F n in sequentially. bridge_gives len t1 f1 (break_op net n (SetBrk a)) 1 t2 f2"
    using g2 unfolding e2 by (simp only: steps t2_def)
  have "find_slot 0 a False (breakpointReg f2) = Some 0" "y = brk_data (breakpointReg f2 ! 0)" by (simp_all add: f2_def)
  note g3 = gives_remove_software [OF map d2 w this]
  have e3: "f2\<lparr>breakpointReg := (breakpointReg f2)[0 := (breakpointReg f2 ! 0)\<lparr>brk_active := False\<rparr>]\<rparr> = f3"
      "?put (e_world t2) y = ?put ?m y"
    by (simp add: f3_def f2_def, simp only: m over)
  have s3: "\<forall>\<^sub>F n in sequentially. bridge_gives len t2 f2 (break_op net n (ClearBrk a)) 1 t3 f3"
    using g3 unfolding e3 by (simp only: steps t3_def)
  have "find_slot 0 a False (breakpointReg f3) = Some 1" "z = brk_data (breakpointReg f3 ! 1)" by (simp_all add: f3_def)
  note g4 = gives_remove_software [OF map d3 w this]
  have e4: "f3\<lparr>breakpointReg := (breakpointReg f3)[1 := (breakpointReg f3 ! 1)\<lparr>brk_active := False\<rparr>]\<rparr> = f4"
      "?put (e_world t3) z = ?put ?m z"
    by (simp add: f4_def f3_def, simp only: m over)
  have s4: "\<forall>\<^sub>F n in sequentially. bridge_gives len t3 f3 (break_op net n (ClearBrk a)) 1 t4 f4"
    using g4 unfolding e4 by (simp only: steps t4_def)
  show thesis
  proof (rule that)
    show "e_world t4 = patched rd brk [a] (e_world t)"
      unfolding t4_def z_def y_def word_of_keys store_word_at by (auto simp: patched_def old_word_def fun_eq_iff simp del: word_bytes.simps)
    show "\<forall>b \<in> set (breakpointReg f4). \<not> brk_active b" using bs by (simp add: f4_def)
    show "\<forall>\<^sub>F n in sequentially. bridge_gives len t f (run_breaks net n [SetBrk a, SetBrk a, ClearBrk a, ClearBrk a]) [1, 1, 1, 1] t4 f4"
      unfolding run_breaks.simps
      using eventually_conj [OF s1 eventually_conj [OF s2 eventually_conj [OF s3 s4]]]
      by (rule eventually_mono) (elim conjE, rule gdb_gives_then, assumption, rule gdb_gives_then [OF _ gdb_gives_give],
        rule gdb_gives_then, assumption, rule gdb_gives_then [OF _ gdb_gives_give], rule gdb_gives_then, assumption,
        rule gdb_gives_then [OF _ gdb_gives_give], rule gdb_gives_then, assumption, rule gdb_gives_then [OF _ gdb_gives_give], rule gdb_gives_give)
  qed
qed

end

section \<open>The breakpoints of the shipped memory map\<close>

text \<open>
  C2. Software breakpoints through the whole stack. A sequence of settings and removals, evaluated
  with the memory map and sent over the debug link to the server, succeeds, and then the memory of
  the target is the original one with the words of exactly the breakpoints that are still set
  replaced by the syllables the memory map gives for them; after the last removal it is the
  original memory. The sequence sets a breakpoint only on a word that has none, at an address that
  the map translates alike for reading and writing, and at most 1024 at a time, and removes only
  breakpoints that are set. A second breakpoint on a word does break it (\<open>second_breakpoint_stays\<close>).
\<close>

theorem software_breakpoints_patch_memory:
  fixes s :: "server gdb"
  assumes "server_idle (e_world (g_env s))" and "inputs_usable (e_defs (g_env s))"
    and "map_means (server_extent (e_world (g_env s))) rd wr brk (e_defs (g_env s))"
    and "length (breakpointReg s) = MAX_BREAKPOINTS" and "\<forall>b \<in> set (breakpointReg s). \<not> brk_active b"
    and "all_allowed (server_extent (e_world (g_env s))) rd wr ps []"
  shows "\<exists>N. \<forall>n \<ge> N. \<exists>s'. run_breaks server_net n ps s = (Done (replicate (length ps) 1), s') \<and>
    server_idle (e_world (g_env s')) \<and>
    server_cells (e_world (g_env s')) = patched rd brk (fold brk_next ps []) (server_cells (e_world (g_env s)))"
proof -
  let ?base = "server_cells (e_world (g_env s))" and ?t = "abs_env server_cells (g_env s)"
  have inv: "brk_inv (server_extent (e_world (g_env s))) rd wr brk (e_defs (g_env s)) ?base [] ?t (breakpointReg (frame s))"
    using assms(2,4,5) by (simp add: brk_inv_def same_map_def abs_env_def patched_def registered_def filter_mset_eq_mempty_iff)
  from srv_link.gives_run_breaks [OF assms(3) inv assms(6)] obtain t' f' where
    t': "brk_inv (server_extent (e_world (g_env s))) rd wr brk (e_defs (g_env s)) ?base (fold brk_next ps []) t' (breakpointReg f')"
    and run: "\<forall>\<^sub>F n in sequentially. gdb_gives server_cells server_extent server_idle (server_extent (e_world (g_env s)))
      ?t (frame s) (run_breaks server_net n ps) (replicate (length ps) 1) t' f'"
    by blast
  from t' have "e_world t' = patched rd brk (fold brk_next ps []) ?base" by (simp add: brk_inv_def)
  with run assms(1) show ?thesis
    by (fastforce simp: eventually_sequentially gdb_gives_def abs_env_def)
qed

text \<open>
  Two breakpoints on one word: after both are removed, and with none left in the registry, the
  word still holds the syllable that stops the processor.
\<close>

theorem second_breakpoint_stays:
  fixes s :: "server gdb"
  assumes "server_idle (e_world (g_env s))" and "inputs_usable (e_defs (g_env s))"
    and "map_means (server_extent (e_world (g_env s))) rd wr brk (e_defs (g_env s))"
    and "length (breakpointReg s) = MAX_BREAKPOINTS" and "\<forall>b \<in> set (breakpointReg s). \<not> brk_active b"
    and "brk_reachable (server_extent (e_world (g_env s))) rd wr a"
  shows "\<exists>N. \<forall>n \<ge> N. \<exists>s'. run_breaks server_net n [SetBrk a, SetBrk a, ClearBrk a, ClearBrk a] s = (Done [1, 1, 1, 1], s') \<and>
    (\<forall>b \<in> set (breakpointReg s'). \<not> brk_active b) \<and>
    server_cells (e_world (g_env s')) = patched rd brk [a] (server_cells (e_world (g_env s)))"
proof -
  let ?t = "abs_env server_cells (g_env s)" and ?len = "server_extent (e_world (g_env s))"
  obtain b0 b1 bs where bs: "breakpointReg (frame s) = b0 # b1 # bs"
    using assms(4) by (cases "breakpointReg s" rule: remdups_adj.cases) (auto simp: MAX_BREAKPOINTS_def)
  have d: "same_map (e_defs (g_env s)) (e_defs ?t)" "inputs_usable (e_defs ?t)" "\<forall>b \<in> set (breakpointReg (frame s)). \<not> brk_active b"
    using assms(2,5) by (simp_all add: same_map_def abs_env_def)
  from srv_link.gives_second_breakpoint [OF assms(3) d(1,2) assms(6) bs d(3)] obtain t' f' where
    t': "e_world t' = patched rd brk [a] (e_world ?t)" "\<forall>b \<in> set (breakpointReg f'). \<not> brk_active b"
    and run: "\<forall>\<^sub>F n in sequentially. gdb_gives server_cells server_extent server_idle ?len ?t (frame s)
      (run_breaks server_net n [SetBrk a, SetBrk a, ClearBrk a, ClearBrk a]) [1, 1, 1, 1] t' f'"
    by blast
  have last: "breakpointReg s' = breakpointReg f'" if "frame s' = f'" for s' :: "server gdb" using that by auto
  from run t' assms(1) last show ?thesis
    by (fastforce simp: eventually_sequentially gdb_gives_def abs_env_def)
qed

text \<open>
  The memory map shipped with the debugger (\<open>default-memory.map\<close>, without the spaces): addresses are
  not translated, and a breakpoint is a trap that keeps the stop bit of the syllable it replaces.
\<close>

definition shipped_map :: def_table where
  "shipped_map = table_register 0xFFFFFFFF ''_GDB_ADDR_R'' ''_GDB_ADDR''
    (table_register 0xFFFFFFFF ''_GDB_ADDR_W'' ''_GDB_ADDR''
    (table_register 0xFFFFFFFF ''_GDB_SOFTBRK'' ''0x908003E8w|(_GDB_SOFTBRK_SYL&0x00000002w)'' initial_defs))"

definition shipped_brk :: "u32 \<Rightarrow> u32 \<Rightarrow> u32" where
  "shipped_brk a y = 0x908003E8 OR (y AND 2)"

lemma hex8_literal: "hex8 a = expr_text (EOne (OLit (mk_value a AS_UNDEFINED)))"
  by (simp add: hex8_def lit_text_def)

lemma hexU_numeral: "hexU (numeral k) v = hexU (pred_numeral k) (v div 16) @ [hexdigit (v mod 16)]"
  using hexU.simps(2) [of "pred_numeral k" v] by (simp only: numeral_eq_Suc [of k, symmetric])

lemma op_value_bits:
  "op_value OP_BAND a b = Some (mk_value (v_value a AND v_value b) (max (v_size a) (v_size b)))"
  "op_value OP_BOR a b = Some (mk_value (v_value a OR v_value b) (max (v_size a) (v_size b)))"
  by (simp_all add: op_value_def flip: unsigned_and_eq unsigned_or_eq)

lemma runs_text:
  assumes "defs_expand name (e_defs s) = Some (expr_text x)" "name_ok name" "runs len d x (scan_record name s) v (scan_record name s)"
  shows "runs_operand len (Suc d) (OName name) s v s"
  using assms by (intro runs_unchanged)

lemma gdb_names_ok:
  "name_ok ''_GDB_ADDR''" "name_ok ''_GDB_ADDR_R''" "name_ok ''_GDB_ADDR_W''" "name_ok ''_GDB_SOFTBRK''" "name_ok ''_GDB_SOFTBRK_SYL''"
  by (simp_all add: name_ok_def ctype_defs)

lemma initial_chain: "table_chain initial_defs name = []"
  by (simp add: table_chain_def initial_defs_def)

lemma initial_context: "currentContext initial_defs = 0"
  by (simp add: initial_defs_def)

lemma shipped_expand:
  "table_chain d name = [] \<Longrightarrow> currentContext d < 32 \<Longrightarrow> defs_expand name (table_register 0xFFFFFFFF name str d) = Some str"
  "name' \<noteq> name \<Longrightarrow> defs_expand name' (table_register 0xFFFFFFFF name str d) = defs_expand name' d"
  using context_bit_nonzero [of "currentContext d"]
  by (auto simp: all_contexts intro: dtab.expand_unshadowed dtab.expand_other_name)

lemma shipped_map_texts:
  "defs_expand ''_GDB_ADDR_R'' shipped_map = Some (expr_text (EOne (OName ''_GDB_ADDR'')))"
  "defs_expand ''_GDB_ADDR_W'' shipped_map = Some (expr_text (EOne (OName ''_GDB_ADDR'')))"
  "defs_expand ''_GDB_SOFTBRK'' shipped_map = Some (expr_text (EBin (OLit (mk_value 0x908003E8 AS_WORD)) OP_BOR
    (EOne (OParen (EBin (OName ''_GDB_SOFTBRK_SYL'') OP_BAND (EOne (OLit (mk_value 2 AS_WORD))))))))"
proof -
  let ?soft = "''0x908003E8w|(_GDB_SOFTBRK_SYL&0x00000002w)''"
  have "expr_text (EBin (OLit (mk_value 0x908003E8 AS_WORD)) OP_BOR
    (EOne (OParen (EBin (OName ''_GDB_SOFTBRK_SYL'') OP_BAND (EOne (OLit (mk_value 2 AS_WORD))))))) = ?soft"
    by (simp add: lit_text_def hexU_numeral hexdigit_def)
  then show "defs_expand ''_GDB_SOFTBRK'' shipped_map = Some (expr_text (EBin (OLit (mk_value 0x908003E8 AS_WORD)) OP_BOR
    (EOne (OParen (EBin (OName ''_GDB_SOFTBRK_SYL'') OP_BAND (EOne (OLit (mk_value 2 AS_WORD))))))))"
    unfolding shipped_map_def by (simp add: shipped_expand initial_chain initial_context)
qed (simp_all add: shipped_map_def shipped_expand dtab.chain_reg dtab.ctx_reg initial_chain initial_context)

lemma shipped_map_inputs: "inputs_usable shipped_map"
  by (simp add: inputs_usable_def gdb_inputs_def shipped_map_def dtab.ctx_reg dtab.chain_reg initial_chain initial_context)

lemma shipped_map_means: "map_means len id id shipped_brk shipped_map"
  unfolding map_means_def
proof (intro allI impI conjI)
  fix s :: mstate and a
  assume same: "same_map shipped_map (e_defs s)"
  have out: "''_GDB_ADDR_R'' \<notin> gdb_inputs" "''_GDB_ADDR_W'' \<notin> gdb_inputs" "''_GDB_SOFTBRK'' \<notin> gdb_inputs"
    by (simp_all add: gdb_inputs_def)
  note texts = shipped_map_texts [folded same [unfolded same_map_def, rule_format, OF out(1)]
    same [unfolded same_map_def, rule_format, OF out(2)] same [unfolded same_map_def, rule_format, OF out(3)]]
  {
    assume addr: "defs_expand ''_GDB_ADDR'' (e_defs s) = Some (hex8 a)"
    have in_: "runs_operand len (Suc 254) (OName ''_GDB_ADDR'') (scan_record name s) (mk_value a AS_UNDEFINED) (scan_record name s)" for name
      by (rule runs_text [OF _ gdb_names_ok(1) ROne [OF RLit]]) (simp only: addr scan_record_simps hex8_literal)
    have "runs_operand len (Suc (Suc 254)) (OName ''_GDB_ADDR_R'') s (mk_value a AS_UNDEFINED) s"
      "runs_operand len (Suc (Suc 254)) (OName ''_GDB_ADDR_W'') s (mk_value a AS_UNDEFINED) s"
      by (rule runs_text [OF texts(1) gdb_names_ok(2) ROne [OF in_]], rule runs_text [OF texts(2) gdb_names_ok(3) ROne [OF in_]])
    then show "\<exists>v. runs len 256 (EOne (OName ''_GDB_ADDR_R'')) s v s \<and> v_value v = id a"
      "\<exists>v. runs len 256 (EOne (OName ''_GDB_ADDR_W'')) s v s \<and> v_value v = id a"
      by (auto intro!: ROne exI [of _ "mk_value a AS_UNDEFINED"])
  }
  fix y
  assume syl: "defs_expand ''_GDB_SOFTBRK_SYL'' (e_defs s) = Some (hex8 y)"
  let ?s = "scan_record ''_GDB_SOFTBRK'' s"
  have "runs_operand len (Suc 254) (OName ''_GDB_SOFTBRK_SYL'') ?s (mk_value y AS_UNDEFINED) ?s"
    by (rule runs_text [OF _ gdb_names_ok(5) ROne [OF RLit]]) (simp only: syl scan_record_simps hex8_literal)
  then have "runs_operand len (Suc 254) (OParen (EBin (OName ''_GDB_SOFTBRK_SYL'') OP_BAND (EOne (OLit (mk_value 2 AS_WORD))))) ?s (mk_value (y AND 2) AS_WORD) ?s"
    by (rule RParen [OF RBin [OF _ ROne [OF RLit]]]) (simp add: op_value_bits max_def less_eq_access_size_def)
  then have "runs len (Suc 254) (EBin (OLit (mk_value 0x908003E8 AS_WORD)) OP_BOR
      (EOne (OParen (EBin (OName ''_GDB_SOFTBRK_SYL'') OP_BAND (EOne (OLit (mk_value 2 AS_WORD))))))) ?s (mk_value (shipped_brk a y) AS_WORD) ?s"
    by (intro RBin [OF RLit ROne]) (assumption, simp add: op_value_bits shipped_brk_def)
  from runs_text [OF texts(3) gdb_names_ok(4) this]
  show "\<exists>v. runs len 256 (EOne (OName ''_GDB_SOFTBRK'')) s v s \<and> v_value v = shipped_brk a y"
    by (auto intro!: ROne exI [of _ "mk_value (shipped_brk a y) AS_WORD"])
qed

definition demo_gdb :: "server gdb" where
  "demo_gdb = demo_bridge\<lparr>g_env := demo_env\<lparr>e_defs := shipped_map\<rparr>,
     breakpointReg := replicate MAX_BREAKPOINTS \<lparr>brk_active = False, brk_type = 0, brk_addr = 0, brk_data = 0\<rparr>\<rparr>"

theorem software_breakpoints_patch_memory_witness:
  "\<exists>N. \<forall>n \<ge> N. \<exists>s'. run_breaks server_net n [SetBrk 8, SetBrk 12, ClearBrk 8] demo_gdb = (Done [1, 1, 1], s') \<and>
    load_bytes (server_cells (e_world (g_env s'))) 8 8 = [0, 0, 0, 0, 0x90, 0x80, 0x03, 0xE8]"
proof -
  have ops: "all_allowed 64 id id [SetBrk 8, SetBrk 12, ClearBrk 8] []"
    by (simp add: brk_reachable_def key_def MAX_BREAKPOINTS_def)
  have "server_idle (e_world (g_env demo_gdb))" "server_extent (e_world (g_env demo_gdb)) = 64"
    "inputs_usable (e_defs (g_env demo_gdb))" "map_means 64 id id shipped_brk (e_defs (g_env demo_gdb))"
    "length (breakpointReg demo_gdb) = MAX_BREAKPOINTS" "\<forall>b \<in> set (breakpointReg demo_gdb). \<not> brk_active b"
    by (simp_all add: demo_gdb_def demo_env_def demo_server_idle shipped_map_inputs shipped_map_means)
  note breaks = software_breakpoints_patch_memory [OF this(1,3), unfolded this(2), OF this(4-6) ops]
  have zero: "server_cells (e_world (g_env demo_gdb)) = (\<lambda>_. 0)"
    by (simp add: demo_gdb_def demo_env_def demo_server_def server_cells_def)
  have four: "(4 :: nat) = Suc (Suc (Suc (Suc 0)))" by simp
  have bytes: "word_bytes (Suc (Suc (Suc (Suc 0)))) v = [ucast (drop_bit 24 v), ucast (drop_bit 16 v), ucast (drop_bit 8 v), ucast v]" for v
    by (simp add: drop_bit_drop_bit)
  have "load_bytes (patched id shipped_brk [12] (\<lambda>_. 0)) 8 8 = [0, 0, 0, 0, 0x90, 0x80, 0x03, 0xE8]"
    by (simp add: load_bytes_def patched_def upt_rec key_def shipped_brk_def old_word_def be_word_def bytes [folded four])
  moreover have "fold brk_next [SetBrk 8, SetBrk 12, ClearBrk 8] [] = [12]"
    "replicate (length [SetBrk 8, SetBrk 12, ClearBrk 8]) (1 :: nat) = [1, 1, 1]" by simp_all
  ultimately show ?thesis using breaks unfolding zero by metis
qed

end
