(* ===== verification/Spec2Isabelle.thy ===== *)
theory Spec2Isabelle
  imports Preload Parser_Defs Parser_Programs Srec Uart_Memory Debug_Callbacks Trace_Dump Gdb_Memory
begin

text \<open>
  Verification development for the debug tools of the r-VEX (\<open>src/tools/debug-interface\<close>): the
  client \<open>rvd\<close>, a command line debugger with an expression language of its own, and the server
  \<open>rvsrv\<close>, which owns the connection to the processor and serves debug bus accesses to the
  clients over TCP, and the trace dumper \<open>rvtrace\<close>. The rest of the repository is VHDL, assembly,
  scripts and test programs; of the VHDL the two units that speak to these tools are modelled, as
  far as the bytes they exchange go.

  How the parts interact. A user's expression is evaluated by \<open>rvd/parser.c\<close> in the context of
  the definitions of \<open>rvd/definitions.c\<close>; its reads and writes go through the preload buffer
  (\<open>rvd/preload.c\<close>) and \<open>rvd/rvsrvInterface.c\<close>, which sends a textual request and checks the
  textual reply. \<open>rvsrv/main.c\<close> collects the bytes of each client into commands,
  \<open>rvsrv/parseReadWrite.c\<close> parses them, and a back end does the access and answers: the
  memory-mapped one (\<open>rvsrv/mmio/mmio.c\<close>) at once, the UART one (\<open>rvsrv/uart\<close>) by queueing
  operations that are sent as packets over the serial port (\<open>rvsrv/serial.c\<close>) to the packet handler
  of the debug UART. Definition files
  (\<open>rvd/parser.c\<close>, \<open>parseDefs\<close>) fill the store at start-up; \<open>rvd/srec.c\<close> reads and writes
  the files that are uploaded and downloaded. gdb is connected by \<open>rvd/gdb\<close>, which turns its
  packets into evaluations and bus accesses. The trace that the core sends is decoded by
  \<open>rvtrace/traceParse.c\<close> and printed by \<open>rvtrace/main.c\<close> beside the listing kept by
  \<open>rvtrace/disasParse.c\<close>.

  Theories, in the order of the code:

  \<^item> \<open>Prelude\<close>: C string pointers as suffixes, \<open>ctype.h\<close>, the \<open>printf\<close>/\<open>scanf\<close> conversions
    the sources rely on, and the facts on words and digits the components share.
  \<^item> \<open>Definitions\<close> (\<open>rvd/definitions.c\<close>): the hash table of definitions; the locale
    \<open>def_store\<close> is its contract, a chain of masked expansions per name, and the table is its
    interpretation.
  \<^item> \<open>Rvsrv_Client\<close> (\<open>rvd/rvsrvInterface.c\<close>): requests, replies and how they are checked.
    The socket and the server are the parameter \<open>net\<close>.
  \<^item> \<open>Memory_Link\<close>: the locale \<open>memory_link\<close>, what the client relies on from the far end,
    and the client's facts proved from it.
  \<^item> \<open>Rvsrv_Server\<close> (\<open>rvsrv/parseReadWrite.c\<close>, \<open>rvsrv/main.c\<close>, \<open>rvsrv/mmio/mmio.c\<close>): the
    server from bytes of a client to bytes for it; the interpretation of \<open>memory_link\<close>.
  \<^item> \<open>Preload\<close> (\<open>rvd/preload.c\<close>): the preload buffer and its coherence with the memory.
  \<^item> \<open>Parser_Scan\<close>, \<open>Parser_Eval\<close> (\<open>rvd/parser.c\<close>, \<open>rvd/types.h\<close>): scanners and evaluator
    of the expression language. Both work on the text, as the code does. An expansion is read in
    place from the record that holds it, and redefining the name frees it: the environment keeps
    the records whose texts are being read (\<open>e_scanned\<close>), and overwriting one of them is undefined
    behaviour from that moment on.
  \<^item> \<open>Parser_Logic\<close>, \<open>Parser_Facts\<close>: a program logic for the evaluator (results, positions of
    errors, invariants, fuel) and what holds of every run. The locales \<open>scanning\<close>,
    \<open>operand_scanning\<close> and \<open>env_invariant\<close> are the interfaces between the mutually recursive
    scanners, the functions of the language and an invariant.
  \<^item> \<open>Parser_Meaning\<close>, \<open>Parser_Programs\<close>: an abstract syntax of the language with a big-step
    meaning over integers, a byte memory and the definitions, and the proof that evaluating the
    text of a program through the debug link and its server does what the program means.
  \<^item> \<open>Parser_Defs\<close> (\<open>rvd/parser.c\<close>): context masks and definition files.
  \<^item> \<open>Srec\<close> (\<open>rvd/srec.c\<close>): reader and writer of S-record files and their round trip.
  \<^item> \<open>Fifo\<close>: the locale \<open>fifo\<close>, the contract of the ring buffers of the serial port and of the
    operation queues; both are interpretations of it.
  \<^item> \<open>Serial\<close> (\<open>rvsrv/serial.c\<close>): ring buffers and the framing that sends two streams over one
    line. Sending is a multiplexer, receiving refines a demultiplexer, and a flushed line delivers
    everything.
  \<^item> \<open>Debug_Packets\<close>, \<open>Op_Queue\<close>, \<open>Debug_Commands\<close> (\<open>rvsrv/uart/debugCommands.c\<close>,
    \<open>rvsrv/timeout.c\<close>): packets with their checks, queues of operations, and the command layer that
    keeps at most four packets unanswered, repeats lost ones and calls back.
  \<^item> \<open>Debug_Window\<close>, \<open>Debug_Delivery\<close>, \<open>Debug_Liveness\<close>: an abstract sliding window that the
    command layer refines, and its invariant, as long as the replies answer commands of the window in
    order (some may be missing); what a late reply breaks; and without losses the completion of
    every operation in order. \<open>Debug_Callbacks\<close>: at most one callback per operation, whatever
    arrives.
  \<^item> \<open>Debug_ReadWrite\<close> (\<open>rvsrv/uart/debugReadWrite.c\<close>): requests as queues of bulk and volatile
    operations. \<open>Packet_Handler\<close>: the state machine of
    \<open>lib/rvex/periph/periph_uart_packetHandler.vhd\<close>, a packet at a time.
  \<^item> \<open>Uart_Access\<close>, \<open>Uart_Write\<close>: the accesses of the bus that a request makes, through command
    layer and packet handler. \<open>Uart_Memory\<close>: the locales \<open>debug_bus\<close> (a bus with a memory behind
    it) and \<open>uart_link\<close>, in which the UART back end meets the contract \<open>memory_link\<close>; the block RAM
    of the platforms interprets them.
  \<^item> \<open>Trace_Packet\<close>, \<open>Trace_Cycle\<close> (\<open>rvtrace/traceParse.c\<close>): the decoder, against the bytes that
    the trace unit of the core (\<open>lib/rvex/core/core_trace.vhd\<close>) sends, lanes behind the stop bit
    included, and its behaviour on damaged files. What the decoder gets wrong is set apart: the
    address of an upper-halfword write (\<open>misplace\<close>), and branch registers written behind the stop
    bit (\<open>agrees\<close>). \<open>Disassembly\<close> (\<open>rvtrace/disasParse.c\<close>): the three-level tree of program counters,
    interpretation of the locale \<open>pc_store\<close>, and the loader of listings. \<open>Trace_Dump\<close>
    (\<open>rvtrace/main.c\<close>): the dump and its termination.
  \<^item> \<open>Rsp_Protocol\<close> (\<open>rvd/gdb/rsp-protocol.c\<close>): the packets of gdb, sent and received; the locale
    \<open>rsp_handler\<close> is what the packet layer asks of the handler of packets. \<open>Gdb_Breakpoints\<close>
    (\<open>rvd/gdb/rsp-breakpoints.c\<close>): the registry of breakpoints and what setting and removing them
    evaluates and accesses. \<open>Gdb_Commands\<close> (\<open>rvd/gdb/rsp-commands.c\<close>): the commands of gdb,
    interpretation of \<open>rsp_handler\<close>. \<open>Gdb_Memory\<close>: software breakpoints over evaluator, debug link
    and server, as a patch of the memory of the target, with one breakpoint per word; and what a
    second one on the same word leaves behind.

  Fuel. The evaluator takes one step per call of a scanner and per turn of a loop. On a text of
  length \<open>len\<close> with at most \<open>d\<close> expansions left, each of at most \<open>L\<close> characters, \<open>need L d len\<close>
  steps are enough when the program has no \<open>while\<close>; a syntax check expands nothing and
  \<open>2 * len + 2\<close> steps are enough whatever the text. A loop of the language may run forever, so no
  bound holds with \<open>while\<close>. The loops of the S-record reader and of the definition file recurse
  on the characters that are left. The decoder of the trace recurses on the bytes that are left; the
  loop of the dumper that closes a gap between two cycles is a partial function, and its
  termination is part of the theorem that the dumper ends. The gdb bridge hands its number of steps
  to the evaluator; the theorem on breakpoints holds for every number of steps from some number on.

  Not modelled. The TCP layer, \<open>select\<close>, sockets, daemon start-up, the PCIe device file and the
  process of gdb (calls of the operating system without logic of their own); the commands of rvd
  (\<open>rvd/commands\<close>) and its option parsing, which handle arguments and print around the parts that
  are modelled; the application port of the server. Of the VHDL everything but the packet handler
  and the byte format of the trace, and the test programs, platforms and generators, whose
  behaviour is that of the processor. Allocation is taken to succeed, messages on stderr are not
  recorded, and the 1024-byte buffer that error messages of the parser are printed to is taken to be
  large enough. The socket to gdb accepts what is written while it is open.
\<close>

end
